(* ===== verification/Prelude.thy ===== *)
theory Prelude
  imports Main "HOL-Library.Word"
begin

unbundle bit_operations_syntax

text \<open>
  Shared vocabulary of the AFL++ development: the C integer types, the little-endian view of a
  byte buffer as machine words (the fuzzer casts its \<open>u8 *\<close> coverage maps to \<open>u16 *\<close>,
  \<open>u32 *\<close> and \<open>u64 *\<close>), and the list and word lemmas the component theories use.

  The collections: \<open>le_simps\<close> gathers the laws of the byte/word view, \<open>bit_defs\<close> the
  defining equations that bit-level proofs unfold.
\<close>

named_theorems le_simps
named_theorems bit_defs

section \<open>C integer types\<close>

type_synonym u8 = "8 word"
type_synonym u16 = "16 word"
type_synonym u32 = "32 word"
type_synonym u64 = "64 word"

text \<open>A byte buffer; C pointers into one buffer become a list and an offset.\<close>

type_synonym buf = "u8 list"

section \<open>Errors as values\<close>

text \<open>
  A computation that may leave early (a fatal error, a \<open>goto\<close> out of a loop) is a value of a sum
  type, \<open>Inl\<close> the reason. \<open>bind_err\<close> is sequencing and \<open>for_each\<close> a loop over a list of
  loop values.
\<close>

definition bind_err :: "'e + 'a \<Rightarrow> ('a \<Rightarrow> 'e + 'b) \<Rightarrow> 'e + 'b" where
  "bind_err m f = (case m of Inl e \<Rightarrow> Inl e | Inr x \<Rightarrow> f x)"

fun for_each :: "('i \<Rightarrow> 's \<Rightarrow> 'e + 's) \<Rightarrow> 'i list \<Rightarrow> 's \<Rightarrow> 'e + 's" where
  "for_each f [] s = Inr s"
| "for_each f (i # is) s = bind_err (f i s) (for_each f is)"

lemma bind_err_simps [simp]: "bind_err (Inr x) f = f x" "bind_err (Inl e) f = Inl e"
  by (simp_all add: bind_err_def)

lemma bind_err_Inr: "bind_err m f = Inr y \<longleftrightarrow> (\<exists>x. m = Inr x \<and> f x = Inr y)"
  by (cases m) (auto simp: bind_err_def)

lemma bind_err_assoc: "bind_err (bind_err m f) g = bind_err m (\<lambda>x. bind_err (f x) g)"
  by (cases m) simp_all

section \<open>Little-endian words in a byte buffer\<close>

text \<open>The value read by a word-sized load from the bytes \<open>bs\<close>.\<close>

primrec le_word :: "u8 list \<Rightarrow> 'a::len word" where
  "le_word [] = 0"
| "le_word (b # bs) = ucast b OR push_bit 8 (le_word bs)"

text \<open>Byte \<open>k\<close> of a word in memory, and the \<open>n\<close> bytes a store writes.\<close>

definition byte_at :: "'a::len word \<Rightarrow> nat \<Rightarrow> u8" where
  [bit_defs]: "byte_at w k = ucast (drop_bit (8 * k) w)"

definition le_bytes :: "nat \<Rightarrow> 'a::len word \<Rightarrow> u8 list" where
  "le_bytes n w = map (byte_at w) [0..<n]"

lemma bit_le_word:
  "bit (le_word bs :: 'a::len word) n \<longleftrightarrow>
     n < LENGTH('a) \<and> n div 8 < length bs \<and> bit (bs ! (n div 8)) (n mod 8)"
proof (induction bs arbitrary: n)
  case Nil
  then show ?case by simp
next
  case (Cons b bs)
  show ?case
  proof (cases "n < 8")
    case True
    then show ?thesis by (auto simp: bit_simps not_le)
  next
    case False
    then obtain m where m: "n = m + 8" by (metis add.commute le_Suc_ex not_less)
    have "\<not> bit b (m + 8)" using bit_imp_le_length [of b "m + 8"] by auto
    moreover have "(m + 8) div 8 = Suc (m div 8)" by simp
    ultimately show ?thesis by (auto simp: bit_simps m Cons.IH simp del: div_add_self2)
  qed
qed

lemma bit_byte_at: "bit (byte_at w k) n \<longleftrightarrow> n < 8 \<and> bit w (8 * k + n)"
  by (auto simp: byte_at_def bit_simps add.commute dest: bit_imp_le_length)

lemma length_le_bytes [simp, le_simps]: "length (le_bytes n w) = n"
  by (simp add: le_bytes_def)

lemma nth_le_bytes [le_simps]: "k < n \<Longrightarrow> le_bytes n w ! k = byte_at w k"
  by (simp add: le_bytes_def)

lemma byte_at_le_word [le_simps]:
  assumes "k < length bs" and "8 * k + 8 \<le> LENGTH('a::len)"
  shows "byte_at (le_word bs :: 'a word) k = bs ! k"
  by (rule bit_word_eqI) (use assms in \<open>auto simp: bit_byte_at bit_le_word\<close>)

text \<open>A store followed by a load, and a load followed by a store, are the identity.\<close>

lemma le_bytes_le_word [simp, le_simps]:
  "8 * length bs \<le> LENGTH('a::len) \<Longrightarrow> n = length bs \<Longrightarrow> le_bytes n (le_word bs :: 'a word) = bs"
  by (rule nth_equalityI) (auto simp: nth_le_bytes byte_at_le_word)

lemma le_word_le_bytes [simp, le_simps]:
  "LENGTH('a::len) \<le> 8 * n \<Longrightarrow> le_word (le_bytes n (w :: 'a word)) = w"
  by (rule bit_word_eqI) (auto simp: bit_le_word nth_le_bytes bit_byte_at)

lemma le_word_eq_iff:
  assumes "length as = length bs" and "8 * length as \<le> LENGTH('a::len)"
  shows "(le_word as :: 'a word) = le_word bs \<longleftrightarrow> as = bs"
  using assms by (metis le_bytes_le_word)

lemma le_word_eq_0_iff [le_simps]:
  assumes "8 * length bs \<le> LENGTH('a::len)"
  shows "(le_word bs :: 'a word) = 0 \<longleftrightarrow> (\<forall>b\<in>set bs. b = 0)"
proof -
  have z: "(le_word (replicate k 0) :: 'a word) = 0" for k
    by (induction k) simp_all
  have "(le_word bs :: 'a word) = 0 \<longleftrightarrow> bs = replicate (length bs) 0"
    using le_word_eq_iff [of bs "replicate (length bs) 0", where 'a = 'a] assms by (simp add: z)
  then show ?thesis by (metis in_set_replicate replicate_eqI)
qed

text \<open>Bitwise operations on loaded words are the bytewise ones.\<close>

lemma le_word_and [le_simps]:
  assumes "length as = length bs"
  shows "(le_word as :: 'a::len word) AND le_word bs = le_word (map2 (AND) as bs)"
  by (rule bit_word_eqI) (use assms in \<open>auto simp: bit_le_word bit_simps\<close>)

lemma le_word_and_not [le_simps]:
  assumes "length as = length bs" and "LENGTH('a::len) = 8 * length as"
  shows "(le_word as :: 'a word) AND NOT (le_word bs) = le_word (map2 (\<lambda>a b. a AND NOT b) as bs)"
proof (rule bit_word_eqI)
  fix n assume "n < LENGTH('a)"
  then have "n div 8 < length as" using assms by auto
  then show "bit ((le_word as :: 'a word) AND NOT (le_word bs)) n =
      bit (le_word (map2 (\<lambda>a b. a AND NOT b) as bs) :: 'a word) n"
    using assms \<open>n < LENGTH('a)\<close> by (auto simp: bit_le_word bit_simps)
qed

lemma byte_at_0 [simp]: "byte_at 0 k = 0"
  by (simp add: byte_at_def)

section \<open>Lists\<close>

lemma take_drop_append_map:
  "map f (take k xs) @ map f (take n (drop k xs)) = map f (take (k + n) xs)"
  by (simp add: take_add)

lemma length_concat_map_const:
  "(\<And>i. i < m \<Longrightarrow> length (f i) = n) \<Longrightarrow> length (concat (map f [0..<m])) = m * n"
  by (induction m) (auto simp: algebra_simps)

lemma nth_concat_map_const:
  assumes "\<And>i. i < m \<Longrightarrow> length (f i) = n" and "i < m" and "j < n"
  shows "concat (map f [0..<m]) ! (i * n + j) = f i ! j"
  using assms
proof (induction m)
  case 0
  then show ?case by simp
next
  case (Suc m)
  have len: "length (concat (map f [0..<m])) = m * n"
    using Suc.prems(1) by (intro length_concat_map_const) simp
  show ?case
  proof (cases "i < m")
    case True
    then have "i * n + j < m * n"
      by (metis Suc.prems(3) add.commute add_less_cancel_left less_le_trans mult_Suc mult_le_mono1 Suc_leI)
    with True Suc.IH Suc.prems len show ?thesis by (simp add: nth_append)
  next
    case False
    with Suc.prems have "i = m" by simp
    with len Suc.prems show ?thesis by (simp add: nth_append)
  qed
qed

lemma take_32: "take 32 xs = take 8 xs @ take 8 (drop 8 xs) @ take 8 (drop 16 xs) @ take 8 (drop 24 xs)"
  for xs :: "'a list"
  by (simp add: take_add [of 8 24, simplified] take_add [of 8 16, simplified] take_add [of 8 8, simplified] drop_drop)

lemma length_4_cases:
  assumes "length bs = 4"
  obtains b0 b1 b2 b3 where "bs = [b0, b1, b2, b3]"
  using assms by (auto simp: length_Suc_conv numeral_eq_Suc)

section \<open>Words\<close>

lemma and_ff [simp]: "(c :: u8) AND 0xff = c"
proof -
  have "(0xff :: u8) = - 1" by simp
  then show ?thesis by (simp only: and.right_neutral)
qed

lemma and_not_idem: "c AND v = 0 \<Longrightarrow> v AND NOT c = (v :: 'a::len word)"
proof (rule bit_word_eqI)
  fix n assume eq: "c AND v = 0"
  have "\<not> bit (c AND v) n" unfolding eq by simp
  then show "bit (v AND NOT c) n = bit v n" by (auto simp: bit_simps dest: bit_imp_le_length)
qed

lemma and_and_not: "c AND (v AND NOT c) = (0 :: 'a::len word)"
  by (rule bit_word_eqI) (auto simp: bit_simps)

text \<open>The number of set bits.\<close>

definition popcount :: "'a::len word \<Rightarrow> nat" where
  "popcount w = sum_list (map (\<lambda>i. of_bool (bit w i)) [0..<LENGTH('a)])"

lemma sum_bits_le_word:
  "8 * length bs \<le> LENGTH('a::len) \<Longrightarrow>
   sum_list (map (\<lambda>i. of_bool (bit (le_word bs :: 'a word) i)) [0..<8 * length bs]) =
   (sum_list (map popcount bs) :: nat)"
proof (induction bs)
  case (Cons b bs)
  have split: "[0..<8 * length (b # bs)] = [0..<8] @ map (\<lambda>i. i + 8) [0..<8 * length bs]"
    using upt_add_eq_append [of 0 8 "8 * length bs"] by (simp add: map_add_upt add.commute)
  have low: "map (\<lambda>i. of_bool (bit (le_word (b # bs) :: 'a word) i)) [0..<8] =
      (map (\<lambda>i. of_bool (bit b i)) [0..<8] :: nat list)"
    using Cons.prems by (intro map_cong) (auto simp: bit_le_word simp del: le_word.simps)
  have d8: "(x + 8) div 8 = Suc (x div 8)" for x :: nat by simp
  have high: "map (\<lambda>i. of_bool (bit (le_word (b # bs) :: 'a word) (i + 8))) [0..<8 * length bs] =
      (map (\<lambda>i. of_bool (bit (le_word bs :: 'a word) i)) [0..<8 * length bs] :: nat list)"
    using Cons.prems d8 by (intro map_cong) (auto simp: bit_le_word simp del: le_word.simps)
  show ?case
    unfolding split map_append map_map comp_def low high
    using Cons by (simp add: popcount_def)
qed simp

lemma popcount_le_word:
  "length bs = 4 \<Longrightarrow> popcount (le_word bs :: u32) = sum_list (map popcount bs)"
  using sum_bits_le_word [of bs, where 'a = 32] by (simp add: popcount_def)

lemma popcount_card: "popcount (w :: 'a::len word) = card {i. bit w i}"
proof -
  have "sum_list (map (\<lambda>i. of_bool (P i)) xs) = length (filter P xs)" for P and xs :: "nat list"
    by (induction xs) auto
  then have "popcount w = length (filter (bit w) [0..<LENGTH('a)])" by (simp add: popcount_def)
  also have "\<dots> = card (set (filter (bit w) [0..<LENGTH('a)]))"
    by (rule distinct_card [symmetric]) simp
  also have "set (filter (bit w) [0..<LENGTH('a)]) = {i. bit w i}" by (auto dest: bit_imp_le_length)
  finally show ?thesis .
qed

lemma finite_bits [simp]: "finite {i. bit (w :: 'a::len word) i}"
  by (rule finite_subset [of _ "{..<LENGTH('a)}"]) (auto dest: bit_imp_le_length)

lemma popcount_and_not_le: "popcount (v AND NOT c) \<le> popcount (v :: 'a::len word)"
  unfolding popcount_card by (rule card_mono) (auto simp: bit_simps)

lemma popcount_and_not_less:
  assumes "c AND v \<noteq> 0"
  shows "popcount (v AND NOT c) < popcount (v :: 'a::len word)"
proof -
  obtain n where "bit (c AND v) n" using assms bit_eq_iff [of "c AND v" 0] by auto
  then have "n \<in> {i. bit v i}" "n \<notin> {i. bit (v AND NOT c) i}" by (auto simp: bit_simps)
  moreover have "{i. bit (v AND NOT c) i} \<subseteq> {i. bit v i}" by (auto simp: bit_simps)
  ultimately show ?thesis unfolding popcount_card by (intro psubset_card_mono) auto
qed

end
