(* ===== verification/State.thy ===== *)
theory State
  imports Prelude Complex_Main
begin

text \<open>
  The data of the fuzzer, after \<open>include/afl-fuzz.h\<close> and \<open>include/forkserver.h\<close>: the
  part of \<open>afl_forkserver_t\<close>, \<open>struct queue_entry\<close>, the dictionary entries and
  \<open>afl_state_t\<close> that the modelled functions read or write, under the source's field names
  (the fields of a queue entry carry the prefix \<open>q_\<close>, those of a dictionary token \<open>ex_\<close>).

  A \<open>struct queue_entry *\<close> is the entry's index in \<open>queue_buf\<close>: entries are appended by
  \<open>add_to_queue\<close>, freed only by \<open>destroy_queue\<close>, and \<open>queue_buf[id]->id == id\<close>, so the
  index identifies the object; \<open>NULL\<close> is \<open>None\<close>. Counters and lengths are natural numbers;
  where an operation depends on their width the wrap-around is written out there. Bitmap
  contents and checksums are words. A \<open>double\<close> field is a rational number.
\<close>

section \<open>Enumerations\<close>

datatype fsrv_run_result =
  FSRV_RUN_OK | FSRV_RUN_TMOUT | FSRV_RUN_CRASH | FSRV_RUN_ERROR | FSRV_RUN_NOINST | FSRV_RUN_NOBITS

datatype power_schedule =
  EXPLORE | MMOPT | EXPLOIT | FAST | COE | LIN | QUAD | RARE | SEEK

text \<open>The code compares schedules by their enumeration value.\<close>

primrec sched_num :: "power_schedule \<Rightarrow> nat" where
  "sched_num EXPLORE = 0"
| "sched_num MMOPT = 1"
| "sched_num EXPLOIT = 2"
| "sched_num FAST = 3"
| "sched_num COE = 4"
| "sched_num LIN = 5"
| "sched_num QUAD = 6"
| "sched_num RARE = 7"
| "sched_num SEEK = 8"

text \<open>The three virgin maps a coverage comparison can be run against.\<close>

datatype virgin_map = VIRGIN_BITS | VIRGIN_TMOUT | VIRGIN_CRASH

text \<open>\<open>FATAL\<close> and \<open>PFATAL\<close> end the process; the model returns the reason.\<close>

datatype fatal =
    UnableToExecute
  | FatalMsg string

section \<open>Structures\<close>

record afl_forkserver =
  trace_bits :: buf
  map_size :: nat
  real_map_size :: nat
  exec_tmout :: nat
  total_execs :: nat

record queue_entry =
  q_fname :: string
  q_len :: nat
  q_id :: nat
  q_cal_failed :: nat
  q_was_fuzzed :: bool
  q_passed_det :: bool
  q_has_new_cov :: bool
  q_var_behavior :: bool
  q_favored :: bool
  q_fs_redundant :: bool
  q_is_ascii :: bool
  q_disabled :: bool
  q_bitmap_size :: nat
  q_fuzz_level :: nat
  q_n_fuzz_entry :: nat
  q_exec_us :: nat
  q_handicap :: nat
  q_depth :: nat
  q_exec_cksum :: u64
  q_tc_ref :: nat
  q_perf_score :: rat
  q_weight :: rat
  q_mother :: "nat option"
  q_trace_mini :: "buf option"
  q_testcase_buf :: "buf option"

record extra_data =
  ex_data :: buf
  ex_hit_cnt :: nat

record afl_state =
  fsrv :: afl_forkserver
  virgin_bits :: buf
  virgin_tmout :: buf
  virgin_crash :: buf
  bitmap_changed :: bool
  var_bytes :: buf
  first_trace :: buf
  clean_trace :: buf
  n_fuzz :: "nat \<Rightarrow> nat"
  schedule :: power_schedule
  fixed_seed :: bool
  non_instrumented_mode :: bool
  afl_disable_redundant :: bool
  crash_mode :: fsrv_run_result
  queue_buf :: "queue_entry list"
  queue_cur :: "nat option"
  queue_top :: "nat option"
  top_rated :: "nat option list"
  score_changed :: bool
  reinit_table :: bool
  cur_depth :: nat
  max_depth :: nat
  ready_for_splicing_count :: nat
  queued_items :: nat
  active_items :: nat
  pending_not_fuzzed :: nat
  pending_favored :: nat
  queued_favored :: nat
  queued_with_cov :: nat
  queued_variable :: nat
  var_byte_count :: nat
  smallest_favored :: int
  cycles_wo_finds :: nat
  start_time :: nat
  last_find_time :: nat
  longest_find_time :: nat
  total_cal_us :: nat
  total_cal_cycles :: nat
  total_bitmap_size :: nat
  total_bitmap_entries :: nat
  extras :: "extra_data list"
  a_extras :: "extra_data list"
  auto_changed :: bool
  max_det_extras :: nat
  no_arith :: bool
  saved_crashes :: nat
  queue_cycle :: nat
  run_over10m :: bool
  current_entry :: nat
  havoc_stack_pow2 :: nat
  havoc_div :: nat
  input_mode :: nat
  fuzz_mode :: nat
  use_splicing :: bool
  havoc_max_mult :: nat
  min_length :: nat
  max_length :: nat
  queued_discovered :: nat
  alias_table :: "nat list"
  alias_probability :: "rat list"
  q_testcase_max_cache_size :: nat
  q_testcase_max_cache_entries :: nat
  q_testcase_cache :: "nat \<Rightarrow> nat option"
  q_testcase_max_cache_count :: nat
  q_testcase_cache_count :: nat
  q_testcase_smallest_free :: nat
  q_testcase_cache_size :: u64
  q_testcase_evictions :: nat

abbreviation trace :: "afl_state \<Rightarrow> buf" where
  "trace a \<equiv> trace_bits (fsrv a)"

abbreviation set_trace :: "buf \<Rightarrow> afl_state \<Rightarrow> afl_state" where
  "set_trace t a \<equiv> a\<lparr>fsrv := (fsrv a)\<lparr>trace_bits := t\<rparr>\<rparr>"

text \<open>
  What \<open>afl_fsrv_start\<close> establishes for the map sizes: \<open>map_size\<close> is \<open>real_map_size\<close>
  rounded up to a multiple of 64 (\<open>(((n + 63) >> 6) << 6)\<close>), and the trace and virgin maps have
  \<open>map_size\<close> bytes.
\<close>

definition fsrv_wf :: "afl_forkserver \<Rightarrow> bool" where
  "fsrv_wf f \<longleftrightarrow> map_size f mod 64 = 0 \<and> real_map_size f \<le> map_size f \<and>
     length (trace_bits f) = map_size f"

definition maps_wf :: "afl_state \<Rightarrow> bool" where
  "maps_wf a \<longleftrightarrow> fsrv_wf (fsrv a) \<and>
     length (virgin_bits a) = map_size (fsrv a) \<and>
     length (virgin_tmout a) = map_size (fsrv a) \<and>
     length (virgin_crash a) = map_size (fsrv a)"

definition virgin_of :: "virgin_map \<Rightarrow> afl_state \<Rightarrow> buf" where
  "virgin_of k a = (case k of VIRGIN_BITS \<Rightarrow> virgin_bits a
     | VIRGIN_TMOUT \<Rightarrow> virgin_tmout a | VIRGIN_CRASH \<Rightarrow> virgin_crash a)"

definition set_virgin :: "virgin_map \<Rightarrow> buf \<Rightarrow> afl_state \<Rightarrow> afl_state" where
  "set_virgin k v a = (case k of VIRGIN_BITS \<Rightarrow> a\<lparr>virgin_bits := v\<rparr>
     | VIRGIN_TMOUT \<Rightarrow> a\<lparr>virgin_tmout := v\<rparr> | VIRGIN_CRASH \<Rightarrow> a\<lparr>virgin_crash := v\<rparr>)"

lemma virgin_of_set_virgin [simp]: "virgin_of k (set_virgin k v a) = v"
  by (cases k) (simp_all add: virgin_of_def set_virgin_def)

lemma bitmap_changed_set_virgin [simp]: "bitmap_changed (set_virgin k v a) = bitmap_changed a"
  by (cases k) (simp_all add: set_virgin_def)

lemma fsrv_set_virgin [simp]: "fsrv (set_virgin k v a) = fsrv a"
  by (cases k) (simp_all add: set_virgin_def)

lemma virgin_of_simps [simp]:
  "virgin_of k (set_trace t a) = virgin_of k a"
  "virgin_of k (a\<lparr>bitmap_changed := b\<rparr>) = virgin_of k a"
  by (cases k; simp add: virgin_of_def)+

lemma maps_wf_length:
  assumes "maps_wf a"
  shows "length (trace a) = map_size (fsrv a)" and "length (virgin_of k a) = map_size (fsrv a)"
  using assms by (auto simp: maps_wf_def fsrv_wf_def virgin_of_def split: virgin_map.split)

text \<open>A queue entry as \<open>ck_alloc\<close> delivers it.\<close>

definition queue_entry_zero :: queue_entry where
  "queue_entry_zero =
    \<lparr>q_fname = [], q_len = 0, q_id = 0, q_cal_failed = 0, q_was_fuzzed = False, q_passed_det = False,
     q_has_new_cov = False, q_var_behavior = False, q_favored = False, q_fs_redundant = False,
     q_is_ascii = False, q_disabled = False, q_bitmap_size = 0, q_fuzz_level = 0, q_n_fuzz_entry = 0,
     q_exec_us = 0, q_handicap = 0, q_depth = 0, q_exec_cksum = 0, q_tc_ref = 0, q_perf_score = 0,
     q_weight = 0, q_mother = None, q_trace_mini = None, q_testcase_buf = None\<rparr>"

text \<open>
  \<open>afl_state_init\<close>: everything is zero (\<open>memset\<close>, zeroed allocations of \<open>map_size\<close> bytes) but the
  defaults. The shared memory of the trace is not mapped yet.
\<close>

definition afl_state_init :: "nat \<Rightarrow> afl_state" where
  "afl_state_init sz =
    \<lparr>fsrv = \<lparr>trace_bits = [], map_size = sz, real_map_size = 0, exec_tmout = 1000, total_execs = 0\<rparr>,
     virgin_bits = replicate sz 0, virgin_tmout = replicate sz 0, virgin_crash = replicate sz 0,
     bitmap_changed = False,
     var_bytes = replicate sz 0, first_trace = replicate sz 0, clean_trace = replicate sz 0,
     n_fuzz = (\<lambda>_. 0), schedule = EXPLORE, fixed_seed = False, non_instrumented_mode = False,
     afl_disable_redundant = False, crash_mode = FSRV_RUN_OK,
     queue_buf = [], queue_cur = None, queue_top = None, top_rated = replicate sz None,
     score_changed = False, reinit_table = False, cur_depth = 0, max_depth = 0,
     ready_for_splicing_count = 0, queued_items = 0, active_items = 0, pending_not_fuzzed = 0,
     pending_favored = 0, queued_favored = 0, queued_with_cov = 0, queued_variable = 0,
     var_byte_count = 0, smallest_favored = -1, cycles_wo_finds = 0, start_time = 0,
     last_find_time = 0, longest_find_time = 0, total_cal_us = 0, total_cal_cycles = 0,
     total_bitmap_size = 0, total_bitmap_entries = 0, extras = [], a_extras = [],
     auto_changed = False, max_det_extras = 0, no_arith = False, saved_crashes = 0,
     queue_cycle = 0, run_over10m = False, current_entry = 0, havoc_stack_pow2 = 4, havoc_div = 1, input_mode = 0,
     fuzz_mode = 0, use_splicing = False, havoc_max_mult = 64, min_length = 1, max_length = 1048576,
     queued_discovered = 0, alias_table = [], alias_probability = [],
     q_testcase_max_cache_size = 50 * 1048576, q_testcase_max_cache_entries = 65536,
     q_testcase_cache = (\<lambda>_. None), q_testcase_max_cache_count = 0,
     q_testcase_cache_count = 0, q_testcase_smallest_free = 0, q_testcase_cache_size = 0,
     q_testcase_evictions = 0\<rparr>"

text \<open>
  What \<open>main\<close> makes of it before the first input runs, for a target with \<open>sz\<close> map bytes: the map size
  is rounded up to a multiple of 64, the trace is mapped, the virgin maps are set to 255, and the
  dictionary limit has its default.
\<close>

definition campaign_start :: "nat \<Rightarrow> afl_state" where
  "campaign_start sz =
     (let m = 64 * ((sz + 63) div 64); a = afl_state_init m
      in a\<lparr>fsrv := (fsrv a)\<lparr>trace_bits := replicate m 0, real_map_size := sz\<rparr>,
           virgin_bits := replicate m 255, virgin_tmout := replicate m 255, virgin_crash := replicate m 255,
           max_det_extras := 256\<rparr>)"

lemmas campaign_start_eq = campaign_start_def [unfolded Let_def afl_state_init_def]

lemma maps_wf_init [simp]: "maps_wf (campaign_start sz)"
proof -
  have "sz \<le> 64 * ((sz + 63) div 64)" by linarith
  then show ?thesis by (simp add: campaign_start_eq maps_wf_def fsrv_wf_def)
qed

lemma init_sizes [simp]:
  "map_size (fsrv (campaign_start sz)) = 64 * ((sz + 63) div 64)"
  "real_map_size (fsrv (campaign_start sz)) = sz"
  "virgin_of k (campaign_start sz) = replicate (64 * ((sz + 63) div 64)) 255"
  by (cases k; simp add: campaign_start_eq virgin_of_def)+

end
