(* ===== verification/Coverage.thy ===== *)
theory Coverage
  imports State
begin

unbundle bit_operations_syntax

text \<open>
  Coverage bitmaps: \<open>src/afl-fuzz-bitmap.c\<close> and \<open>include/coverage-64.h\<close> (the 64-bit build).
  The hit-count classification and simplification of a trace, the comparison of a trace with a
  virgin map, its one-pass variant on an unclassified trace, the bit and byte counters of the
  status screen, and the compaction of a trace to one bit per map byte.

  The loops run word by word over the byte maps, as the C code does through pointer casts; the
  lemmas show what each computes byte by byte.
\<close>

section \<open>Lookup tables\<close>

text \<open>\<open>simplify_lookup\<close>, \<open>count_class_lookup8\<close>: the two 256-entry tables.\<close>

definition simplify_lookup :: "u8 \<Rightarrow> u8" where
  "simplify_lookup b = (if b = 0 then 1 else 128)"

definition count_class_lookup8 :: "u8 \<Rightarrow> u8" where
  "count_class_lookup8 b =
     (if b = 0 then 0 else if b = 1 then 1 else if b = 2 then 2 else if b = 3 then 4
      else if b \<le> 7 then 8 else if b \<le> 15 then 16 else if b \<le> 31 then 32
      else if b \<le> 127 then 64 else 128)"

text \<open>
  \<open>init_count_class16\<close> fills the 65536-entry table with the class of both bytes of a 16-bit
  unit: entry \<open>(b1 << 8) + b2\<close> is \<open>(class[b1] << 8) | class[b2]\<close>.
\<close>

definition init_count_class16 :: "u16 list" where
  "init_count_class16 = concat (map (\<lambda>b1. map (\<lambda>b2.
     push_bit 8 (ucast (count_class_lookup8 (word_of_nat b1)))
       OR ucast (count_class_lookup8 (word_of_nat b2))) [0..<256]) [0..<256])"

definition count_class_lookup16 :: "u16 \<Rightarrow> u16" where
  "count_class_lookup16 w = init_count_class16 ! unat w"

section \<open>Classification and simplification of a trace\<close>

text \<open>\<open>classify_word\<close>: \<open>memcpy\<close> to four 16-bit units, one table lookup each, \<open>memcpy\<close> back.\<close>

definition unit16 :: "u64 \<Rightarrow> nat \<Rightarrow> u16" where
  "unit16 w k = ucast (drop_bit (16 * k) w)"

definition classify_word :: "u64 \<Rightarrow> u64" where
  "classify_word w =
     (let m0 = count_class_lookup16 (unit16 w 0);
          m1 = count_class_lookup16 (unit16 w 1);
          m2 = count_class_lookup16 (unit16 w 2);
          m3 = count_class_lookup16 (unit16 w 3)
      in ucast m0 OR push_bit 16 (ucast m1) OR push_bit 32 (ucast m2) OR push_bit 48 (ucast m3))"

fun classify_loop :: "nat \<Rightarrow> buf \<Rightarrow> buf" where
  "classify_loop 0 mem = mem"
| "classify_loop (Suc i) mem =
     (let w = le_word (take 8 mem) :: u64;
          w' = (if w \<noteq> 0 then classify_word w else w)
      in le_bytes 8 w' @ classify_loop i (drop 8 mem))"

definition classify_counts :: "afl_forkserver \<Rightarrow> afl_forkserver" where
  "classify_counts f = f\<lparr>trace_bits := classify_loop (map_size f div 8) (trace_bits f)\<rparr>"

fun simplify_loop :: "nat \<Rightarrow> buf \<Rightarrow> buf" where
  "simplify_loop 0 mem = mem"
| "simplify_loop (Suc i) mem =
     (let w = le_word (take 8 mem) :: u64
      in (if w \<noteq> 0 then map simplify_lookup (take 8 mem)
          else le_bytes 8 (0x0101010101010101 :: u64)) @ simplify_loop i (drop 8 mem))"

definition simplify_trace :: "afl_state \<Rightarrow> buf \<Rightarrow> buf" where
  "simplify_trace a bytes = simplify_loop (map_size (fsrv a) div 8) bytes"

section \<open>Comparison with a virgin map\<close>

text \<open>\<open>discover_word\<close>: returns the updated \<open>*ret\<close> and \<open>*virgin\<close>.\<close>

definition discover_word :: "nat \<Rightarrow> u64 \<Rightarrow> u64 \<Rightarrow> nat \<times> u64" where
  "discover_word ret current virgin =
     (if current AND virgin \<noteq> 0
      then ((if ret < 2
             then (if \<exists>k\<in>{0..<8}. byte_at current k \<noteq> 0 \<and> byte_at virgin k = 0xff then 2 else 1)
             else ret),
            virgin AND NOT current)
      else (ret, virgin))"

fun has_new_bits_loop :: "nat \<Rightarrow> nat \<Rightarrow> buf \<Rightarrow> buf \<Rightarrow> nat \<times> buf" where
  "has_new_bits_loop 0 ret cur vir = (ret, vir)"
| "has_new_bits_loop (Suc i) ret cur vir =
     (let c = le_word (take 8 cur) :: u64;
          v = le_word (take 8 vir) :: u64;
          (ret', v') = (if c \<noteq> 0 then discover_word ret c v else (ret, v));
          (ret'', vir'') = has_new_bits_loop i ret' (drop 8 cur) (drop 8 vir)
      in (ret'', le_bytes 8 v' @ vir''))"

definition has_new_bits :: "afl_state \<Rightarrow> virgin_map \<Rightarrow> nat \<times> afl_state" where
  "has_new_bits a k =
     (let (ret, vir) = has_new_bits_loop ((real_map_size (fsrv a) + 7) div 8) 0 (trace a) (virgin_of k a);
          a' = set_virgin k vir a
      in (ret, if ret \<noteq> 0 \<and> k = VIRGIN_BITS then a'\<lparr>bitmap_changed := True\<rparr> else a'))"

text \<open>\<open>skim\<close>: four words per iteration, until \<open>current\<close> reaches the end of the map.\<close>

definition skim_hit :: "buf \<Rightarrow> buf \<Rightarrow> nat \<Rightarrow> bool" where
  "skim_hit virgin current x =
     (let c = le_word (take 8 (drop (8 * x) current)) :: u64;
          v = le_word (take 8 (drop (8 * x) virgin)) :: u64
      in c \<noteq> 0 \<and> classify_word c AND v \<noteq> 0)"

function skim :: "buf \<Rightarrow> buf \<Rightarrow> nat" where
  "skim virgin current =
     (if current = [] then 0
      else if skim_hit virgin current 0 then 1
      else if skim_hit virgin current 1 then 1
      else if skim_hit virgin current 2 then 1
      else if skim_hit virgin current 3 then 1
      else skim (drop 32 virgin) (drop 32 current))"
  by pat_completeness auto
termination
  by (relation "measure (\<lambda>(v, c). length c)") auto

declare skim.simps [simp del]

text \<open>
  \<open>has_new_bits_unclassified\<close>: the result is the return value, the state, and the flag
  \<open>*classified\<close> after the call.
\<close>

definition has_new_bits_unclassified :: "afl_state \<Rightarrow> virgin_map \<Rightarrow> bool \<Rightarrow> nat \<times> afl_state \<times> bool" where
  "has_new_bits_unclassified a k classified =
     (if skim (virgin_of k a) (take (map_size (fsrv a)) (trace a)) = 0 then (0, a, classified)
      else let (r, a') = has_new_bits (a\<lparr>fsrv := classify_counts (fsrv a)\<rparr>) k in (r, a', True))"

section \<open>Counting\<close>

text \<open>The counters are \<open>u32\<close>: \<open>ret\<close> wraps, and so does the sum in the number of words.\<close>

definition scanned_words :: "afl_state \<Rightarrow> nat" where
  "scanned_words a = ((real_map_size (fsrv a) + 3) mod 2 ^ 32) div 4"

fun count_bits_loop :: "nat \<Rightarrow> buf \<Rightarrow> u32 \<Rightarrow> u32" where
  "count_bits_loop 0 mem ret = ret"
| "count_bits_loop (Suc i) mem ret =
     (let v = le_word (take 4 mem) :: u32
      in count_bits_loop i (drop 4 mem)
           (if v = 0xffffffff then ret + 32
            else ret + word_of_nat (popcount v)))"

definition count_bits :: "afl_state \<Rightarrow> buf \<Rightarrow> nat" where
  "count_bits a mem = unat (count_bits_loop (scanned_words a) mem 0)"

fun count_bytes_loop :: "nat \<Rightarrow> buf \<Rightarrow> u32 \<Rightarrow> u32" where
  "count_bytes_loop 0 mem ret = ret"
| "count_bytes_loop (Suc i) mem ret =
     (let v = le_word (take 4 mem) :: u32
      in count_bytes_loop i (drop 4 mem)
           (if v = 0 then ret
            else ret + (if v AND 0x000000ff \<noteq> 0 then 1 else 0)
                     + (if v AND 0x0000ff00 \<noteq> 0 then 1 else 0)
                     + (if v AND 0x00ff0000 \<noteq> 0 then 1 else 0)
                     + (if v AND 0xff000000 \<noteq> 0 then 1 else 0)))"

definition count_bytes :: "afl_state \<Rightarrow> buf \<Rightarrow> nat" where
  "count_bytes a mem = unat (count_bytes_loop (scanned_words a) mem 0)"

fun count_non_255_loop :: "nat \<Rightarrow> buf \<Rightarrow> u32 \<Rightarrow> u32" where
  "count_non_255_loop 0 mem ret = ret"
| "count_non_255_loop (Suc i) mem ret =
     (let v = le_word (take 4 mem) :: u32
      in count_non_255_loop i (drop 4 mem)
           (if v = 0xffffffff then ret
            else ret + (if v AND 0x000000ff \<noteq> 0x000000ff then 1 else 0)
                     + (if v AND 0x0000ff00 \<noteq> 0x0000ff00 then 1 else 0)
                     + (if v AND 0x00ff0000 \<noteq> 0x00ff0000 then 1 else 0)
                     + (if v AND 0xff000000 \<noteq> 0xff000000 then 1 else 0)))"

definition count_non_255_bytes :: "afl_state \<Rightarrow> buf \<Rightarrow> nat" where
  "count_non_255_bytes a mem = unat (count_non_255_loop (scanned_words a) mem 0)"

section \<open>Compaction\<close>

text \<open>\<open>minimize_bits\<close>: one bit of \<open>dst\<close> per byte of \<open>src\<close>.\<close>

fun minimize_loop :: "nat \<Rightarrow> nat \<Rightarrow> buf \<Rightarrow> buf \<Rightarrow> buf" where
  "minimize_loop 0 i dst src = dst"
| "minimize_loop (Suc n) i dst src =
     minimize_loop n (Suc i)
       (if hd src \<noteq> 0 then dst[i div 8 := (dst ! (i div 8)) OR push_bit (i mod 8) 1] else dst)
       (tl src)"

definition minimize_bits :: "afl_state \<Rightarrow> buf \<Rightarrow> buf \<Rightarrow> buf" where
  "minimize_bits a dst src = minimize_loop (map_size (fsrv a)) 0 dst src"

section \<open>Table lookups byte by byte\<close>

lemma count_class_lookup16_eq:
  "count_class_lookup16 w =
     push_bit 8 (ucast (count_class_lookup8 (ucast (drop_bit 8 w)))) OR
     ucast (count_class_lookup8 (ucast w))"
proof -
  let ?f = "\<lambda>b1. map (\<lambda>b2. push_bit 8 (ucast (count_class_lookup8 (word_of_nat b1)))
       OR ucast (count_class_lookup8 (word_of_nat b2)) :: u16) [0..<256]"
  let ?i = "unat w div 256" and ?j = "unat w mod 256"
  have i: "?i < 256" using unsigned_less [of w, where 'a = nat] by (auto simp: less_mult_imp_div_less)
  have "init_count_class16 ! (?i * 256 + ?j) = ?f ?i ! ?j"
    unfolding init_count_class16_def by (rule nth_concat_map_const) (use i in auto)
  moreover have "word_of_nat ?i = (ucast (drop_bit 8 w) :: u8)"
    by (simp add: word_unat_eq_iff drop_bit_eq_div unat_div unsigned_ucast_eq unat_of_nat take_bit_eq_mod)
  moreover have "word_of_nat ?j = (ucast w :: u8)"
    by (simp add: word_unat_eq_iff unsigned_ucast_eq unat_of_nat take_bit_eq_mod)
  ultimately show ?thesis by (simp add: count_class_lookup16_def)
qed

lemma byte_at_classify_word:
  assumes "k < 8"
  shows "byte_at (classify_word w) k = count_class_lookup8 (byte_at w k)"
proof -
  have low: "ucast (unit16 w j) = byte_at w (2 * j)" for j
    by (rule bit_word_eqI) (auto simp: unit16_def byte_at_def bit_simps ac_simps)
  have high: "ucast (drop_bit 8 (unit16 w j)) = byte_at w (2 * j + 1)" for j
    by (rule bit_word_eqI) (auto simp: unit16_def byte_at_def bit_simps ac_simps)
  have "k \<in> {0, 1, 2, 3, 4, 5, 6, 7}" using assms by auto
  then show ?thesis
    unfolding classify_word_def count_class_lookup16_eq low high Let_def
    by (elim insertE emptyE; hypsubst)
       (rule bit_word_eqI; auto simp: bit_byte_at bit_simps dest: bit_imp_le_length)+
qed


lemma classify_word_le_word:
  assumes "length bs = 8"
  shows "classify_word (le_word bs) = le_word (map count_class_lookup8 bs)"
proof -
  have "le_bytes 8 (classify_word (le_word bs)) = map count_class_lookup8 bs"
    by (rule nth_equalityI)
       (use assms in \<open>auto simp: nth_le_bytes byte_at_classify_word byte_at_le_word\<close>)
  moreover have "le_word (le_bytes 8 (classify_word (le_word bs))) = classify_word (le_word bs)"
    by (rule le_word_le_bytes) simp
  ultimately show ?thesis by simp
qed

lemma count_class_lookup8_0 [simp]: "count_class_lookup8 0 = 0"
  by (simp add: count_class_lookup8_def)

lemma count_class_lookup8_eq_0_iff [simp]: "count_class_lookup8 b = 0 \<longleftrightarrow> b = 0"
  by (simp add: count_class_lookup8_def)

text \<open>The word loops do what their byte loops would.\<close>

lemma classify_loop_eq:
  "8 * n \<le> length mem \<Longrightarrow>
   classify_loop n mem = map count_class_lookup8 (take (8 * n) mem) @ drop (8 * n) mem"
proof (induction n arbitrary: mem)
  case 0
  then show ?case by simp
next
  case (Suc n)
  let ?w = "le_word (take 8 mem) :: u64"
  have l8: "length (take 8 mem) = 8" using Suc.prems by simp
  have z: "?w = 0 \<longleftrightarrow> (\<forall>b\<in>set (take 8 mem). b = 0)"
    by (rule le_word_eq_0_iff) (simp add: l8)
  have "le_bytes 8 (if ?w \<noteq> 0 then classify_word ?w else ?w) = map count_class_lookup8 (take 8 mem)"
  proof (cases "?w = 0")
    case True
    then have "map count_class_lookup8 (take 8 mem) = take 8 mem"
      using z by (intro map_idI) auto
    moreover have "le_bytes 8 ?w = take 8 mem" using l8 by (intro le_bytes_le_word) auto
    ultimately show ?thesis using True by simp
  next
    case False
    then show ?thesis using l8 by (simp add: classify_word_le_word)
  qed
  moreover have "classify_loop n (drop 8 mem) =
      map count_class_lookup8 (take (8 * n) (drop 8 mem)) @ drop (8 * n) (drop 8 mem)"
    using Suc.prems by (intro Suc.IH) simp
  ultimately show ?case
    by (simp add: Let_def take_drop_append_map [of _ 8, symmetric] add.commute)
qed

lemma simplify_loop_eq:
  "8 * n \<le> length mem \<Longrightarrow>
   simplify_loop n mem = map simplify_lookup (take (8 * n) mem) @ drop (8 * n) mem"
proof (induction n arbitrary: mem)
  case 0
  then show ?case by simp
next
  case (Suc n)
  let ?w = "le_word (take 8 mem) :: u64"
  have l8: "length (take 8 mem) = 8" using Suc.prems by simp
  have z: "?w = 0 \<longleftrightarrow> (\<forall>b\<in>set (take 8 mem). b = 0)"
    by (rule le_word_eq_0_iff) (simp add: l8)
  have ones: "le_bytes 8 (0x0101010101010101 :: u64) = replicate 8 1"
    by code_simp
  have "(if ?w \<noteq> 0 then map simplify_lookup (take 8 mem) else le_bytes 8 (0x0101010101010101 :: u64)) =
      map simplify_lookup (take 8 mem)"
  proof (cases "?w = 0")
    case True
    then have "map simplify_lookup (take 8 mem) = map (\<lambda>_. 1) (take 8 mem)"
      using z by (intro map_cong) (auto simp: simplify_lookup_def)
    then show ?thesis using True l8 ones by (simp add: map_replicate_const)
  qed simp
  moreover have "simplify_loop n (drop 8 mem) =
      map simplify_lookup (take (8 * n) (drop 8 mem)) @ drop (8 * n) (drop 8 mem)"
    using Suc.prems by (intro Suc.IH) simp
  ultimately show ?case
    by (simp add: Let_def take_drop_append_map [of _ 8, symmetric] add.commute)
qed

section \<open>Novelty of a trace\<close>

definition new_tuple :: "buf \<Rightarrow> buf \<Rightarrow> bool" where
  "new_tuple cs vs \<longleftrightarrow> (\<exists>(c, v) \<in> set (zip cs vs). c \<noteq> 0 \<and> v = 0xff)"

definition new_count :: "buf \<Rightarrow> buf \<Rightarrow> bool" where
  "new_count cs vs \<longleftrightarrow> (\<exists>(c, v) \<in> set (zip cs vs). c AND v \<noteq> 0)"

definition novelty :: "buf \<Rightarrow> buf \<Rightarrow> nat" where
  "novelty cs vs = (if new_tuple cs vs then 2 else if new_count cs vs then 1 else 0)"

definition clear_seen :: "buf \<Rightarrow> buf \<Rightarrow> buf" where
  "clear_seen vs cs = map2 (\<lambda>v c. v AND NOT c) vs cs"

lemma new_tuple_imp_new_count: "new_tuple cs vs \<Longrightarrow> new_count cs vs"
  unfolding new_tuple_def new_count_def by (elim bexE) (rule bexI, auto)

lemma new_count_zero: "\<forall>c\<in>set cs. c = 0 \<Longrightarrow> \<not> new_count cs vs"
proof
  assume z: "\<forall>c\<in>set cs. c = 0" and "new_count cs vs"
  then obtain c v where cv: "(c, v) \<in> set (zip cs vs)" "c AND v \<noteq> 0"
    unfolding new_count_def by blast
  from cv(1) have "c \<in> set cs" by (rule set_zip_leftD)
  with z have "c = 0" by blast
  with cv(2) show False by simp
qed

lemma novelty_le_2: "novelty cs vs \<le> 2"
  by (simp add: novelty_def)

lemma novelty_eq_0_iff: "novelty cs vs = 0 \<longleftrightarrow> \<not> new_count cs vs"
  using new_tuple_imp_new_count by (auto simp: novelty_def)

lemma novelty_fresh:
  "i < length cs \<Longrightarrow> i < length vs \<Longrightarrow> cs ! i \<noteq> 0 \<Longrightarrow> vs ! i = 0xff \<Longrightarrow> novelty cs vs = 2"
  by (auto simp: novelty_def new_tuple_def set_zip)

lemma novelty_append:
  "length cs = length vs \<Longrightarrow> novelty (cs @ cs') (vs @ vs') = max (novelty cs vs) (novelty cs' vs')"
  using new_tuple_imp_new_count [of cs vs] new_tuple_imp_new_count [of cs' vs']
  by (auto simp: novelty_def new_tuple_def new_count_def)

lemma length_clear_seen [simp]: "length (clear_seen vs cs) = min (length vs) (length cs)"
  by (simp add: clear_seen_def)

lemma clear_seen_append:
  "length cs = length vs \<Longrightarrow> clear_seen (vs @ vs') (cs @ cs') = clear_seen vs cs @ clear_seen vs' cs'"
  by (simp add: clear_seen_def)

lemma clear_seen_id:
  assumes "\<not> new_count cs vs" and "length cs = length vs"
  shows "clear_seen vs cs = vs"
  using assms by (induction cs vs rule: list_induct2')
     (auto simp: clear_seen_def new_count_def and_not_idem)

lemma novelty_clear_seen: "length cs = length vs \<Longrightarrow> novelty cs (clear_seen vs cs) = 0"
  unfolding novelty_eq_0_iff
  by (induction cs vs rule: list_induct2')
     (auto simp: clear_seen_def new_count_def and_and_not)

lemma le_word_and_eq_0_iff:
  assumes "length cs = 8" "length vs = 8"
  shows "(le_word cs :: u64) AND le_word vs \<noteq> 0 \<longleftrightarrow> new_count cs vs"
  using assms by (auto simp: le_word_and le_word_eq_0_iff new_count_def set_zip)

lemma new_tuple_bytes:
  assumes "length cs = 8" "length vs = 8"
  shows "(\<exists>k\<in>{0..<8}. byte_at (le_word cs :: u64) k \<noteq> 0 \<and> byte_at (le_word vs :: u64) k = 0xff) \<longleftrightarrow>
    new_tuple cs vs"
  using assms by (fastforce simp: byte_at_le_word new_tuple_def set_zip)

lemma discover_word_eq:
  assumes "length cs = 8" "length vs = 8" "ret \<le> 2"
  shows "discover_word ret (le_word cs) (le_word vs) =
    (max ret (novelty cs vs), le_word (clear_seen vs cs))"
proof (cases "new_count cs vs")
  case True
  have "(le_word vs :: u64) AND NOT (le_word cs) = le_word (clear_seen vs cs)"
    unfolding clear_seen_def by (rule le_word_and_not) (simp_all add: assms)
  with True assms show ?thesis
    by (auto simp: discover_word_def le_word_and_eq_0_iff [OF assms(1,2)] new_tuple_bytes [OF assms(1,2)]
        novelty_def)
next
  case False
  with assms show ?thesis
    using novelty_eq_0_iff [of cs vs]
    by (simp add: discover_word_def le_word_and_eq_0_iff [OF assms(1,2)] clear_seen_id)
qed

lemma has_new_bits_loop_eq:
  "8 * n \<le> length cur \<Longrightarrow> length vir = length cur \<Longrightarrow> ret \<le> 2 \<Longrightarrow>
   has_new_bits_loop n ret cur vir =
     (max ret (novelty (take (8 * n) cur) (take (8 * n) vir)),
      clear_seen (take (8 * n) vir) (take (8 * n) cur) @ drop (8 * n) vir)"
proof (induction n arbitrary: ret cur vir)
  case 0
  then show ?case by (simp add: novelty_def new_tuple_def new_count_def clear_seen_def)
next
  case (Suc n)
  let ?cs = "take 8 cur" and ?vs = "take 8 vir"
  have l: "length ?cs = 8" "length ?vs = 8" using Suc.prems by simp_all
  have z: "(le_word ?cs :: u64) = 0 \<Longrightarrow> \<not> new_count ?cs ?vs"
    using le_word_and_eq_0_iff [OF l] by auto
  have step: "(if (le_word ?cs :: u64) \<noteq> 0 then discover_word ret (le_word ?cs) (le_word ?vs) else (ret, le_word ?vs)) =
      (max ret (novelty ?cs ?vs), le_word (clear_seen ?vs ?cs))"
    using z l Suc.prems(3) novelty_eq_0_iff [of ?cs ?vs] by (auto simp: discover_word_eq clear_seen_id)
  have split: "take (8 + 8 * n) xs = take 8 xs @ take (8 * n) (drop 8 xs)" for xs :: buf
    by (simp add: take_add)
  have IH: "has_new_bits_loop n (max ret (novelty ?cs ?vs)) (drop 8 cur) (drop 8 vir) =
      (max (max ret (novelty ?cs ?vs)) (novelty (take (8 * n) (drop 8 cur)) (take (8 * n) (drop 8 vir))),
       clear_seen (take (8 * n) (drop 8 vir)) (take (8 * n) (drop 8 cur)) @ drop (8 * n) (drop 8 vir))"
    by (rule Suc.IH) (use Suc.prems novelty_le_2 in auto)
  have "le_bytes 8 (le_word (clear_seen ?vs ?cs) :: u64) = clear_seen ?vs ?cs"
    by (rule le_bytes_le_word) (use l in simp_all)
  then show ?case
    using l by (simp add: Let_def step IH split novelty_append clear_seen_append max.assoc add.commute)
qed

lemma maps_wf_words:
  assumes "maps_wf a"
  shows "8 * ((real_map_size (fsrv a) + 7) div 8) \<le> map_size (fsrv a)" and "32 dvd map_size (fsrv a)"
proof -
  have "64 dvd map_size (fsrv a)" and r: "real_map_size (fsrv a) \<le> map_size (fsrv a)"
    using assms by (auto simp: maps_wf_def fsrv_wf_def dvd_eq_mod_eq_0)
  then obtain q where q: "map_size (fsrv a) = 64 * q" by (elim dvdE)
  show "32 dvd map_size (fsrv a)" by (rule dvd_trans [of _ 64]) (simp_all add: q)
  have "(real_map_size (fsrv a) + 7) div 8 < 8 * q + 1"
    using r q by (intro less_mult_imp_div_less) (simp add: algebra_simps)
  then show "8 * ((real_map_size (fsrv a) + 7) div 8) \<le> map_size (fsrv a)" using q by linarith
qed

lemma has_new_bits_eq:
  fixes a :: afl_state and k :: virgin_map
  assumes "maps_wf a" and n: "n = 8 * ((real_map_size (fsrv a) + 7) div 8)"
  defines "cs \<equiv> take n (trace a)" and "vs \<equiv> take n (virgin_of k a)"
  shows "fst (has_new_bits a k) = novelty cs vs"
    and "virgin_of k (snd (has_new_bits a k)) = clear_seen vs cs @ drop n (virgin_of k a)"
    and "fsrv (snd (has_new_bits a k)) = fsrv a"
    and "bitmap_changed (snd (has_new_bits a k)) = (bitmap_changed a \<or> novelty cs vs \<noteq> 0 \<and> k = VIRGIN_BITS)"
proof -
  have "n \<le> map_size (fsrv a)"
    unfolding n using assms(1) by (rule maps_wf_words)
  then have "has_new_bits_loop ((real_map_size (fsrv a) + 7) div 8) 0 (trace a) (virgin_of k a) =
     (novelty cs vs, clear_seen vs cs @ drop n (virgin_of k a))"
    unfolding cs_def vs_def n
    by (subst has_new_bits_loop_eq) (use maps_wf_length [OF assms(1)] n in auto)
  then show "fst (has_new_bits a k) = novelty cs vs"
    and "virgin_of k (snd (has_new_bits a k)) = clear_seen vs cs @ drop n (virgin_of k a)"
    and "fsrv (snd (has_new_bits a k)) = fsrv a"
    and "bitmap_changed (snd (has_new_bits a k)) = (bitmap_changed a \<or> novelty cs vs \<noteq> 0 \<and> k = VIRGIN_BITS)"
    by (auto simp: has_new_bits_def Let_def)
qed


text \<open>A scan over the 32-byte blocks of the map finds every word with an unseen class bit.\<close>

lemma skim_hit_iff:
  assumes "8 * x + 8 \<le> length cur" "length vir = length cur"
  shows "skim_hit vir cur x \<longleftrightarrow>
    new_count (map count_class_lookup8 (take 8 (drop (8 * x) cur))) (take 8 (drop (8 * x) vir))"
proof -
  let ?cs = "take 8 (drop (8 * x) cur)" and ?vs = "take 8 (drop (8 * x) vir)"
  have l: "length ?cs = 8" "length ?vs = 8" using assms by simp_all
  have "classify_word (le_word ?cs) AND (le_word ?vs :: u64) \<noteq> 0 \<longleftrightarrow> new_count (map count_class_lookup8 ?cs) ?vs"
    using l by (subst classify_word_le_word) (simp_all add: le_word_and_eq_0_iff)
  moreover have "(le_word ?cs :: u64) = 0 \<Longrightarrow> \<not> new_count (map count_class_lookup8 ?cs) ?vs"
  proof -
    assume "(le_word ?cs :: u64) = 0"
    then have "\<forall>b\<in>set ?cs. b = 0" using l by (subst (asm) le_word_eq_0_iff) simp_all
    then show "\<not> new_count (map count_class_lookup8 ?cs) ?vs"
      by (intro new_count_zero) auto
  qed
  ultimately show ?thesis unfolding skim_hit_def Let_def by blast
qed

lemma new_count_append:
  "length cs = length vs \<Longrightarrow> new_count (cs @ cs') (vs @ vs') \<longleftrightarrow> new_count cs vs \<or> new_count cs' vs'"
  by (auto simp: new_count_def)

lemma skim_eq:
  "length vir = length cur \<Longrightarrow> 32 dvd length cur \<Longrightarrow>
   skim vir cur = (if new_count (map count_class_lookup8 cur) vir then 1 else 0)"
proof (induction vir cur rule: skim.induct)
  case (1 vir cur)
  show ?case
  proof (cases "cur = []")
    case True
    then show ?thesis by (simp add: skim.simps new_count_def)
  next
    case False
    with "1.prems"(2) have len: "32 \<le> length cur" by (simp add: dvd_imp_le)
    let ?f = count_class_lookup8
    have hits: "skim_hit vir cur 0 \<or> skim_hit vir cur 1 \<or> skim_hit vir cur 2 \<or> skim_hit vir cur 3 \<longleftrightarrow>
        new_count (map ?f (take 32 cur)) (take 32 vir)"
      using len "1.prems"(1) by (simp add: skim_hit_iff take_32 new_count_append)
    have cut: "new_count (map ?f cur) vir \<longleftrightarrow>
        new_count (map ?f (take 32 cur)) (take 32 vir) \<or> new_count (map ?f (drop 32 cur)) (drop 32 vir)"
      using new_count_append [of "map ?f (take 32 cur)" "take 32 vir" "map ?f (drop 32 cur)" "drop 32 vir"]
        len "1.prems"(1) by (simp flip: map_append)
    have IH: "\<not> (skim_hit vir cur 0 \<or> skim_hit vir cur 1 \<or> skim_hit vir cur 2 \<or> skim_hit vir cur 3) \<Longrightarrow>
        skim (drop 32 vir) (drop 32 cur) = (if new_count (map ?f (drop 32 cur)) (drop 32 vir) then 1 else 0)"
      using "1.IH" False "1.prems" len by (auto simp: dvd_diff_nat)
    show ?thesis
      using False IH cut hits by (subst skim.simps) auto
  qed
qed

lemma fsrv_wf_classify: "fsrv_wf f \<Longrightarrow> trace_bits (classify_counts f) = map count_class_lookup8 (trace_bits f)"
  unfolding fsrv_wf_def classify_counts_def
  by (subst classify_loop_eq) (auto simp: mult.commute [of 8] dvd_eq_mod_eq_0 [symmetric] elim!: dvdE)

lemma maps_wf_classify: "maps_wf a \<Longrightarrow> maps_wf (a\<lparr>fsrv := classify_counts (fsrv a)\<rparr>)"
  using fsrv_wf_classify [of "fsrv a"]
  by (auto simp: maps_wf_def fsrv_wf_def classify_counts_def)

lemma new_count_take: "new_count (take n cs) (take n vs) \<Longrightarrow> new_count cs vs"
  unfolding new_count_def take_zip [symmetric] using in_set_takeD by fast

lemma has_new_bits_unclassified_eq:
  assumes wf: "maps_wf a"
  defines "b \<equiv> a\<lparr>fsrv := classify_counts (fsrv a)\<rparr>"
  shows "fst (has_new_bits_unclassified a k c) = fst (has_new_bits b k)"
    and "fst (has_new_bits_unclassified a k c) \<noteq> 0 \<Longrightarrow>
         has_new_bits_unclassified a k c = (fst (has_new_bits b k), snd (has_new_bits b k), True)"
    and "fst (has_new_bits_unclassified a k c) = 0 \<Longrightarrow>
         virgin_of k (fst (snd (has_new_bits_unclassified a k c))) = virgin_of k a"
proof -
  let ?n = "8 * ((real_map_size (fsrv a) + 7) div 8)"
  have len: "length (trace a) = map_size (fsrv a)" "length (virgin_of k a) = map_size (fsrv a)"
    using maps_wf_length [OF wf] by auto
  have wfb: "maps_wf b" unfolding b_def using wf by (rule maps_wf_classify)
  have tb: "trace b = map count_class_lookup8 (trace a)" "virgin_of k b = virgin_of k a"
    "real_map_size (fsrv b) = real_map_size (fsrv a)"
    unfolding b_def using wf fsrv_wf_classify [of "fsrv a"]
    by (auto simp: maps_wf_def classify_counts_def virgin_of_def split: virgin_map.split)
  have "32 dvd map_size (fsrv a)" using wf by (rule maps_wf_words)
  then have skim: "skim (virgin_of k a) (take (map_size (fsrv a)) (trace a)) = 0 \<longleftrightarrow>
      \<not> new_count (trace b) (virgin_of k b)"
    using len by (simp add: skim_eq tb)
  have r: "fst (has_new_bits b k) = novelty (take ?n (trace b)) (take ?n (virgin_of k b))"
    using has_new_bits_eq(1) [OF wfb refl] tb(3) by simp
  have v: "virgin_of k (snd (has_new_bits b k)) =
      clear_seen (take ?n (virgin_of k b)) (take ?n (trace b)) @ drop ?n (virgin_of k b)"
    using has_new_bits_eq(2) [OF wfb refl] tb(3) by simp
  have zero: "fst (has_new_bits b k) = 0" if "\<not> new_count (trace b) (virgin_of k b)"
    using that new_count_take r novelty_eq_0_iff by metis
  then show "fst (has_new_bits_unclassified a k c) = fst (has_new_bits b k)"
    using skim by (auto simp: has_new_bits_unclassified_def b_def split: prod.split)
  show "fst (has_new_bits_unclassified a k c) \<noteq> 0 \<Longrightarrow>
      has_new_bits_unclassified a k c = (fst (has_new_bits b k), snd (has_new_bits b k), True)"
    by (auto simp: has_new_bits_unclassified_def b_def split: prod.split if_splits)
  show "fst (has_new_bits_unclassified a k c) = 0 \<Longrightarrow>
      virgin_of k (fst (snd (has_new_bits_unclassified a k c))) = virgin_of k a"
  proof (cases "skim (virgin_of k a) (take (map_size (fsrv a)) (trace a)) = 0")
    case False
    assume "fst (has_new_bits_unclassified a k c) = 0"
    with False have z: "fst (has_new_bits b k) = 0"
      by (auto simp: has_new_bits_unclassified_def b_def split: prod.splits)
    then have "clear_seen (take ?n (virgin_of k b)) (take ?n (trace b)) = take ?n (virgin_of k b)"
      using r novelty_eq_0_iff len tb by (intro clear_seen_id) auto
    then have "virgin_of k (snd (has_new_bits b k)) = virgin_of k a" using v tb by simp
    with False show ?thesis
      by (auto simp: has_new_bits_unclassified_def b_def split: prod.split)
  qed (simp add: has_new_bits_unclassified_def)
qed

lemma has_new_bits_unclassified_kept:
  assumes wf: "maps_wf a" and all: "map_size (fsrv a) = 8 * ((real_map_size (fsrv a) + 7) div 8)"
    and r: "fst (has_new_bits_unclassified a k c) = 0"
  shows "has_new_bits_unclassified a k c = (0, a, c)"
proof (rule ccontr)
  let ?b = "a\<lparr>fsrv := classify_counts (fsrv a)\<rparr>"
  assume "has_new_bits_unclassified a k c \<noteq> (0, a, c)"
  then have s: "skim (virgin_of k a) (take (map_size (fsrv a)) (trace a)) \<noteq> 0"
    by (intro notI) (simp add: has_new_bits_unclassified_def)
  have b: "trace ?b = map count_class_lookup8 (trace a)" "virgin_of k ?b = virgin_of k a"
    "real_map_size (fsrv ?b) = real_map_size (fsrv a)"
    using wf fsrv_wf_classify [of "fsrv a"]
    by (auto simp: maps_wf_def classify_counts_def virgin_of_def split: virgin_map.split)
  have len: "length (trace a) = map_size (fsrv a)" "length (virgin_of k a) = map_size (fsrv a)"
    using maps_wf_length [OF wf] by auto
  have "32 dvd map_size (fsrv a)" using wf by (rule maps_wf_words)
  then have "new_count (trace ?b) (virgin_of k ?b)"
    unfolding b using s len by (simp add: skim_eq split: if_splits)
  moreover have "fst (has_new_bits ?b k) = novelty (trace ?b) (virgin_of k ?b)"
    unfolding has_new_bits_eq(1) [OF maps_wf_classify [OF wf] refl] b using all len by simp
  ultimately have "fst (has_new_bits ?b k) \<noteq> 0" by (simp add: novelty_eq_0_iff)
  then show False using r has_new_bits_unclassified_eq(1) [OF wf] by simp
qed

section \<open>Counters and compaction\<close>

lemma bytes4_masks:
  "(0x000000ff :: u32) = le_word [0xff, 0, 0, 0]" "(0x0000ff00 :: u32) = le_word [0, 0xff, 0, 0]"
  "(0x00ff0000 :: u32) = le_word [0, 0, 0xff, 0]" "(0xff000000 :: u32) = le_word [0, 0, 0, 0xff]"
  "(0xffffffff :: u32) = le_word [0xff, 0xff, 0xff, 0xff]"
  by simp_all

lemma count_bytes_word:
  assumes "length bs = 4"
  defines "v \<equiv> le_word bs :: u32"
  shows "(if v = 0 then 0
     else (if v AND 0x000000ff \<noteq> 0 then 1 else 0) + (if v AND 0x0000ff00 \<noteq> 0 then 1 else 0)
        + (if v AND 0x00ff0000 \<noteq> 0 then 1 else 0) + (if v AND 0xff000000 \<noteq> 0 then 1 else 0)) =
     (word_of_nat (length (filter (\<lambda>b. b \<noteq> 0) bs)) :: u32)"
proof -
  obtain b0 b1 b2 b3 where bs: "bs = [b0, b1, b2, b3]" using assms(1) by (rule length_4_cases)
  have "v AND 0x000000ff \<noteq> 0 \<longleftrightarrow> b0 \<noteq> 0" "v AND 0x0000ff00 \<noteq> 0 \<longleftrightarrow> b1 \<noteq> 0"
    "v AND 0x00ff0000 \<noteq> 0 \<longleftrightarrow> b2 \<noteq> 0" "v AND 0xff000000 \<noteq> 0 \<longleftrightarrow> b3 \<noteq> 0"
    unfolding v_def bs bytes4_masks by (simp_all add: le_word_and le_word_eq_0_iff del: le_word.simps)
  moreover have "v = 0 \<longleftrightarrow> (b0 = 0 \<and> b1 = 0 \<and> b2 = 0 \<and> b3 = 0)"
    unfolding v_def bs by (simp add: le_word_eq_0_iff del: le_word.simps)
  ultimately show ?thesis by (simp add: bs)
qed

lemma count_non_255_word:
  assumes "length bs = 4"
  defines "v \<equiv> le_word bs :: u32"
  shows "(if v = 0xffffffff then 0
     else (if v AND 0x000000ff \<noteq> 0x000000ff then 1 else 0) + (if v AND 0x0000ff00 \<noteq> 0x0000ff00 then 1 else 0)
        + (if v AND 0x00ff0000 \<noteq> 0x00ff0000 then 1 else 0) + (if v AND 0xff000000 \<noteq> 0xff000000 then 1 else 0)) =
     (word_of_nat (length (filter (\<lambda>b. b \<noteq> 0xff) bs)) :: u32)"
proof -
  obtain b0 b1 b2 b3 where bs: "bs = [b0, b1, b2, b3]" using assms(1) by (rule length_4_cases)
  have "v AND 0x000000ff \<noteq> 0x000000ff \<longleftrightarrow> b0 \<noteq> 0xff" "v AND 0x0000ff00 \<noteq> 0x0000ff00 \<longleftrightarrow> b1 \<noteq> 0xff"
    "v AND 0x00ff0000 \<noteq> 0x00ff0000 \<longleftrightarrow> b2 \<noteq> 0xff" "v AND 0xff000000 \<noteq> 0xff000000 \<longleftrightarrow> b3 \<noteq> 0xff"
    unfolding v_def bs bytes4_masks by (simp_all add: le_word_and le_word_eq_iff del: le_word.simps)
  moreover have "v = 0xffffffff \<longleftrightarrow> (b0 = 0xff \<and> b1 = 0xff \<and> b2 = 0xff \<and> b3 = 0xff)"
    unfolding v_def bs bytes4_masks by (simp add: le_word_eq_iff del: le_word.simps)
  ultimately show ?thesis by (simp add: bs)
qed

lemma count_bytes_loop_eq:
  "4 * n \<le> length mem \<Longrightarrow>
   count_bytes_loop n mem ret = ret + word_of_nat (length (filter (\<lambda>b. b \<noteq> 0) (take (4 * n) mem)))"
proof (induction n arbitrary: mem ret)
  case (Suc n)
  have "length (take 4 mem) = 4" using Suc.prems by simp
  note word = count_bytes_word [OF this]
  have "take (4 + 4 * n) mem = take 4 mem @ take (4 * n) (drop 4 mem)" by (simp add: take_add)
  with Suc word show ?case by (simp add: Let_def split: if_splits)
qed simp

lemma count_non_255_loop_eq:
  "4 * n \<le> length mem \<Longrightarrow>
   count_non_255_loop n mem ret = ret + word_of_nat (length (filter (\<lambda>b. b \<noteq> 0xff) (take (4 * n) mem)))"
proof (induction n arbitrary: mem ret)
  case (Suc n)
  have "length (take 4 mem) = 4" using Suc.prems by simp
  note word = count_non_255_word [OF this]
  have "take (4 + 4 * n) mem = take 4 mem @ take (4 * n) (drop 4 mem)" by (simp add: take_add)
  with Suc word show ?case by (simp add: Let_def split: if_splits)
qed simp

lemma length_minimize_loop [simp]: "length (minimize_loop n i dst src) = length dst"
  by (induction n i dst src rule: minimize_loop.induct) auto

lemma minimize_loop_bit:
  "n \<le> length src \<Longrightarrow> i + n \<le> 8 * length dst \<Longrightarrow> j < 8 * length dst \<Longrightarrow>
   bit (minimize_loop n i dst src ! (j div 8)) (j mod 8) \<longleftrightarrow>
   bit (dst ! (j div 8)) (j mod 8) \<or> i \<le> j \<and> j < i + n \<and> src ! (j - i) \<noteq> 0"
proof (induction n arbitrary: i dst src)
  case 0
  then show ?case by auto
next
  case (Suc n)
  obtain s ss where src: "src = s # ss" using Suc.prems(1) by (cases src) auto
  define dst' where "dst' = (if s \<noteq> 0 then dst[i div 8 := dst ! (i div 8) OR push_bit (i mod 8) 1] else dst)"
  have i: "i div 8 < length dst" using Suc.prems(2) by linarith
  have "j div 8 = i div 8 \<Longrightarrow> j mod 8 = i mod 8 \<Longrightarrow> j = i" by (metis div_mult_mod_eq)
  then have b: "bit (dst' ! (j div 8)) (j mod 8) \<longleftrightarrow> bit (dst ! (j div 8)) (j mod 8) \<or> j = i \<and> s \<noteq> 0"
    using i by (auto simp: dst'_def nth_list_update bit_simps)
  have "bit (minimize_loop n (Suc i) dst' ss ! (j div 8)) (j mod 8) \<longleftrightarrow>
      bit (dst' ! (j div 8)) (j mod 8) \<or> Suc i \<le> j \<and> j < Suc i + n \<and> ss ! (j - Suc i) \<noteq> 0"
    by (rule Suc.IH) (use Suc.prems src in \<open>auto simp: dst'_def\<close>)
  then show ?case
    using b by (cases "j = i") (auto simp: src dst'_def nth_Cons')
qed

definition virgin_left :: "buf \<Rightarrow> nat" where
  "virgin_left vs = sum_list (map popcount vs)"

lemma virgin_left_append [simp]: "virgin_left (vs @ ws) = virgin_left vs + virgin_left ws"
  by (simp add: virgin_left_def)

lemma virgin_left_clear_le:
  "length cs = length vs \<Longrightarrow> virgin_left (clear_seen vs cs) \<le> virgin_left vs"
  by (induction cs vs rule: list_induct2) (auto simp: virgin_left_def clear_seen_def intro!: add_mono popcount_and_not_le)

lemma virgin_left_clear_less:
  "length cs = length vs \<Longrightarrow> new_count cs vs \<Longrightarrow> virgin_left (clear_seen vs cs) < virgin_left vs"
proof (induction cs vs rule: list_induct2)
  case (Cons c cs v vs)
  have le: "virgin_left (clear_seen vs cs) \<le> virgin_left vs" using Cons.hyps by (rule virgin_left_clear_le)
  consider "c AND v \<noteq> 0" | "new_count cs vs" using Cons.prems by (auto simp: new_count_def)
  then show ?case
  proof cases
    case 1
    then have "popcount (v AND NOT c) < popcount v" by (rule popcount_and_not_less)
    with le show ?thesis by (simp add: virgin_left_def clear_seen_def)
  next
    case 2
    with Cons.IH have "virgin_left (clear_seen vs cs) < virgin_left vs" .
    moreover have "popcount (v AND NOT c) \<le> popcount v" by (rule popcount_and_not_le)
    ultimately show ?thesis by (simp add: virgin_left_def clear_seen_def)
  qed
qed (simp add: new_count_def)

lemma count_bits_loop_eq:
  "4 * n \<le> length mem \<Longrightarrow> count_bits_loop n mem ret = ret + word_of_nat (virgin_left (take (4 * n) mem))"
proof (induction n arbitrary: mem ret)
  case 0
  then show ?case by (simp add: virgin_left_def)
next
  case (Suc n)
  let ?v = "le_word (take 4 mem) :: u32"
  have "length (take 4 mem) = 4" using Suc.prems by simp
  then have word: "popcount ?v = virgin_left (take 4 mem)"
    unfolding virgin_left_def by (rule popcount_le_word)
  have all: "popcount (0xffffffff :: u32) = 32" by code_simp
  have "(if ?v = 0xffffffff then ret + 32 else ret + word_of_nat (popcount ?v)) = ret + word_of_nat (virgin_left (take 4 mem))"
    using word all by auto
  moreover have "take (4 + 4 * n) mem = take 4 mem @ take (4 * n) (drop 4 mem)" by (simp add: take_add)
  ultimately show ?case using Suc by (simp add: Let_def)
qed

lemma maps_wf_words4:
  assumes "maps_wf a"
  shows "4 * ((real_map_size (fsrv a) + 3) div 4) \<le> map_size (fsrv a)"
proof -
  obtain q where q: "map_size (fsrv a) = 64 * q"
    using assms by (auto simp: maps_wf_def fsrv_wf_def dvd_eq_mod_eq_0 [symmetric] elim: dvdE)
  have "(real_map_size (fsrv a) + 3) div 4 < 16 * q + 1"
    using assms q by (intro less_mult_imp_div_less) (auto simp: maps_wf_def fsrv_wf_def)
  then show ?thesis using q by linarith
qed

lemma maps_wf_set_virgin:
  "maps_wf a \<Longrightarrow> length v = map_size (fsrv a) \<Longrightarrow> maps_wf (set_virgin k v a)"
  by (cases k) (simp_all add: maps_wf_def set_virgin_def)

lemma maps_wf_bitmap_changed [simp]: "maps_wf (a\<lparr>bitmap_changed := b\<rparr>) = maps_wf a"
  by (simp add: maps_wf_def)

lemma maps_wf_set_trace:
  "maps_wf a \<Longrightarrow> length t = map_size (fsrv a) \<Longrightarrow> maps_wf (set_trace t a)"
  by (simp add: maps_wf_def fsrv_wf_def)

lemma has_new_bits_maps_wf: "maps_wf a \<Longrightarrow> maps_wf (snd (has_new_bits a k))"
proof -
  assume wf: "maps_wf a"
  let ?n = "8 * ((real_map_size (fsrv a) + 7) div 8)"
  have "?n \<le> map_size (fsrv a)" using wf by (rule maps_wf_words)
  then have "length (snd (has_new_bits_loop ((real_map_size (fsrv a) + 7) div 8) 0 (trace a) (virgin_of k a))) =
      map_size (fsrv a)"
    using maps_wf_length [OF wf] by (subst has_new_bits_loop_eq) (auto simp: min_def)
  then show ?thesis
    using wf maps_wf_set_virgin by (auto simp: has_new_bits_def Let_def split: prod.split)
qed

lemma virgin_left_le: "virgin_left vs \<le> 8 * length vs"
proof (induction vs)
  case (Cons v vs)
  have "card {i. bit v i} \<le> card {..<8::nat}" by (rule card_mono) (auto dest: bit_imp_le_length)
  with Cons show ?case by (simp add: virgin_left_def popcount_card)
qed (simp add: virgin_left_def)

lemma has_new_bits_left:
  fixes k :: virgin_map
  assumes wf: "maps_wf a"
  defines "left \<equiv> \<lambda>b. virgin_left (virgin_of k b)"
  shows "left (snd (has_new_bits a k)) \<le> left a"
    and "fst (has_new_bits a k) \<noteq> 0 \<Longrightarrow> left (snd (has_new_bits a k)) < left a"
proof -
  let ?n = "8 * ((real_map_size (fsrv a) + 7) div 8)"
  let ?cs = "take ?n (trace a)" and ?vs = "take ?n (virgin_of k a)"
  have l: "length ?cs = length ?vs" using maps_wf_length [OF wf] by simp
  have split: "left a = virgin_left ?vs + virgin_left (drop ?n (virgin_of k a))"
    unfolding left_def by (simp flip: virgin_left_append)
  note eq = has_new_bits_eq(1,2) [OF wf refl, of k]
  show "left (snd (has_new_bits a k)) \<le> left a"
    unfolding split unfolding left_def eq using virgin_left_clear_le [OF l] by simp
  show "left (snd (has_new_bits a k)) < left a" if "fst (has_new_bits a k) \<noteq> 0"
    unfolding split unfolding left_def eq
    using virgin_left_clear_less [OF l] that novelty_eq_0_iff by (simp add: eq)
qed

lemma has_new_bits_settled:
  assumes wf: "maps_wf a"
  shows "fst (has_new_bits (snd (has_new_bits a k)) k) = 0"
proof -
  let ?a = "snd (has_new_bits a k)"
  let ?n = "8 * ((real_map_size (fsrv a) + 7) div 8)"
  have n: "?n \<le> map_size (fsrv a)" using wf by (rule maps_wf_words)
  have l: "length (take ?n (trace a)) = length (take ?n (virgin_of k a))"
    using maps_wf_length [OF wf] by simp
  have f: "fsrv ?a = fsrv a" by (rule has_new_bits_eq(3) [OF wf refl])
  have v: "take ?n (virgin_of k ?a) = clear_seen (take ?n (virgin_of k a)) (take ?n (trace a))"
    using has_new_bits_eq(2) [OF wf refl, of k] n maps_wf_length [OF wf] by simp
  have "fst (has_new_bits ?a k) = novelty (take ?n (trace a)) (take ?n (virgin_of k ?a))"
    using has_new_bits_eq(1) [OF has_new_bits_maps_wf [OF wf] refl, of k k] f by simp
  then show ?thesis using l by (simp add: v novelty_clear_seen)
qed

section \<open>The contract of a novelty detector\<close>

text \<open>
  What the fuzzing loop relies on: observing a trace never hands back virgin territory, a novel
  observation consumes some of it, and a trace is novel at most once. \<open>observe_all\<close> is the loop
  over the traces of a session.
\<close>

fun observe_all :: "('s \<Rightarrow> 't \<Rightarrow> nat \<times> 's) \<Rightarrow> 's \<Rightarrow> 't list \<Rightarrow> nat list \<times> 's" where
  "observe_all observe s [] = ([], s)"
| "observe_all observe s (t # ts) =
     (let (r, s') = observe s t; (rs, s'') = observe_all observe s' ts in (r # rs, s''))"

locale novelty_detector =
  fixes observe :: "'s \<Rightarrow> 't \<Rightarrow> nat \<times> 's"
    and invar :: "'s \<Rightarrow> bool"
    and valid :: "'s \<Rightarrow> 't \<Rightarrow> bool"
    and left :: "'s \<Rightarrow> nat"
  assumes invar_observe: "invar s \<Longrightarrow> valid s t \<Longrightarrow> invar (snd (observe s t))"
    and valid_observe: "invar s \<Longrightarrow> valid s t \<Longrightarrow> valid s u \<Longrightarrow> valid (snd (observe s t)) u"
    and left_dull: "invar s \<Longrightarrow> valid s t \<Longrightarrow> left (snd (observe s t)) \<le> left s"
    and left_novel: "invar s \<Longrightarrow> valid s t \<Longrightarrow> fst (observe s t) \<noteq> 0 \<Longrightarrow> left (snd (observe s t)) < left s"
    and observe_again: "invar s \<Longrightarrow> valid s t \<Longrightarrow> fst (observe (snd (observe s t)) t) = 0"
begin

lemma finds_bounded:
  "invar s \<Longrightarrow> \<forall>t\<in>set ts. valid s t \<Longrightarrow>
   length (filter (\<lambda>r. r \<noteq> 0) (fst (observe_all observe s ts))) + left (snd (observe_all observe s ts)) \<le> left s"
proof (induction ts arbitrary: s)
  case (Cons t ts)
  let ?s = "snd (observe s t)"
  have v: "valid s t" using Cons.prems by simp
  have "invar ?s" "\<forall>u\<in>set ts. valid ?s u"
    using Cons.prems invar_observe valid_observe by auto
  then have IH: "length (filter (\<lambda>r. r \<noteq> 0) (fst (observe_all observe ?s ts))) +
      left (snd (observe_all observe ?s ts)) \<le> left ?s"
    by (rule Cons.IH)
  show ?case
    using IH left_dull [OF Cons.prems(1) v] left_novel [OF Cons.prems(1) v]
    by (auto split: prod.splits)
qed simp

lemma duplicate_dull:
  "invar s \<Longrightarrow> valid s t \<Longrightarrow> fst (observe_all observe s [t, t]) = [fst (observe s t), 0]"
  using observe_again [of s t] by (auto split: prod.split)

end

interpretation cov: novelty_detector "\<lambda>a t. has_new_bits (set_trace t a) k" maps_wf
  "\<lambda>a t. length t = map_size (fsrv a)" "\<lambda>a. virgin_left (virgin_of k a)" for k
proof unfold_locales
  fix s :: afl_state and t u :: buf
  assume wf: "maps_wf s" and t: "length t = map_size (fsrv s)"
  let ?a = "set_trace t s"
  have wft: "maps_wf ?a" using wf t by (rule maps_wf_set_trace)
  have f: "fsrv (snd (has_new_bits ?a k)) = fsrv ?a" by (rule has_new_bits_eq(3) [OF wft refl])
  show "maps_wf (snd (has_new_bits ?a k))" using wft by (rule has_new_bits_maps_wf)
  show "length u = map_size (fsrv (snd (has_new_bits ?a k)))" if "length u = map_size (fsrv s)"
    using that f by simp
  show "virgin_left (virgin_of k (snd (has_new_bits ?a k))) \<le> virgin_left (virgin_of k s)"
    using has_new_bits_left(1) [OF wft, of k] by simp
  show "virgin_left (virgin_of k (snd (has_new_bits ?a k))) < virgin_left (virgin_of k s)"
    if "fst (has_new_bits ?a k) \<noteq> 0"
    using has_new_bits_left(2) [OF wft, of k] that by simp
  have "set_trace t (snd (has_new_bits ?a k)) = snd (has_new_bits ?a k)" using f by simp
  then show "fst (has_new_bits (set_trace t (snd (has_new_bits ?a k))) k) = 0"
    using has_new_bits_settled [OF wft] by simp
qed

section \<open>Properties\<close>

text \<open>C1. The word-wise loop of \<open>has_new_bits\<close> computes exactly the bytewise comparison: it returns
  2 when some hit byte meets an untouched (0xff) virgin byte, 1 when only new hit-count bits are
  seen, 0 otherwise, clears the seen bits from the virgin map and from nothing else, and raises
  \<open>bitmap_changed\<close> only for the main virgin map.\<close>

theorem has_new_bits_refines:
  fixes a :: afl_state and k :: virgin_map
  assumes "maps_wf a" and "n = 8 * ((real_map_size (fsrv a) + 7) div 8)"
  shows "has_new_bits a k =
    (let cs = take n (trace a); vs = take n (virgin_of k a);
         a' = set_virgin k (clear_seen vs cs @ drop n (virgin_of k a)) a
     in (novelty cs vs,
         if novelty cs vs \<noteq> 0 \<and> k = VIRGIN_BITS then a'\<lparr>bitmap_changed := True\<rparr> else a'))"
proof -
  have "n \<le> map_size (fsrv a)" unfolding assms(2) using assms(1) by (rule maps_wf_words)
  then have "has_new_bits_loop ((real_map_size (fsrv a) + 7) div 8) 0 (trace a) (virgin_of k a) =
     (novelty (take n (trace a)) (take n (virgin_of k a)),
      clear_seen (take n (virgin_of k a)) (take n (trace a)) @ drop n (virgin_of k a))"
    unfolding assms(2) by (subst has_new_bits_loop_eq) (use maps_wf_length [OF assms(1)] assms(2) in auto)
  then show ?thesis by (simp add: has_new_bits_def Let_def)
qed

theorem has_new_bits_refines_witness:
  "fst (has_new_bits (set_trace (replicate 9 0 @ [4] @ replicate 54 0) (campaign_start 10)) VIRGIN_BITS) = 2"
proof -
  let ?a = "set_trace (replicate 9 0 @ [4] @ replicate 54 0) (campaign_start 10)"
  have wf: "maps_wf ?a" by (rule maps_wf_set_trace) simp_all
  have n: "16 = 8 * ((real_map_size (fsrv ?a) + 7) div 8)" by simp
  have "novelty (take 16 (trace ?a)) (take 16 (virgin_of VIRGIN_BITS ?a)) = 2"
    by (rule novelty_fresh [of 9]) (simp_all add: nth_append)
  then show ?thesis by (simp only: has_new_bits_refines [OF wf n] Let_def fst_conv)
qed

text \<open>C23. A run that was reported novel is dull the second time, whatever virgin map it was compared
  with, and the first comparison leaves the map sizes intact.\<close>

theorem has_new_bits_idempotent:
  assumes "maps_wf a"
  shows "maps_wf (snd (has_new_bits a k)) \<and> fst (has_new_bits (snd (has_new_bits a k)) k) = 0"
  using assms by (simp add: has_new_bits_maps_wf has_new_bits_settled)

theorem has_new_bits_idempotent_witness:
  "fst (has_new_bits (snd (has_new_bits (set_trace (replicate 64 1) (campaign_start 64)) VIRGIN_CRASH)) VIRGIN_CRASH) = 0"
proof -
  have "maps_wf (set_trace (replicate 64 1) (campaign_start 64))"
    by (rule maps_wf_set_trace) simp_all
  then show ?thesis by (rule has_new_bits_idempotent [THEN conjunct2])
qed

text \<open>C10. \<open>has_new_bits_unclassified\<close> is an optimisation of \<open>classify_counts\<close> followed by
  \<open>has_new_bits\<close>: it returns the same verdict; when the verdict is non-zero the resulting state is
  the same and the trace is marked classified; when it is zero the virgin map is untouched, and if
  the words compared reach the end of the map nothing changes at all, as the comment promises.\<close>

theorem has_new_bits_unclassified_equiv:
  assumes "maps_wf a"
  shows "let b = a\<lparr>fsrv := classify_counts (fsrv a)\<rparr>; (r, a', c') = has_new_bits_unclassified a k c
    in r = fst (has_new_bits b k) \<and>
       (r \<noteq> 0 \<longrightarrow> a' = snd (has_new_bits b k) \<and> c') \<and>
       (r = 0 \<longrightarrow> virgin_of k a' = virgin_of k a) \<and>
       (r = 0 \<and> map_size (fsrv a) = 8 * ((real_map_size (fsrv a) + 7) div 8) \<longrightarrow> a' = a \<and> c' = c)"
  using has_new_bits_unclassified_eq [OF assms, of k c] has_new_bits_unclassified_kept [OF assms, of k c]
  by (cases "has_new_bits_unclassified a k c") (auto simp: Let_def)

theorem has_new_bits_unclassified_equiv_witness:
  "fst (has_new_bits_unclassified (set_trace (5 # replicate 63 0) (campaign_start 64)) VIRGIN_BITS False) = 2"
proof -
  let ?a = "set_trace (5 # replicate 63 0) (campaign_start 64)"
  have wf: "maps_wf ?a" by (rule maps_wf_set_trace) simp_all
  have b: "?a\<lparr>fsrv := classify_counts (fsrv ?a)\<rparr> = set_trace (8 # replicate 63 0) (campaign_start 64)"
    using wf fsrv_wf_classify [of "fsrv ?a"]
    by (simp add: maps_wf_def classify_counts_def count_class_lookup8_def)
  have "fst (has_new_bits (set_trace (8 # replicate 63 0) (campaign_start 64)) VIRGIN_BITS) = 2"
    by (subst has_new_bits_eq(1) [OF maps_wf_set_trace refl])
       (simp_all, rule novelty_fresh [of 0], simp_all)
  then show ?thesis
    using has_new_bits_unclassified_equiv [OF wf, of VIRGIN_BITS False, unfolded b]
    by (auto simp: Let_def split: prod.splits)
qed

text \<open>C19. The number of novel traces of a whole session, and with it the number of entries the
  queue receives for coverage, is at most the number of bits still virgin, hence at most eight per
  map byte. This is the bound of the novelty-detector contract, met by \<open>has_new_bits\<close>.\<close>

theorem session_finds_bounded:
  assumes "maps_wf a" and "\<forall>t\<in>set ts. length t = map_size (fsrv a)"
  shows "length (filter (\<lambda>r. r \<noteq> 0) (fst (observe_all (\<lambda>b t. has_new_bits (set_trace t b) k) a ts)))
    \<le> 8 * map_size (fsrv a)"
proof -
  have "virgin_left (virgin_of k a) \<le> 8 * map_size (fsrv a)"
    using virgin_left_le [of "virgin_of k a"] maps_wf_length [OF assms(1)] by simp
  with cov.finds_bounded [OF assms, of k] show ?thesis by linarith
qed

theorem session_finds_bounded_witness:
  "length (filter (\<lambda>r. r \<noteq> 0) (fst (observe_all (\<lambda>b t. has_new_bits (set_trace t b) VIRGIN_TMOUT)
     (campaign_start 1) (replicate 1000 (1 # replicate 63 0))))) \<le> 512"
  using session_finds_bounded [of "campaign_start 1" "replicate 1000 (1 # replicate 63 0)" VIRGIN_TMOUT]
  by simp

text \<open>C28. \<open>classify_counts\<close> replaces every byte of the trace by its hit-count class, \<open>simplify_trace\<close>
  by 1 or 128; two traces that hit the same map bytes have the same simplified trace, and only
  those.\<close>

theorem classify_simplify_bytewise:
  assumes "fsrv_wf f" and "fsrv_wf (fsrv a)" and "length t = map_size (fsrv a)" and "length u = map_size (fsrv a)"
  shows "trace_bits (classify_counts f) = map count_class_lookup8 (trace_bits f) \<and>
    (simplify_trace a t = simplify_trace a u \<longleftrightarrow> (\<forall>i < map_size (fsrv a). t ! i = 0 \<longleftrightarrow> u ! i = 0))"
proof
  show "trace_bits (classify_counts f) = map count_class_lookup8 (trace_bits f)"
    using assms(1) by (rule fsrv_wf_classify)
  have m: "8 * (map_size (fsrv a) div 8) = map_size (fsrv a)"
    using assms(2) by (auto simp: fsrv_wf_def dvd_eq_mod_eq_0 [symmetric] elim!: dvdE)
  have s: "simplify_trace a x = map simplify_lookup x" if "length x = map_size (fsrv a)" for x
    using that by (simp add: simplify_trace_def simplify_loop_eq m)
  show "simplify_trace a t = simplify_trace a u \<longleftrightarrow> (\<forall>i < map_size (fsrv a). t ! i = 0 \<longleftrightarrow> u ! i = 0)"
    using assms(3,4) by (auto simp: s list_eq_iff_nth_eq simplify_lookup_def split: if_splits)
qed

theorem classify_simplify_bytewise_witness:
  "simplify_trace (campaign_start 64) (1 # replicate 63 0) =
   simplify_trace (campaign_start 64) (99 # replicate 63 0)"
proof -
  have "fsrv_wf (fsrv (campaign_start 64))" using maps_wf_init [of 64] by (simp only: maps_wf_def)
  from classify_simplify_bytewise [OF this this, of "1 # replicate 63 0" "99 # replicate 63 0"]
  show ?thesis by (auto simp: nth_Cons')
qed

text \<open>C34. The counters of the status screen are exact on the words they scan, for every map size
  \<open>get_map_size\<close> accepts, with one exception: \<open>count_bits\<close> is the number of set bits, but a map of
  \<open>2 ^ 29\<close> bytes with all bits set counts as 0 in 32 bits; \<open>count_bytes\<close> is the number of non-zero
  bytes, \<open>count_non_255_bytes\<close> the number of touched bytes.\<close>

theorem counters_exact:
  assumes "maps_wf a" and "length mem = map_size (fsrv a)" and "map_size (fsrv a) \<le> 2 ^ 29"
    and "n = 4 * ((real_map_size (fsrv a) + 3) div 4)" and "bits = (\<Sum>b\<leftarrow>take n mem. card {i. bit b i})"
  shows "count_bits a mem = (if bits = 2 ^ 32 then 0 else bits) \<and>
    count_bytes a mem = card {i. i < n \<and> mem ! i \<noteq> 0} \<and>
    count_non_255_bytes a mem = card {i. i < n \<and> mem ! i \<noteq> 0xff}"
proof -
  have n: "n \<le> length mem" using assms(1,2,4) maps_wf_words4 by simp
  have n29: "length mem \<le> 2 ^ 29" using assms(2,3) by simp
  have filt: "length (filter P (take n mem)) = card {i. i < n \<and> P (mem ! i)}" for P
    using n by (simp add: length_filter_conv_card min_def conj_commute cong: conj_cong)
  have small: "length (filter P (take n mem)) < 2 ^ 32" for P
    using length_filter_le [of P "take n mem"] n n29 by simp
  have bits: "virgin_left (take n mem) = bits"
    unfolding assms(5) virgin_left_def by (simp add: popcount_card [abs_def])
  have le: "bits \<le> 2 ^ 32" using virgin_left_le [of "take n mem"] bits n29 by simp
  have w: "n = 4 * scanned_words a"
    using assms(1,3,4) by (simp add: scanned_words_def maps_wf_def fsrv_wf_def)
  have "unat (word_of_nat bits :: u32) = (if bits = 2 ^ 32 then 0 else bits)"
    using le by (auto simp: unsigned_of_nat take_bit_nat_eq_self)
  moreover have "unat (word_of_nat (length (filter P (take n mem))) :: u32) = card {i. i < n \<and> P (mem ! i)}" for P
    using small [of P] filt [of P] by (simp add: unsigned_of_nat take_bit_nat_eq_self)
  ultimately show ?thesis
    unfolding count_bits_def count_bytes_def count_non_255_bytes_def
    using n bits by (simp add: count_bits_loop_eq count_bytes_loop_eq count_non_255_loop_eq w)
qed

theorem counters_exact_witness:
  "count_bytes (campaign_start 5) (replicate 6 7 @ replicate 58 0) = 6 \<and>
   count_bits (campaign_start 5) (replicate 6 7 @ replicate 58 0) = 18"
proof -
  have "{i. i < 8 \<and> (replicate 6 7 @ replicate 58 (0::u8)) ! i \<noteq> 0} = {..<6}"
    by (auto simp: nth_append)
  moreover have "(\<Sum>b\<leftarrow>take 8 (replicate 6 7 @ replicate 58 (0::u8)). card {i. bit b i}) = 18"
    unfolding popcount_card [symmetric] by code_simp
  ultimately show ?thesis
    using counters_exact [of "campaign_start 5" "replicate 6 7 @ replicate 58 0" 8, OF _ _ _ _ refl] by simp
qed

text \<open>C35. \<open>minimize_bits\<close> compacts a trace to one bit per byte: on a cleared destination of
  \<open>map_size / 8\<close> bytes, bit \<open>i\<close> of the result is set exactly when byte \<open>i\<close> of the trace is
  non-zero.\<close>

theorem minimize_bits_bit:
  assumes "fsrv_wf (fsrv a)" and "length src = map_size (fsrv a)" and "i < map_size (fsrv a)"
  shows "length (minimize_bits a (replicate (map_size (fsrv a) div 8) 0) src) = map_size (fsrv a) div 8 \<and>
    (bit (minimize_bits a (replicate (map_size (fsrv a) div 8) 0) src ! (i div 8)) (i mod 8) \<longleftrightarrow> src ! i \<noteq> 0)"
proof -
  have m: "8 * (map_size (fsrv a) div 8) = map_size (fsrv a)"
    using assms(1) by (auto simp: fsrv_wf_def dvd_eq_mod_eq_0 [symmetric] elim!: dvdE)
  then have "i div 8 < map_size (fsrv a) div 8" using assms(3) by linarith
  then show ?thesis
    using assms m by (simp add: minimize_bits_def minimize_loop_bit)
qed

theorem minimize_bits_bit_witness:
  "bit (minimize_bits (campaign_start 64) (replicate 8 0) (replicate 13 0 @ [3] @ replicate 50 0) ! 1) 5"
proof -
  have "fsrv_wf (fsrv (campaign_start 64))" using maps_wf_init [of 64] by (simp only: maps_wf_def)
  from minimize_bits_bit [OF this, of "replicate 13 0 @ [3] @ replicate 50 0" 13]
  show ?thesis by (simp add: nth_append)
qed

end
