(* ===== verification/Rng.thy ===== *)
theory Rng
  imports Prelude
begin

unbundle bit_operations_syntax

text \<open>
  Random numbers: \<open>src/afl-performance.c\<close> (the 64-bit \<open>romuDuoJr\<close> generator and its seeding)
  and the inline routines of \<open>include/afl-fuzz.h\<close> and \<open>include/alloc-inl.h\<close> that the fuzzer
  draws with (\<open>rand_below\<close>, \<open>rand_below_datalen\<close>, \<open>next_p2\<close>, \<open>next_pow2\<close>,
  \<open>bitmap_set\<close>, \<open>bitmap_read\<close>).

  Reading \<open>/dev/urandom\<close> is a parameter \<open>urandom\<close>: the three seed words the \<open>n\<close>-th read
  delivers. The hash of \<open>rand_set_seed\<close> (XXH3) is a parameter too. The rejection loop of
  \<open>rand_below\<close> has no bound in the code, so the model returns \<open>None\<close> where it would not end.
\<close>

section \<open>The generator\<close>

record rand_state =
  rand_seed0 :: u64
  rand_seed1 :: u64
  rand_seed2 :: u64
  rand_cnt :: u32
  init_seed :: u64
  rand_fixed :: bool
  urandom_reads :: nat

text \<open>\<open>hash64\<close> and \<open>hash32\<close> ignore their seed argument and return XXH3 of the bytes.\<close>

definition hash64 :: "(buf \<Rightarrow> u64) \<Rightarrow> buf \<Rightarrow> u64 \<Rightarrow> u64" where
  "hash64 xxh3 key seed = xxh3 key"

definition hash32 :: "(buf \<Rightarrow> u64) \<Rightarrow> buf \<Rightarrow> u32 \<Rightarrow> u32" where
  "hash32 xxh3 key seed = ucast (xxh3 key)"

definition HASH_CONST :: u64 where
  "HASH_CONST = 0xa5b35705"

definition rand_set_seed :: "(buf \<Rightarrow> u64) \<Rightarrow> u64 \<Rightarrow> rand_state \<Rightarrow> rand_state" where
  "rand_set_seed xxh3 seed s =
     (let s0 = hash64 xxh3 (le_bytes 8 seed) HASH_CONST;
          s1 = s0 XOR 0x1234567890abcdef;
          s2 = (s0 AND 0x1234567890abcdef) XOR (s1 OR 0xfedcba9876543210)
      in s\<lparr>init_seed := seed, rand_seed0 := s0, rand_seed1 := s1, rand_seed2 := s2\<rparr>)"

definition ROTL :: "u64 \<Rightarrow> nat \<Rightarrow> u64" where
  "ROTL d lrot = push_bit lrot d OR drop_bit (64 - lrot) d"

definition rand_next :: "rand_state \<Rightarrow> u64 \<times> rand_state" where
  "rand_next s =
     (let xp = rand_seed0 s;
          s = s\<lparr>rand_seed0 := 15241094284759029579 * rand_seed1 s\<rparr>;
          s = s\<lparr>rand_seed1 := rand_seed1 s - xp\<rparr>;
          s = s\<lparr>rand_seed1 := ROTL (rand_seed1 s) 27\<rparr>
      in (xp, s))"

section \<open>Bounded draws\<close>

text \<open>The reseeding guard: \<open>!rand_cnt--\<close> decrements the 32-bit counter, wrapping at zero.\<close>

definition rand_reseed :: "(nat \<Rightarrow> u64 \<times> u64 \<times> u64) \<Rightarrow> rand_state \<Rightarrow> rand_state" where
  "rand_reseed urandom s =
     (let zero = (rand_cnt s = 0); s = s\<lparr>rand_cnt := rand_cnt s - 1\<rparr>
      in if zero \<and> \<not> rand_fixed s
         then let (a, b, c) = urandom (urandom_reads s)
              in s\<lparr>rand_seed0 := a, rand_seed1 := b, rand_seed2 := c,
                   rand_cnt := 2500000 div 2 + ucast (b mod 2500000), urandom_reads := Suc (urandom_reads s)\<rparr>
         else s)"

text \<open>The first value that is no longer drawn uniformly: \<open>UINT64_MAX - (UINT64_MAX % limit)\<close>.\<close>

definition rand_limit :: "u32 \<Rightarrow> u64" where
  "rand_limit limit = - 1 - ((- 1) mod ucast limit)"

partial_function (option) rand_loop :: "u32 \<Rightarrow> rand_state \<Rightarrow> (u64 \<times> rand_state) option" where
  "rand_loop limit s =
     (let (x, s') = rand_next s in if rand_limit limit \<le> x then rand_loop limit s' else Some (x, s'))"

definition rand_below :: "(nat \<Rightarrow> u64 \<times> u64 \<times> u64) \<Rightarrow> u32 \<Rightarrow> rand_state \<Rightarrow> (u32 \<times> rand_state) option" where
  "rand_below urandom limit s =
     (if limit \<le> 1 then Some (0, s)
      else map_option (\<lambda>(x, s'). (ucast (x mod ucast limit), s')) (rand_loop limit (rand_reseed urandom s)))"

definition rand_below_datalen :: "(nat \<Rightarrow> u64 \<times> u64 \<times> u64) \<Rightarrow> u32 \<Rightarrow> rand_state \<Rightarrow> (u32 \<times> rand_state) option" where
  "rand_below_datalen urandom limit s =
     (if limit \<le> 1 then Some (0, s)
      else case rand_below urandom 3 s of
        None \<Rightarrow> None
      | Some (k, s) \<Rightarrow>
          (case rand_below urandom limit s of
             None \<Rightarrow> None
           | Some (x, s) \<Rightarrow>
               if k = 0 then Some (x, s)
               else case rand_below urandom (limit - 1) s of
                 None \<Rightarrow> None
               | Some (y, s) \<Rightarrow>
                   if k = 1 then Some (x mod (1 + y), s)
                   else case rand_below urandom (limit - 1) s of
                     None \<Rightarrow> None
                   | Some (z, s) \<Rightarrow> Some ((x mod (1 + y)) mod (1 + z), s)))"

section \<open>Powers of two and bitmaps\<close>

definition next_pow2 :: "u64 \<Rightarrow> u64" where
  "next_pow2 n =
     (let out = n - 1;
          out = out OR drop_bit 1 out;
          out = out OR drop_bit 2 out;
          out = out OR drop_bit 4 out;
          out = out OR drop_bit 8 out;
          out = out OR drop_bit 16 out
      in out + 1)"

text \<open>\<open>next_p2\<close>: doubles until the value is reached; on 64 bits the loop ends for values up to
  \<open>2 ^ 63\<close> (the assumption its comment states) and would shift to zero and spin beyond.\<close>

partial_function (option) next_p2_loop :: "u64 \<Rightarrow> u64 \<Rightarrow> u64 option" where
  "next_p2_loop val ret = (if ret < val then next_p2_loop val (push_bit 1 ret) else Some ret)"

definition next_p2 :: "u64 \<Rightarrow> u64 option" where
  "next_p2 val = next_p2_loop val 1"

definition bitmap_set :: "buf \<Rightarrow> nat \<Rightarrow> buf" where
  "bitmap_set mp index = mp[index div 8 := (mp ! (index div 8)) OR push_bit (index mod 8) 1]"

definition bitmap_read :: "buf \<Rightarrow> nat \<Rightarrow> u8" where
  "bitmap_read mp index = drop_bit (index mod 8) (mp ! (index div 8)) AND 1"

section \<open>Laws\<close>

text \<open>The inverse of the state map, and the state after \<open>n\<close> draws.\<close>

definition rand_prev :: "rand_state \<Rightarrow> rand_state" where
  "rand_prev s =
     (let y = 4888251478366616163 * rand_seed0 s in s\<lparr>rand_seed0 := y - ROTL (rand_seed1 s) 37, rand_seed1 := y\<rparr>)"

fun draws :: "nat \<Rightarrow> rand_state \<Rightarrow> rand_state" where
  "draws 0 s = s" | "draws (Suc n) s = draws n (snd (rand_next s))"

lemma bit_ROTL:
  assumes "0 < k" "k < 64"
  shows "bit (ROTL d k) n \<longleftrightarrow> n < 64 \<and> bit d (if n < k then 64 - k + n else n - k)"
  using assms by (auto simp: ROTL_def bit_simps dest: bit_imp_le_length)

lemma ROTL_ROTL:
  assumes "0 < k" "k < 64"
  shows "ROTL (ROTL d k) (64 - k) = d"
  by (rule bit_word_eqI) (use assms in \<open>auto simp: bit_ROTL split: if_splits\<close>)

lemma mult_inverse64: "(4888251478366616163 :: u64) * 15241094284759029579 = 1"
  by simp

lemma rand_prev_next: "rand_prev (snd (rand_next s)) = s"
proof -
  have "4888251478366616163 * (15241094284759029579 * x) = x" for x :: u64
    unfolding mult.assoc [symmetric] mult_inverse64 by simp
  then show ?thesis
    using ROTL_ROTL [of 27] by (simp add: rand_prev_def rand_next_def Let_def)
qed

lemma rand_limit_nat:
  assumes "0 < limit"
  shows "unat (rand_limit limit) = (2 ^ 64 - 1) div unat limit * unat limit"
proof -
  let ?m = "2 ^ 64 - 1 :: nat"
  have m1: "unat (- 1 :: u64) = ?m" by (simp add: unsigned_minus_1_eq_mask mask_eq_exp_minus_1)
  have l: "unat (ucast limit :: u64) = unat limit" by (simp add: unsigned_ucast_eq take_bit_nat_eq_self_iff) (rule less_trans [OF unsigned_less], simp)
  have mm: "unat ((- 1 :: u64) mod ucast limit) = ?m mod unat limit"
    by (simp add: unat_mod m1 l)
  have "(- 1 :: u64) mod ucast limit \<le> - 1" by simp
  then have "unat (rand_limit limit) = ?m - ?m mod unat limit"
    unfolding rand_limit_def by (subst unat_sub) (simp_all add: mm m1)
  then show ?thesis by (simp only: minus_mod_eq_div_mult)
qed

lemma rand_loop_stops:
  assumes "fst (rand_next (draws n s)) < rand_limit limit"
  shows "\<exists>k \<le> n. rand_loop limit s = Some (rand_next (draws k s)) \<and> fst (rand_next (draws k s)) < rand_limit limit
    \<and> (\<forall>j < k. rand_limit limit \<le> fst (rand_next (draws j s)))"
  using assms
proof (induction n arbitrary: s)
  case 0
  then show ?case by (subst rand_loop.simps) (auto split: prod.split)
next
  case (Suc n)
  show ?case
  proof (cases "rand_limit limit \<le> fst (rand_next s)")
    case True
    have "fst (rand_next (draws n (snd (rand_next s)))) < rand_limit limit" using Suc.prems by simp
    from Suc.IH [OF this] obtain k where k: "k \<le> n"
      "rand_loop limit (snd (rand_next s)) = Some (rand_next (draws k (snd (rand_next s))))"
      "fst (rand_next (draws k (snd (rand_next s)))) < rand_limit limit"
      "\<forall>j < k. rand_limit limit \<le> fst (rand_next (draws j (snd (rand_next s))))" by blast
    have "rand_loop limit s = rand_loop limit (snd (rand_next s))"
      using True by (subst rand_loop.simps) (auto split: prod.split)
    then show ?thesis
      using k True by (intro exI [of _ "Suc k"]) (auto simp: less_Suc_eq_0_disj)
  next
    case False
    then have "rand_loop limit s = Some (rand_next s)"
      by (subst rand_loop.simps) (auto split: prod.split)
    with False show ?thesis by (intro exI [of _ 0]) auto
  qed
qed

lemma residues_card:
  assumes "0 < l" "r < l"
  shows "card {x::nat. x < q * l \<and> x mod l = r} = q"
proof -
  have "{x::nat. x < q * l \<and> x mod l = r} = (\<lambda>k. k * l + r) ` {..<q}"
  proof (intro equalityI subsetI)
    fix x assume "x \<in> {x. x < q * l \<and> x mod l = r}"
    then have "x = (x div l) * l + r" "x div l < q" using assms by (auto simp: less_mult_imp_div_less)
    then show "x \<in> (\<lambda>k. k * l + r) ` {..<q}" by blast
  next
    fix x assume "x \<in> (\<lambda>k. k * l + r) ` {..<q}"
    then obtain k where k: "x = k * l + r" "k < q" by blast
    have "k * l + r < Suc k * l" using assms by simp
    also have "\<dots> \<le> q * l" using k by (intro mult_le_mono1) simp
    finally show "x \<in> {x. x < q * l \<and> x mod l = r}" using k assms by simp
  qed
  moreover have "inj_on (\<lambda>k. k * l + r) {..<q}" using assms by (auto simp: inj_on_def)
  ultimately show ?thesis by (simp add: card_image)
qed

lemma smear_step:
  fixes y x :: u64
  assumes "\<And>j. bit y j \<longleftrightarrow> (\<exists>m. j \<le> m \<and> m < j + s \<and> bit x m)"
  shows "bit (y OR drop_bit s y) j \<longleftrightarrow> (\<exists>m. j \<le> m \<and> m < j + 2 * s \<and> bit x m)"
proof -
  have "bit (y OR drop_bit s y) j \<longleftrightarrow>
      (\<exists>m. j \<le> m \<and> m < j + s \<and> bit x m) \<or> (\<exists>m. s + j \<le> m \<and> m < s + j + s \<and> bit x m)"
    by (simp add: bit_simps assms)
  also have "\<dots> \<longleftrightarrow> (\<exists>m. j \<le> m \<and> m < j + 2 * s \<and> bit x m)"
  proof -
    have "(j \<le> m \<and> m < j + s \<or> s + j \<le> m \<and> m < s + j + s) = (j \<le> m \<and> m < j + 2 * s)" for m
      by linarith
    then show ?thesis by metis
  qed
  finally show ?thesis .
qed

lemma next_pow2_smear:
  "\<exists>y. next_pow2 n = y + 1 \<and> (\<forall>j. bit y j \<longleftrightarrow> (\<exists>m. j \<le> m \<and> m < j + 32 \<and> bit (n - 1) m))"
proof -
  let ?x = "n - 1"
  define y1 where "y1 = ?x OR drop_bit 1 ?x"
  define y2 where "y2 = y1 OR drop_bit 2 y1"
  define y3 where "y3 = y2 OR drop_bit 4 y2"
  define y4 where "y4 = y3 OR drop_bit 8 y3"
  define y5 where "y5 = y4 OR drop_bit 16 y4"
  have 0: "bit ?x j \<longleftrightarrow> (\<exists>m. j \<le> m \<and> m < j + 1 \<and> bit ?x m)" for j
    by (auto simp: less_Suc_eq_le dest: le_antisym)
  note 1 = smear_step [of ?x 1 ?x, OF 0, folded y1_def, simplified mult_1_right]
  note 2 = smear_step [of y1 2 ?x, OF 1, folded y2_def, simplified]
  note 3 = smear_step [of y2 4 ?x, OF 2, folded y3_def, simplified]
  note 4 = smear_step [of y3 8 ?x, OF 3, folded y4_def, simplified]
  note 5 = smear_step [of y4 16 ?x, OF 4, folded y5_def, simplified]
  have "next_pow2 n = y5 + 1"
    by (simp add: next_pow2_def Let_def y1_def y2_def y3_def y4_def y5_def)
  with 5 show ?thesis by blast
qed

lemma bit_imp_exp_le_unat: "bit w k \<Longrightarrow> 2 ^ k \<le> unat w"
proof -
  assume "bit w k"
  then have "odd (unat w div 2 ^ k)" by (simp add: bit_unsigned_iff flip: bit_iff_odd)
  then show ?thesis by (metis div_less even_zero not_less)
qed

lemma unat_exp64:
  assumes "j \<le> 32"
  shows "unat (2 ^ j :: u64) = 2 ^ j"
proof -
  have "(2::nat) ^ j < 2 ^ 64" using assms by (intro power_strict_increasing) auto
  then have "unat (word_of_nat (2 ^ j) :: u64) = 2 ^ j" by (simp add: unat_of_nat del: of_nat_power)
  then show ?thesis by simp
qed

lemma next_pow2_correct:
  fixes n :: u64
  assumes "0 < n" "n \<le> 2 ^ 32"
  obtains k where "k \<le> 32" "next_pow2 n = 2 ^ k" "n \<le> 2 ^ k" "\<And>j. j < k \<Longrightarrow> 2 ^ j < n"
proof (cases "n = 1")
  case True
  have "next_pow2 1 = 2 ^ 0" by (simp add: next_pow2_def)
  with True that [of 0] show ?thesis by simp
next
  case False
  let ?x = "n - 1"
  obtain y where y: "next_pow2 n = y + 1" "\<And>j. bit y j \<longleftrightarrow> (\<exists>m. j \<le> m \<and> m < j + 32 \<and> bit ?x m)"
    using next_pow2_smear [of n] by blast
  have x0: "?x \<noteq> 0" using False by simp
  have n0: "unat n > 0" using assms(1) by (simp add: unat_gt_0)
  have ux: "unat ?x = unat n - 1" using assms(1) by (simp add: unat_minus_one)
  have un: "unat n \<le> 2 ^ 32" using assms(2) by (simp add: word_le_nat_alt)
  have hi: "m < 32" if "bit ?x m" for m
  proof -
    have "(2::nat) ^ m < 2 ^ 32" using bit_imp_exp_le_unat [OF that] ux un n0 by linarith
    then show ?thesis by (rule power_less_imp_less_exp [rotated]) simp
  qed
  define k where "k = Max {m. bit ?x m}"
  have ne: "{m. bit ?x m} \<noteq> {}" using x0 by (auto simp: bit_eq_iff)
  have k: "bit ?x k" "\<And>m. bit ?x m \<Longrightarrow> m \<le> k"
    unfolding k_def using Max_in [OF finite_bits ne] by auto
  have k32: "k < 32" using hi k(1) .
  have "y = mask (Suc k)"
    by (rule bit_word_eqI) (use k k32 in \<open>fastforce simp: y(2) bit_simps less_Suc_eq_le\<close>)
  then have r: "next_pow2 n = 2 ^ Suc k" using y(1) by (simp add: mask_eq_exp_minus_1)
  have ge: "2 ^ k \<le> unat ?x" using k(1) by (rule bit_imp_exp_le_unat)
  have "take_bit (Suc k) ?x = ?x"
    by (rule bit_word_eqI) (use k(2) in \<open>auto simp: bit_take_bit_iff less_Suc_eq_le\<close>)
  then have "take_bit (Suc k) (unat ?x) = unat ?x" by (metis unsigned_take_bit_eq)
  then have le: "unat ?x < 2 ^ Suc k" by (simp add: take_bit_nat_eq_self_iff)
  note p = unat_exp64
  show ?thesis
  proof (rule that [of "Suc k"])
    show "n \<le> 2 ^ Suc k" using le ux n0 p [of "Suc k"] k32 by (simp add: word_le_nat_alt del: power_Suc)
    show "2 ^ j < n" if "j < Suc k" for j
    proof -
      have "(2::nat) ^ j \<le> 2 ^ k" using that by (intro power_increasing) simp_all
      then have "2 ^ j < unat n" using ge ux n0 by linarith
      then show ?thesis using p [of j] that k32 by (simp add: word_less_nat_alt)
    qed
  qed (use r k32 in auto)
qed

lemma unat_ucast_u32 [simp]: "unat (ucast (x :: u32) :: u64) = unat x"
  by (simp add: unsigned_ucast_eq take_bit_nat_eq_self_iff) (rule less_trans [OF unsigned_less], simp)

lemma unat_ucast_mod:
  assumes "0 < (limit :: u32)"
  shows "unat (ucast ((x :: u64) mod ucast limit) :: u32) = unat x mod unat limit"
proof -
  have "unat x mod unat limit < unat limit" using assms by (simp add: unat_gt_0)
  then have "unat x mod unat limit < 2 ^ 32"
    by (rule less_trans) (use unsigned_less [of limit, where 'a = nat] in simp)
  then show ?thesis by (simp add: unsigned_ucast_eq unat_mod take_bit_nat_eq_self)
qed

lemma card_word_pred: "card {x :: 'a::len word. P (unat x)} = card {n. n < 2 ^ LENGTH('a) \<and> P n}"
proof (rule bij_betw_same_card [of unat])
  show "bij_betw unat {x :: 'a word. P (unat x)} {n. n < 2 ^ LENGTH('a) \<and> P n}"
  proof (rule bij_betw_byWitness [where f' = word_of_nat])
    show "\<forall>n \<in> {n. n < 2 ^ LENGTH('a) \<and> P n}. unat (word_of_nat n :: 'a word) = n"
      by (simp add: unat_of_nat take_bit_nat_eq_self)
    then show "word_of_nat ` {n. n < 2 ^ LENGTH('a) \<and> P n} \<subseteq> {x :: 'a word. P (unat x)}" by auto
  qed (auto intro: unsigned_less)
qed

lemma rand_below_less:
  assumes "rand_below urandom limit s = Some (r, s')"
  shows "unat r < max 1 (unat limit)"
proof (cases "limit \<le> 1")
  case True
  then show ?thesis using assms by (auto simp: rand_below_def)
next
  case False
  then have l: "0 < limit" by (meson linorder_not_less word_coorder.extremum_strict word_coorder.not_eq_extremum word_le_0_iff word_zero_le order_le_less_trans)
  obtain x :: u64 where "r = ucast (x mod ucast limit)"
    using assms False by (cases "rand_loop limit (rand_reseed urandom s)") (auto simp: rand_below_def)
  then have "unat r = unat x mod unat limit" using unat_ucast_mod [OF l] by simp
  moreover have "0 < unat limit" using l by (simp add: unat_gt_0)
  ultimately show ?thesis by (simp add: max_def)
qed

lemma rand_next_prev: "snd (rand_next (rand_prev s)) = s"
proof -
  have "15241094284759029579 * (4888251478366616163 * x) = x" for x :: u64
  proof -
    have "15241094284759029579 * 4888251478366616163 = (1 :: u64)" by simp
    then have "15241094284759029579 * 4888251478366616163 * x = x" by (simp only: mult_1_left)
    then show ?thesis by (simp only: mult.assoc)
  qed
  then show ?thesis
    using ROTL_ROTL [of 37] by (simp add: rand_prev_def rand_next_def Let_def)
qed

text \<open>What the loop returns is some accepted draw; by injectivity of the state map a draw that was
  rejected cannot come back with the state of the first one.\<close>

lemma rand_loop_accepts:
  "rand_loop limit s = Some p \<Longrightarrow> \<exists>k. rand_next (draws k s) = p \<and> fst p < rand_limit limit"
proof (induction limit s p rule: rand_loop.raw_induct [rotated, consumes 1, case_names step])
  case (step loop limit s p)
  show ?case
  proof (cases "rand_limit limit \<le> fst (rand_next s)")
    case True
    then have "loop limit (snd (rand_next s)) = Some p"
      using step(2) by (simp add: case_prod_unfold Let_def)
    from step(1) [OF this] obtain k where "rand_next (draws k (snd (rand_next s))) = p \<and> fst p < rand_limit limit"
      by blast
    then show ?thesis by (intro exI [of _ "Suc k"]) simp
  next
    case False
    then have "p = rand_next s" using step(2) by (auto simp: Let_def split: prod.splits)
    then show ?thesis using False by (intro exI [of _ 0]) auto
  qed
qed

lemma rand_below_single_draw:
  assumes "1 < limit" and "fst (rand_next (rand_reseed urandom s)) = x"
  shows "rand_below urandom limit s = Some (r, snd (rand_next (rand_reseed urandom s))) \<longleftrightarrow>
    x < rand_limit limit \<and> ucast (x mod ucast limit) = r"
proof (cases "x < rand_limit limit")
  case True
  then have "rand_loop limit (rand_reseed urandom s) = Some (rand_next (rand_reseed urandom s))"
    using assms(2) by (subst rand_loop.simps) (auto split: prod.split)
  then show ?thesis using True assms by (auto simp: rand_below_def split: prod.split)
next
  case False
  have "rand_loop limit (rand_reseed urandom s) \<noteq> Some (y, snd (rand_next (rand_reseed urandom s)))" for y
  proof
    assume "rand_loop limit (rand_reseed urandom s) = Some (y, snd (rand_next (rand_reseed urandom s)))"
    from rand_loop_accepts [OF this] obtain k where k:
      "rand_next (draws k (rand_reseed urandom s)) = (y, snd (rand_next (rand_reseed urandom s)))" "y < rand_limit limit"
      by auto
    then have "draws k (rand_reseed urandom s) = rand_reseed urandom s" using rand_prev_next by (metis snd_conv)
    then have "y = x" using k(1) assms(2) by (metis fst_conv)
    then show False using k(2) False by simp
  qed
  then show ?thesis using False assms(1) by (auto simp: rand_below_def)
qed

lemma accepted_card:
  assumes "r < limit"
  shows "card {x. x < rand_limit limit \<and> ucast (x mod ucast limit) = r} = (2 ^ 64 - 1) div unat limit"
proof -
  have l: "0 < limit" using assms by (metis word_coorder.not_eq_extremum word_not_simps(1))
  let ?q = "(2 ^ 64 - 1) div unat limit :: nat"
  have lim: "unat (rand_limit limit) = ?q * unat limit" using l by (rule rand_limit_nat)
  define P where "P n \<longleftrightarrow> n < ?q * unat limit \<and> n mod unat limit = unat r" for n
  have "{x. x < rand_limit limit \<and> ucast (x mod ucast limit) = r} = {x :: u64. P (unat x)}"
    unfolding P_def by (intro Collect_cong conj_cong)
      (simp_all add: word_less_nat_alt lim word_unat_eq_iff unat_ucast_mod [OF l])
  moreover have "{n. n < 2 ^ LENGTH(64) \<and> P n} = {n. P n}"
    using unsigned_less [of "rand_limit limit", where 'a = nat] lim by (auto simp: P_def)
  moreover have "card {n. P n} = ?q"
    unfolding P_def using l assms by (intro residues_card) (auto simp: word_less_nat_alt unat_gt_0)
  ultimately show ?thesis using card_word_pred [of P, where 'a = 64] by simp
qed

lemma next_pow2_beyond: "32 \<le> k \<Longrightarrow> next_pow2 (2 ^ k + 1) \<noteq> 2 ^ (k + 1)"
proof
  assume k: "32 \<le> k" and eq: "next_pow2 (2 ^ k + 1) = 2 ^ (k + 1)"
  define out :: u64 where "out = next_pow2 (2 ^ k + 1) - 1"
  have "\<not> bit out 0" using k by (simp add: out_def next_pow2_def Let_def bit_simps)
  moreover have "odd out" unfolding out_def eq by simp
  ultimately show False by (simp add: bit_0)
qed

section \<open>Properties\<close>

text \<open>C37. The generator's state map is a bijection of the pair of seed words it uses: it has a
  two-sided inverse, so every state has exactly one predecessor and the draw sequence never collapses
  into a shorter cycle.\<close>

theorem rand_next_bijective:
  "rand_prev (snd (rand_next s)) = s \<and> snd (rand_next (rand_prev s)) = s \<and>
    (snd (rand_next s) = snd (rand_next t) \<longleftrightarrow> s = t)"
  using rand_prev_next rand_next_prev by metis

text \<open>C30. \<open>rand_below\<close> returns as soon as the generator delivers a value below the rejection
  threshold: the draw it uses is below the threshold, all earlier ones are not, and the result is
  the residue of that draw.\<close>

theorem rand_below_first_accepted:
  assumes "1 < limit" and "fst (rand_next (draws n (rand_reseed urandom s))) < rand_limit limit"
  shows "\<exists>k r. k \<le> n \<and> r < limit \<and>
    rand_below urandom limit s = Some (r, snd (rand_next (draws k (rand_reseed urandom s)))) \<and>
    unat r = unat (fst (rand_next (draws k (rand_reseed urandom s)))) mod unat limit \<and>
    fst (rand_next (draws k (rand_reseed urandom s))) < rand_limit limit \<and>
    (\<forall>j < k. rand_limit limit \<le> fst (rand_next (draws j (rand_reseed urandom s))))"
proof -
  let ?s = "rand_reseed urandom s"
  obtain k where k: "k \<le> n" "rand_loop limit ?s = Some (rand_next (draws k ?s))"
    "fst (rand_next (draws k ?s)) < rand_limit limit"
    "\<forall>j < k. rand_limit limit \<le> fst (rand_next (draws j ?s))"
    using rand_loop_stops [OF assms(2)] by blast
  let ?r = "ucast (fst (rand_next (draws k ?s)) mod ucast limit) :: u32"
  have l: "0 < limit" using assms(1) by (rule less_trans [rotated]) simp
  have u: "unat ?r = unat (fst (rand_next (draws k ?s))) mod unat limit"
    using l by (rule unat_ucast_mod)
  then have "?r < limit" using l by (simp add: word_less_nat_alt unat_gt_0)
  moreover have "rand_below urandom limit s = Some (?r, snd (rand_next (draws k ?s)))"
    using assms(1) k(2) by (auto simp: rand_below_def split: prod.split)
  ultimately show ?thesis using k u by blast
qed

theorem rand_below_first_accepted_witness:
  "\<exists>r s'. rand_below (\<lambda>_. (0, 0, 0)) 10
     \<lparr>rand_seed0 = - 1, rand_seed1 = 1, rand_seed2 = 1, rand_cnt = 5, init_seed = 0, rand_fixed = True,
      urandom_reads = 0\<rparr> = Some (r, s') \<and> r = 9"
proof -
  let ?s = "\<lparr>rand_seed0 = - 1, rand_seed1 = 1, rand_seed2 = 1, rand_cnt = 5, init_seed = 0, rand_fixed = True,
      urandom_reads = 0\<rparr>"
  let ?d = "\<lambda>k. fst (rand_next (draws k (rand_reseed (\<lambda>_. (0, 0, 0)) ?s)))"
  have d: "?d 0 = - 1" "?d 1 = 15241094284759029579"
    by (simp_all add: rand_next_def rand_reseed_def)
  have l: "rand_limit 10 = 18446744073709551610" by (simp add: rand_limit_def)
  have a: "?d 1 < rand_limit 10" unfolding d l by simp
  from rand_below_first_accepted [of 10 1 "\<lambda>_. (0, 0, 0)" ?s, OF _ a] obtain k r where k: "k \<le> 1"
    "rand_below (\<lambda>_. (0, 0, 0)) 10 ?s = Some (r, snd (rand_next (draws k (rand_reseed (\<lambda>_. (0, 0, 0)) ?s))))"
    "unat r = unat (?d k) mod unat (10 :: u32)" "?d k < rand_limit 10" by auto
  have "k \<noteq> 0" using k(4) d(1) l by (intro notI) simp
  then have "k = 1" using k(1) by simp
  then have "unat r = 9" using k(3) d(2) by simp
  then have "r = 9" by (simp add: word_unat_eq_iff)
  then show ?thesis using k(2) by blast
qed

text \<open>C20. \<open>rand_below\<close> is unbiased: when no reseeding is due, the 64-bit values of the seed word for which
  it returns \<open>r\<close> after a single draw are equally many for every \<open>r\<close> below the limit. (The values that
  are rejected, fewer than the limit, lead to another draw.)\<close>

theorem rand_below_unbiased:
  assumes "1 < limit" and "r < limit" and "rand_fixed s \<or> rand_cnt s \<noteq> 0"
  shows "card {x. rand_below urandom limit (s\<lparr>rand_seed0 := x\<rparr>) =
      Some (r, snd (rand_next (rand_reseed urandom (s\<lparr>rand_seed0 := x\<rparr>))))} = (2 ^ 64 - 1) div unat limit"
proof -
  have "(rand_below urandom limit (s\<lparr>rand_seed0 := x\<rparr>) =
      Some (r, snd (rand_next (rand_reseed urandom (s\<lparr>rand_seed0 := x\<rparr>))))) =
      (x < rand_limit limit \<and> ucast (x mod ucast limit) = r)" for x
    using assms(1,3) by (intro rand_below_single_draw) (auto simp: rand_reseed_def Let_def rand_next_def)
  then show ?thesis using accepted_card [OF assms(2)] by simp
qed

theorem rand_below_unbiased_witness:
  "card {x. rand_below (\<lambda>_. (0, 0, 0)) 6
      \<lparr>rand_seed0 = x, rand_seed1 = 3, rand_seed2 = 1, rand_cnt = 5, init_seed = 0, rand_fixed = True, urandom_reads = 0\<rparr> =
    Some (4, snd (rand_next (rand_reseed (\<lambda>_. (0, 0, 0))
      \<lparr>rand_seed0 = x, rand_seed1 = 3, rand_seed2 = 1, rand_cnt = 5, init_seed = 0, rand_fixed = True, urandom_reads = 0\<rparr>)))} =
    3074457345618258602"
  using rand_below_unbiased [of 6 4 "\<lparr>rand_seed0 = 0, rand_seed1 = 3, rand_seed2 = 1, rand_cnt = 5, init_seed = 0,
      rand_fixed = True, urandom_reads = 0\<rparr>" "\<lambda>_. (0, 0, 0)"] by simp

text \<open>C38. \<open>next_pow2\<close> is the least power of two that is at least its argument, for arguments from 1 to
  \<open>2 ^ 32\<close>; 0 gives 0. The 64-bit function has one smearing step too few: between any two powers of
  two from \<open>2 ^ 32\<close> on there is an argument it gets wrong.\<close>

theorem next_pow2_least:
  "(\<forall>n. 0 < n \<and> n \<le> 2 ^ 32 \<longrightarrow>
     (\<exists>k \<le> 32. next_pow2 n = 2 ^ k \<and> n \<le> 2 ^ k \<and> (\<forall>j < k. 2 ^ j < n))) \<and>
   next_pow2 0 = 0 \<and> next_pow2 (2 ^ 40 + 1) \<noteq> 2 ^ 41 \<and>
   (\<forall>k. 32 \<le> k \<and> k \<le> 62 \<longrightarrow> next_pow2 (2 ^ k + 1) \<noteq> 2 ^ (k + 1))"
proof (intro conjI allI impI)
  fix n :: u64
  assume "0 < n \<and> n \<le> 2 ^ 32"
  then show "\<exists>k \<le> 32. next_pow2 n = 2 ^ k \<and> n \<le> 2 ^ k \<and> (\<forall>j < k. 2 ^ j < n)"
    using next_pow2_correct by metis
next
  fix k :: nat
  assume "32 \<le> k \<and> k \<le> 62"
  then show "next_pow2 (2 ^ k + 1) \<noteq> 2 ^ (k + 1)" using next_pow2_beyond by blast
qed (simp_all add: next_pow2_def)

theorem next_pow2_least_witness: "\<exists>k \<le> 32. next_pow2 1000 = 2 ^ k"
proof -
  have "0 < (1000 :: u64) \<and> 1000 \<le> (2 ^ 32 :: u64)" by simp
  with next_pow2_least show ?thesis by blast
qed

text \<open>C40. \<open>bitmap_set\<close> sets one bit and \<open>bitmap_read\<close> reads it back; all other bits keep their
  value.\<close>

theorem bitmap_read_set:
  assumes "i < 8 * length mp" and "j < 8 * length mp"
  shows "bitmap_read (bitmap_set mp i) j = (if i = j then 1 else bitmap_read mp j)"
proof -
  have "i div 8 < length mp" "j div 8 < length mp" using assms by linarith+
  moreover have "i div 8 = j div 8 \<Longrightarrow> i mod 8 = j mod 8 \<Longrightarrow> i = j" by (metis div_mult_mod_eq)
  ultimately show ?thesis
    by (intro bit_word_eqI) (auto simp: bitmap_read_def bitmap_set_def nth_list_update bit_simps)
qed

theorem bitmap_read_set_witness: "bitmap_read (bitmap_set [0, 0] 9) 9 = 1"
  using bitmap_read_set [of 9 "[0, 0]" 9] by simp

end
