(* ===== verification/Text.thy ===== *)
theory Text
  imports State
begin

text \<open>
  Text detection of \<open>src/afl-fuzz-queue.c\<close>: \<open>check_if_text_buf\<close> and \<open>check_if_text\<close>, which
  classify a test case as ASCII or UTF-8. The scanning loops keep the offset into the buffer; each
  round recognises one printable byte or one well-formed UTF-8 sequence, or skips a byte.
  Reading the file is the parameter \<open>contents\<close> (what \<open>open\<close> and \<open>read\<close> deliver, \<open>None\<close> when
  the file cannot be opened). \<open>isprint\<close> is the one of the C locale.
\<close>

section \<open>Recognising one character\<close>

definition isascii :: "u8 \<Rightarrow> bool" where
  "isascii c \<longleftrightarrow> c \<le> 0x7F"

definition isprint :: "u8 \<Rightarrow> bool" where
  "isprint c \<longleftrightarrow> 0x20 \<le> c \<and> c \<le> 0x7E"

definition ascii1 :: "buf \<Rightarrow> nat \<Rightarrow> bool" where
  "ascii1 b k \<longleftrightarrow> b ! k = 0x09 \<or> b ! k = 0x0A \<or> b ! k = 0x0D \<or> (0x20 \<le> b ! k \<and> b ! k \<le> 0x7E)"

definition in_range :: "u8 \<Rightarrow> u8 \<Rightarrow> u8 \<Rightarrow> bool" where
  "in_range lo c hi \<longleftrightarrow> lo \<le> c \<and> c \<le> hi"

definition utf2 :: "buf \<Rightarrow> nat \<Rightarrow> nat \<Rightarrow> bool" where
  "utf2 b len k \<longleftrightarrow> len - k > 1 \<and> in_range 0xC2 (b ! k) 0xDF \<and> in_range 0x80 (b ! (k + 1)) 0xBF"

definition utf3 :: "buf \<Rightarrow> nat \<Rightarrow> nat \<Rightarrow> bool" where
  "utf3 b len k \<longleftrightarrow> len - k > 2 \<and>
     (b ! k = 0xE0 \<and> in_range 0xA0 (b ! (k + 1)) 0xBF \<and> in_range 0x80 (b ! (k + 2)) 0xBF \<or>
      (in_range 0xE1 (b ! k) 0xEC \<or> b ! k = 0xEE \<or> b ! k = 0xEF) \<and>
        in_range 0x80 (b ! (k + 1)) 0xBF \<and> in_range 0x80 (b ! (k + 2)) 0xBF \<or>
      b ! k = 0xED \<and> in_range 0x80 (b ! (k + 1)) 0x9F \<and> in_range 0x80 (b ! (k + 2)) 0xBF)"

definition utf4 :: "buf \<Rightarrow> nat \<Rightarrow> nat \<Rightarrow> bool" where
  "utf4 b len k \<longleftrightarrow> len - k > 3 \<and>
     (b ! k = 0xF0 \<and> in_range 0x90 (b ! (k + 1)) 0xBF \<and> in_range 0x80 (b ! (k + 2)) 0xBF \<and>
        in_range 0x80 (b ! (k + 3)) 0xBF \<or>
      in_range 0xF1 (b ! k) 0xF3 \<and> in_range 0x80 (b ! (k + 1)) 0xBF \<and> in_range 0x80 (b ! (k + 2)) 0xBF \<and>
        in_range 0x80 (b ! (k + 3)) 0xBF \<or>
      b ! k = 0xF4 \<and> in_range 0x80 (b ! (k + 1)) 0x8F \<and> in_range 0x80 (b ! (k + 2)) 0xBF \<and>
        in_range 0x80 (b ! (k + 3)) 0xBF)"

section \<open>The scanning loops\<close>

text \<open>\<open>check_if_text_buf\<close>: the counters after the loop, and the result, which is a \<open>u8\<close>.\<close>

function text_buf_loop :: "buf \<Rightarrow> nat \<Rightarrow> nat \<Rightarrow> nat \<Rightarrow> nat \<Rightarrow> nat \<times> nat" where
  "text_buf_loop b len k ascii utf8 =
     (if k < len
      then if ascii1 b k then text_buf_loop b len (k + 1) (ascii + 1) (utf8 + 1)
           else let ascii = (if isascii (b ! k) \<or> isprint (b ! k) then ascii + 1 else ascii)
                in if utf2 b len k then text_buf_loop b len (k + 2) ascii (utf8 + 1)
                   else if utf3 b len k then text_buf_loop b len (k + 3) ascii (utf8 + 1)
                   else if utf4 b len k then text_buf_loop b len (k + 4) ascii (utf8 + 1)
                   else text_buf_loop b len (k + 1) ascii utf8
      else (ascii, utf8))"
  by pat_completeness auto
termination
  by (relation "measure (\<lambda>(b, len, k, _). len - k)") auto

definition check_if_text_buf :: "buf \<Rightarrow> nat \<Rightarrow> u8" where
  "check_if_text_buf b len =
     (let (ascii, utf8) = text_buf_loop b len 0 0 0 in word_of_nat (if utf8 > ascii then utf8 else ascii))"

text \<open>\<open>check_if_text\<close> also counts characters down from the length: \<open>comp\<close> (here \<open>chars\<close>) is a \<open>ssize_t\<close>.\<close>

function text_loop :: "buf \<Rightarrow> nat \<Rightarrow> nat \<Rightarrow> nat \<Rightarrow> nat \<Rightarrow> int \<Rightarrow> nat \<times> nat \<times> int" where
  "text_loop b len k ascii utf8 chars =
     (if k < len
      then if ascii1 b k then text_loop b len (k + 1) (ascii + 1) (utf8 + 1) chars
           else let ascii = (if isascii (b ! k) \<or> isprint (b ! k) then ascii + 1 else ascii)
                in if utf2 b len k then text_loop b len (k + 2) ascii (utf8 + 1) (chars - 1)
                   else if utf3 b len k then text_loop b len (k + 3) ascii (utf8 + 1) (chars - 2)
                   else if utf4 b len k then text_loop b len (k + 4) ascii (utf8 + 1) (chars - 3)
                   else text_loop b len (k + 1) ascii utf8 chars
      else (ascii, utf8, chars))"
  by pat_completeness auto
termination
  by (relation "measure (\<lambda>(b, len, k, _). len - k)") auto

declare text_buf_loop.simps [simp del] text_loop.simps [simp del]

definition AFL_TXT_MIN_LEN :: nat where "AFL_TXT_MIN_LEN = 12"
definition AFL_TXT_MAX_LEN :: nat where "AFL_TXT_MAX_LEN = 65535"
definition AFL_TXT_MIN_PERCENT :: nat where "AFL_TXT_MIN_PERCENT = 99"
definition MAX_FILE :: nat where "MAX_FILE = 1048576"

text \<open>The percentages are \<open>u32\<close>; the products \<open>utf8 * 100\<close> and \<open>ascii * 100\<close> are 32-bit too.\<close>

definition check_if_text :: "(string \<Rightarrow> buf option) \<Rightarrow> queue_entry \<Rightarrow> nat" where
  "check_if_text contents q =
     (if q_len q < AFL_TXT_MIN_LEN \<or> q_len q < AFL_TXT_MAX_LEN then 0
      else let len = (if q_len q \<ge> MAX_FILE then MAX_FILE - 1 else q_len q)
           in case contents (q_fname q) of
                None \<Rightarrow> 0
              | Some file \<Rightarrow>
                  if length (take len file) \<noteq> len then 0
                  else let b = take len file @ [0];
                           (ascii, utf8, chars) = text_loop b len 0 0 0 (int len);
                           percent_utf8 = nat (int (utf8 * 100 mod 2 ^ 32) div chars) mod 2 ^ 32;
                           percent_ascii = (ascii * 100 mod 2 ^ 32) div len
                       in if percent_utf8 \<ge> percent_ascii \<and> percent_utf8 \<ge> AFL_TXT_MIN_PERCENT then 2
                          else if percent_ascii \<ge> AFL_TXT_MIN_PERCENT then 1
                          else 0)"

section \<open>UTF-8\<close>

text \<open>The UTF-8 encoding of a Unicode scalar value.\<close>

definition byte :: "nat \<Rightarrow> u8" where
  "byte n = word_of_nat n"

definition utf8_enc :: "nat \<Rightarrow> buf" where
  "utf8_enc c =
     (if c < 0x80 then [byte c]
      else if c < 0x800 then [byte (0xC0 + c div 64), byte (0x80 + c mod 64)]
      else if c < 0x10000 then [byte (0xE0 + c div 4096), byte (0x80 + c div 64 mod 64), byte (0x80 + c mod 64)]
      else [byte (0xF0 + c div 262144), byte (0x80 + c div 4096 mod 64),
            byte (0x80 + c div 64 mod 64), byte (0x80 + c mod 64)])"

definition text_char :: "nat \<Rightarrow> bool" where
  "text_char c \<longleftrightarrow> c \<in> {9, 10, 13} \<or> 0x20 \<le> c \<and> c \<le> 0x7E \<or>
     0x80 \<le> c \<and> c < 0xD800 \<or> 0xE000 \<le> c \<and> c \<le> 0x10FFFF"

lemma text_loop_bounds:
  assumes "k \<le> len" "utf8 \<le> ch" "ascii \<le> k" "chars = int ch + int (len - k)" "0 < k \<longrightarrow> 0 < ch"
    "text_loop b len k ascii utf8 chars = (a, u, c)"
  shows "\<exists>ch'. c = int ch' \<and> u \<le> ch' \<and> a \<le> len \<and> (0 < len \<longrightarrow> 0 < ch') \<and> ch' \<le> ch + (len - k)"
  using assms
proof (induction b len k ascii utf8 chars arbitrary: ch rule: text_loop.induct)
  case (1 b len k ascii utf8 chars)
  let ?asc = "if isascii (b ! k) \<or> isprint (b ! k) then ascii + 1 else ascii"
  show ?case
  proof (cases "k < len")
    case False
    then have "text_loop b len k ascii utf8 chars = (ascii, utf8, chars)" by (subst text_loop.simps) simp
    with False "1.prems" show ?thesis by auto
  next
    case k: True
    note eq = "1.prems"(6) [unfolded text_loop.simps [of b len k], simplified k if_True Let_def]
    have asc: "?asc \<le> k + 1" using "1.prems"(3) by simp
    consider "ascii1 b k" | "\<not> ascii1 b k" "utf2 b len k" | "\<not> ascii1 b k" "\<not> utf2 b len k" "utf3 b len k"
      | "\<not> ascii1 b k" "\<not> utf2 b len k" "\<not> utf3 b len k" "utf4 b len k"
      | "\<not> ascii1 b k" "\<not> utf2 b len k" "\<not> utf3 b len k" "\<not> utf4 b len k" by blast
    then show ?thesis
    proof cases
      case 1
      show ?thesis using "1.IH"(1) [OF k 1, of "ch + 1"] "1.prems" eq 1 k by fastforce
    next
      case 2
      then have "k + 2 \<le> len" by (auto simp: utf2_def)
      then show ?thesis using "1.IH"(2) [OF k 2(1) refl 2(2), of "ch + 1"] "1.prems" eq 2 asc by fastforce
    next
      case 3
      then have "k + 3 \<le> len" by (auto simp: utf3_def)
      then show ?thesis using "1.IH"(3) [OF k 3(1) refl 3(2,3), of "ch + 1"] "1.prems" eq 3 asc by fastforce
    next
      case 4
      then have "k + 4 \<le> len" by (auto simp: utf4_def)
      then show ?thesis using "1.IH"(4) [OF k 4(1) refl 4(2,3,4), of "ch + 1"] "1.prems" eq 4 asc by fastforce
    next
      case 5
      then show ?thesis using "1.IH"(5) [OF k 5(1) refl 5(2,3,4), of "ch + 1"] "1.prems" eq k asc by fastforce
    qed
  qed
qed

lemma in_range_nat:
  assumes "n < 256"
  shows "in_range lo (byte n) hi \<longleftrightarrow> unat lo \<le> n \<and> n \<le> unat hi"
    and "byte n = c \<longleftrightarrow> n = unat c"
  using assms by (auto simp: byte_def in_range_def word_le_nat_alt word_unat_eq_iff unat_of_nat take_bit_nat_eq_self)

lemma nth_drop_prefix:
  assumes "drop k b = x @ y" "i < length x"
  shows "b ! (k + i) = x ! i"
proof -
  have "k \<le> length b" using assms by (cases "k \<le> length b") auto
  then have "b ! (k + i) = drop k b ! i" by simp
  then show ?thesis using assms by (simp add: nth_append)
qed

lemma text_char_step:
  assumes c: "text_char c" and d: "drop k b = utf8_enc c @ rest" and len: "k + length (utf8_enc c) \<le> len" "k < length b"
  shows "\<exists>a'. text_loop b len k ascii utf8 chars =
     text_loop b len (k + length (utf8_enc c)) a' (utf8 + 1) (chars - int (length (utf8_enc c)) + 1)"
proof -
  have e: "b ! (k + i) = utf8_enc c ! i" if "i < length (utf8_enc c)" for i
    using nth_drop_prefix [OF d that] .
  consider "c < 0x80" | "0x80 \<le> c" "c < 0x800" | "0x800 \<le> c" "c < 0x10000" | "0x10000 \<le> c" by linarith
  then show ?thesis
  proof cases
    case 1
    then have "b ! k = byte c" "length (utf8_enc c) = 1" using e [of 0] by (simp_all add: utf8_enc_def)
    moreover have "ascii1 b k"
      using 1 c \<open>b ! k = byte c\<close> in_range_nat [of c]
      by (auto simp: ascii1_def text_char_def in_range_def)
    ultimately show ?thesis using len by (subst text_loop.simps) auto
  next
    case 2
    then have enc: "utf8_enc c = [byte (0xC0 + c div 64), byte (0x80 + c mod 64)]"
      by (simp add: utf8_enc_def)
    have b: "b ! k = byte (0xC0 + c div 64)" "b ! (k + 1) = byte (0x80 + c mod 64)"
      using e [of 0] e [of 1] by (simp_all add: enc)
    have r: "2 \<le> c div 64" "c div 64 < 32" "c mod 64 < 64" using 2 by linarith+
    have "utf2 b len k" using b r len by (auto simp: utf2_def enc in_range_nat)
    moreover have "\<not> ascii1 b k" using b r in_range_nat(2) [of "0xC0 + c div 64"] in_range_nat(1) [of "0xC0 + c div 64" "0x20" "0x7E"]
      by (auto simp: ascii1_def in_range_def)
    moreover have "length (utf8_enc c) = 2" by (simp add: enc)
    ultimately show ?thesis using len by (subst text_loop.simps) (auto simp: Let_def)
  next
    case 3
    then have enc: "utf8_enc c = [byte (0xE0 + c div 4096), byte (0x80 + c div 64 mod 64), byte (0x80 + c mod 64)]"
      by (simp add: utf8_enc_def)
    have b: "b ! k = byte (0xE0 + c div 4096)" "b ! (k + 1) = byte (0x80 + c div 64 mod 64)"
       "b ! (k + 2) = byte (0x80 + c mod 64)"
      using e [of 0] e [of 1] e [of 2] by (simp_all add: enc)
    have r: "c div 4096 < 16" "c div 64 mod 64 < 64" "c mod 64 < 64" using 3 by (auto simp: less_mult_imp_div_less)
    have q: "c div 64 = 64 * (c div 4096) + c div 64 mod 64" by (simp add: div_mult2_eq [of c 64 64, simplified])
    have z: "c div 4096 = 0 \<Longrightarrow> 32 \<le> c div 64 mod 64" using 3 q by linarith
    have s: "c div 4096 = 13 \<Longrightarrow> c div 64 mod 64 \<le> 31" using 3 q c unfolding text_char_def by auto
    define p u v where "p = c div 4096" and "u = c div 64 mod 64" and "v = c mod 64"
    note pf = r [folded p_def u_def v_def] and zf = z [folded p_def u_def] and sf = s [folded p_def u_def]
    have k3: "k + 2 < len" using len(1) by (simp add: enc)
    consider "p = 0" | "p = 13" | "1 \<le> p" "p \<le> 12" | "p = 14" | "p = 15" using pf(1) by linarith
    then have "utf3 b len k"
      unfolding utf3_def b p_def [symmetric] u_def [symmetric] v_def [symmetric]
      using pf(2,3) zf sf k3 by cases (simp_all add: in_range_nat)
    moreover have "\<not> ascii1 b k" "\<not> utf2 b len k"
      using b r in_range_nat(2) [of "0xE0 + c div 4096"] in_range_nat(1) [of "0xE0 + c div 4096"]
      by (auto simp: ascii1_def utf2_def in_range_def)
    moreover have "length (utf8_enc c) = 3" by (simp add: enc)
    ultimately show ?thesis using len by (subst text_loop.simps) (auto simp: Let_def)
  next
    case 4
    then have enc: "utf8_enc c = [byte (0xF0 + c div 262144), byte (0x80 + c div 4096 mod 64),
            byte (0x80 + c div 64 mod 64), byte (0x80 + c mod 64)]"
      by (simp add: utf8_enc_def)
    have b: "b ! k = byte (0xF0 + c div 262144)" "b ! (k + 1) = byte (0x80 + c div 4096 mod 64)"
       "b ! (k + 2) = byte (0x80 + c div 64 mod 64)" "b ! (k + 3) = byte (0x80 + c mod 64)"
      using e [of 0] e [of 1] e [of 2] e [of 3] by (simp_all add: enc)
    have c1: "c \<le> 0x10FFFF" using c 4 by (auto simp: text_char_def)
    then have r: "c div 262144 < 5" "c div 4096 mod 64 < 64" "c div 64 mod 64 < 64" "c mod 64 < 64"
      by (auto simp: less_mult_imp_div_less)
    have q: "c div 4096 = 64 * (c div 262144) + c div 4096 mod 64" by (simp add: div_mult2_eq [of c 4096 64, simplified])
    have z: "c div 262144 = 0 \<Longrightarrow> 16 \<le> c div 4096 mod 64" using 4 q by linarith
    have s: "c div 262144 = 4 \<Longrightarrow> c div 4096 mod 64 \<le> 15" using c1 q by linarith
    define p u v w where "p = c div 262144" and "u = c div 4096 mod 64" and "v = c div 64 mod 64" and "w = c mod 64"
    note pf = r [folded p_def u_def v_def w_def] and zf = z [folded p_def u_def] and sf = s [folded p_def u_def]
    have k4: "k + 3 < len" using len(1) by (simp add: enc)
    consider "p = 0" | "p = 4" | "1 \<le> p" "p \<le> 3" using pf(1) by linarith
    then have "utf4 b len k"
      unfolding utf4_def b p_def [symmetric] u_def [symmetric] v_def [symmetric] w_def [symmetric]
      using pf(2,3,4) zf sf k4 by cases (simp_all add: in_range_nat)
    moreover have "\<not> ascii1 b k" "\<not> utf2 b len k" "\<not> utf3 b len k"
      using b r in_range_nat(2) [of "0xF0 + c div 262144"] in_range_nat(1) [of "0xF0 + c div 262144"]
      by (auto simp: ascii1_def utf2_def utf3_def in_range_def)
    moreover have "length (utf8_enc c) = 4" by (simp add: enc)
    ultimately show ?thesis using len by (subst text_loop.simps) (auto simp: Let_def)
  qed
qed

lemma utf8_enc_length: "0 < length (utf8_enc c)"
  by (simp add: utf8_enc_def)

lemma text_chars_scan:
  assumes "\<forall>c\<in>set cs. text_char c" "drop k b = concat (map utf8_enc cs) @ rest"
    "len = k + length (concat (map utf8_enc cs))" "chars = int utf8 + int (len - k)" "k \<le> length b"
  shows "\<exists>a. text_loop b len k ascii utf8 chars = (a, utf8 + length cs, int (utf8 + length cs))"
  using assms
proof (induction cs arbitrary: k ascii utf8 chars)
  case Nil
  then show ?case by (subst text_loop.simps) simp
next
  case (Cons c cs)
  let ?n = "length (utf8_enc c)"
  have d: "drop k b = utf8_enc c @ (concat (map utf8_enc cs) @ rest)" using Cons.prems(2) by simp
  have kb: "k < length b" using d utf8_enc_length [of c] by (cases "k < length b") auto
  have c: "text_char c" using Cons.prems(1) by simp
  have l: "k + ?n \<le> len" using Cons.prems(3) by simp
  obtain a' where a': "text_loop b len k ascii utf8 chars =
      text_loop b len (k + ?n) a' (utf8 + 1) (chars - int ?n + 1)"
    using text_char_step [OF c d l kb] by blast
  have "drop (k + ?n) b = concat (map utf8_enc cs) @ rest"
    using arg_cong [OF d, of "drop ?n"] by (simp add: add.commute)
  moreover have "k + ?n \<le> length b" using arg_cong [OF d, of length] kb by simp
  ultimately have "\<exists>a. text_loop b len (k + ?n) a' (utf8 + 1) (chars - int ?n + 1) =
      (a, utf8 + 1 + length cs, int (utf8 + 1 + length cs))"
    using Cons.prems by (intro Cons.IH) auto
  with a' show ?case by simp
qed

lemma ascii_count_le: "text_loop b len 0 0 0 (int len) = (a, u, c) \<Longrightarrow> a \<le> len \<and> int u \<le> c \<and> c \<le> int len \<and> (0 < len \<longrightarrow> 0 < c)"
  using text_loop_bounds [of 0 len 0 0 0 "int len" b a u c] by auto

section \<open>Properties\<close>

lemma utf8_file_classified:
  assumes "\<forall>c\<in>set cs. text_char c" "contents (q_fname q) = Some (concat (map utf8_enc cs))"
    "q_len q = length (concat (map utf8_enc cs))" "AFL_TXT_MAX_LEN \<le> q_len q" "q_len q < MAX_FILE"
  shows "check_if_text contents q = 2"
proof -
  let ?f = "concat (map utf8_enc cs)" let ?len = "length ?f"
  obtain a where scan: "text_loop (?f @ [0]) ?len 0 0 0 (int ?len) = (a, length cs, int (length cs))"
    using text_chars_scan [OF assms(1), of 0 "?f @ [0]" "[0]" ?len "int ?len" 0 0] by auto
  have bounds: "a \<le> ?len" "length cs \<le> ?len" "0 < length cs"
    using ascii_count_le [OF scan] assms by (auto simp: AFL_TXT_MAX_LEN_def)
  have small: "?len < 1048576" using assms by (simp add: MAX_FILE_def)
  have "length cs * 100 < 2 ^ 32" "a * 100 < 2 ^ 32" using bounds small by simp_all
  moreover have "nat (int (length cs * 100) div int (length cs)) = 100" using bounds by simp
  moreover have "(a * 100) div ?len \<le> 100"
  proof -
    have "(a * 100) div ?len \<le> (?len * 100) div ?len" using bounds(1) by (intro div_le_mono mult_le_mono1)
    also have "\<dots> = 100" using bounds by (intro nonzero_mult_div_cancel_left) linarith
    finally show ?thesis .
  qed
  ultimately have "check_if_text contents q = 2 \<longleftrightarrow> True"
    unfolding check_if_text_def using assms scan
    by (simp add: AFL_TXT_MAX_LEN_def AFL_TXT_MIN_LEN_def MAX_FILE_def AFL_TXT_MIN_PERCENT_def Let_def)
  then show ?thesis by simp
qed

text \<open>C32. A file below 1 MiB made of UTF-8 encoded Unicode scalar values (tab, newline, carriage return and
  printable ASCII, and everything from U+0080 except the surrogates) is classified as UTF-8 text
  exactly when it has at least \<open>AFL_TXT_MAX_LEN\<close> bytes. \<open>config.h\<close> documents that constant as the
  maximum length to evaluate, so the test is the wrong way round: every shorter file gets 0.\<close>

theorem check_if_text_utf8:
  assumes "\<forall>c\<in>set cs. text_char c" "contents (q_fname q) = Some (concat (map utf8_enc cs))"
    "q_len q = length (concat (map utf8_enc cs))" "q_len q < MAX_FILE"
  shows "check_if_text contents q = (if q_len q < AFL_TXT_MAX_LEN then 0 else 2)"
  using utf8_file_classified [of cs contents q] assms by (simp add: check_if_text_def)

theorem check_if_text_utf8_witness:
  "check_if_text (\<lambda>_. Some (concat (map utf8_enc (replicate 70000 0x20AC))))
     (queue_entry_zero\<lparr>q_len := 210000\<rparr>) = 2 \<and>
   check_if_text (\<lambda>_. Some (concat (map utf8_enc (replicate 20000 0x20AC))))
     (queue_entry_zero\<lparr>q_len := 60000\<rparr>) = 0"
proof -
  have "check_if_text (\<lambda>_. Some (concat (map utf8_enc (replicate n 0x20AC)))) (queue_entry_zero\<lparr>q_len := 3 * n\<rparr>) =
      (if 3 * n < AFL_TXT_MAX_LEN then 0 else 2)" if "3 * n < MAX_FILE" for n
    using check_if_text_utf8 [where cs = "replicate n 0x20AC" and q = "queue_entry_zero\<lparr>q_len := 3 * n\<rparr>",
        where contents = "\<lambda>_. Some (concat (map utf8_enc (replicate n 0x20AC)))"] that
    by (simp add: text_char_def utf8_enc_def length_concat sum_list_replicate)
  from this [of 70000] this [of 20000] show ?thesis by (simp add: AFL_TXT_MAX_LEN_def MAX_FILE_def)
qed

text \<open>C39. The character count the UTF-8 percentage is divided by is positive for every non-empty file, so
  the division is defined; no count exceeds what it is compared with, so both percentages are at
  most 100.\<close>

theorem text_scan_safe:
  assumes "text_loop b len 0 0 0 (int len) = (ascii, utf8, chars)" and "0 < len"
  shows "0 < chars \<and> int utf8 \<le> chars \<and> chars \<le> int len \<and> ascii \<le> len"
  using ascii_count_le [OF assms(1)] assms(2) by simp

theorem text_scan_safe_witness:
  "let (ascii, utf8, chars) = text_loop [0xC3, 0xA9] 2 0 0 0 2 in 0 < chars \<and> int utf8 \<le> chars"
  using text_scan_safe [of "[0xC3, 0xA9]" 2] by (auto split: prod.split)

end
