(* ===== verification/Queue.thy ===== *)
theory Queue
  imports Coverage Rng Text
begin

unbundle bit_operations_syntax

text \<open>
  The queue of \<open>src/afl-fuzz-queue.c\<close>: appending an entry, the contest for the slots of
  \<open>top_rated\<close>, and the selection of the favored set. A \<open>struct queue_entry *\<close> is an index into
  \<open>queue_buf\<close>; a slot of \<open>top_rated\<close> holds such an index or \<open>None\<close> for \<open>NULL\<close>.

  \<open>q_wf\<close> is the invariant the code maintains: the array sizes fit the map, \<open>tc_ref\<close> of an entry
  is the number of slots it holds, and an entry that holds no slot has no \<open>trace_mini\<close>.
\<close>

section \<open>Entries\<close>

abbreviation entry :: "afl_state \<Rightarrow> nat \<Rightarrow> queue_entry" where
  "entry a i \<equiv> queue_buf a ! i"

definition upd_entry :: "nat \<Rightarrow> (queue_entry \<Rightarrow> queue_entry) \<Rightarrow> afl_state \<Rightarrow> afl_state" where
  "upd_entry i f a = a\<lparr>queue_buf := (queue_buf a)[i := f (queue_buf a ! i)]\<rparr>"

text \<open>\<open>mark_as_det_done\<close>: creating the marker file may end the process.\<close>

definition mark_as_det_done :: "bool \<Rightarrow> afl_state \<Rightarrow> nat \<Rightarrow> fatal + afl_state" where
  "mark_as_det_done create_ok a q =
     (if \<not> create_ok then Inl (FatalMsg ''Unable to create'')
      else Inr (upd_entry q (\<lambda>e. e\<lparr>q_passed_det := True\<rparr>) a))"

definition mark_as_redundant :: "afl_state \<Rightarrow> nat \<Rightarrow> bool \<Rightarrow> afl_state" where
  "mark_as_redundant a q st =
     (if st = q_fs_redundant (entry a q) then a
      else let a = upd_entry q (\<lambda>e. e\<lparr>q_fs_redundant := st\<rparr>) a;
               a = (if q_fs_redundant (entry a q) then upd_entry q (\<lambda>e. e\<lparr>q_trace_mini := None\<rparr>) a else a)
           in if st \<and> afl_disable_redundant a then upd_entry q (\<lambda>e. e\<lparr>q_disabled := True\<rparr>) a else a)"

text \<open>
  \<open>add_to_queue\<close> at time \<open>cur_time\<close>; \<open>is_text\<close> is the result of \<open>check_if_text\<close>, taken only
  in CmpLog mode. The notification of custom mutators is outside the model. Times are 64-bit
  millisecond clocks; the subtraction wraps.
\<close>

definition time_since :: "nat \<Rightarrow> nat \<Rightarrow> nat" where
  "time_since cur past = nat ((int cur - int past) mod 2 ^ 64)"

definition add_to_queue :: "bool \<Rightarrow> (queue_entry \<Rightarrow> nat) \<Rightarrow> nat \<Rightarrow> afl_state \<Rightarrow> string \<Rightarrow> nat \<Rightarrow> bool \<Rightarrow> afl_state" where
  "add_to_queue cmplog_mode is_text cur_time a fname len passed_det =
     (let q = queue_entry_zero\<lparr>q_fname := fname, q_len := len, q_depth := cur_depth a + 1,
                q_passed_det := passed_det, q_trace_mini := None, q_testcase_buf := None,
                q_mother := queue_cur a, q_weight := 1, q_perf_score := 100\<rparr>;
          a = (if q_depth q > max_depth a then a\<lparr>max_depth := q_depth q\<rparr> else a);
          a = a\<lparr>queue_top := Some (queued_items a)\<rparr>;
          a = (if q_len q > 4 then a\<lparr>ready_for_splicing_count := ready_for_splicing_count a + 1\<rparr> else a);
          a = a\<lparr>queued_items := queued_items a + 1, active_items := active_items a + 1,
                pending_not_fuzzed := pending_not_fuzzed a + 1, cycles_wo_finds := 0\<rparr>;
          q = q\<lparr>q_id := queued_items a - 1\<rparr>;
          a = (if start_time a \<noteq> 0 \<and> longest_find_time a < time_since cur_time (last_find_time a)
               then (if last_find_time a = 0
                     then a\<lparr>longest_find_time := time_since cur_time (start_time a)\<rparr>
                     else a\<lparr>longest_find_time := time_since cur_time (last_find_time a)\<rparr>)
               else a);
          a = a\<lparr>last_find_time := cur_time\<rparr>;
          q = (if cmplog_mode \<and> \<not> q_is_ascii q then q\<lparr>q_is_ascii := is_text q \<noteq> 0\<rparr> else q)
      in a\<lparr>queue_buf := queue_buf a @ [q]\<rparr>)"

section \<open>The contest for the slots\<close>

text \<open>
  The two keys of the contest. \<open>n_fuzz\<close> counts are 32-bit; \<open>exec_us * len\<close> is a 64-bit product,
  \<open>len << 2\<close> a 32-bit shift.
\<close>

definition fuzz_p2_of :: "afl_state \<Rightarrow> queue_entry \<Rightarrow> nat" where
  "fuzz_p2_of a q =
     (if sched_num (schedule a) \<ge> sched_num FAST \<and> sched_num (schedule a) < sched_num RARE then 0
      else if schedule a = RARE then unat (next_pow2 (word_of_nat (n_fuzz a (q_n_fuzz_entry q))))
      else q_fuzz_level q)"

definition fav_factor_of :: "afl_state \<Rightarrow> queue_entry \<Rightarrow> nat" where
  "fav_factor_of a q =
     (if sched_num (schedule a) \<ge> sched_num RARE \<or> fixed_seed a then (q_len q * 4) mod 2 ^ 32
      else (q_exec_us q * q_len q) mod 2 ^ 64)"

text \<open>Dropping a winner's reference, and installing the new one.\<close>

definition release_slot :: "afl_state \<Rightarrow> nat \<Rightarrow> afl_state" where
  "release_slot a w =
     (let a = upd_entry w (\<lambda>e. e\<lparr>q_tc_ref := q_tc_ref e - 1\<rparr>) a
      in if q_tc_ref (entry a w) = 0 then upd_entry w (\<lambda>e. e\<lparr>q_trace_mini := None\<rparr>) a else a)"

definition take_slot :: "nat \<Rightarrow> afl_state \<Rightarrow> nat \<Rightarrow> nat \<Rightarrow> afl_state" where
  "take_slot mini_len a q i =
     (let a = a\<lparr>top_rated := (top_rated a)[i := Some q]\<rparr>;
          a = upd_entry q (\<lambda>e. e\<lparr>q_tc_ref := q_tc_ref e + 1\<rparr>) a;
          a = (if q_trace_mini (entry a q) = None
               then upd_entry q (\<lambda>e. e\<lparr>q_trace_mini := Some (minimize_bits a (replicate mini_len 0) (trace a))\<rparr>) a
               else a)
      in a\<lparr>score_changed := True\<rparr>)"

definition contest_slot :: "nat \<Rightarrow> nat \<Rightarrow> nat \<Rightarrow> nat \<Rightarrow> afl_state \<Rightarrow> nat \<Rightarrow> afl_state" where
  "contest_slot mini_len fuzz_p2 fav_factor q a i =
     (case top_rated a ! i of
        None \<Rightarrow> take_slot mini_len a q i
      | Some w \<Rightarrow>
          if fuzz_p2 > fuzz_p2_of a (entry a w) then a
          else if fav_factor > fav_factor_of a (entry a w) then a
          else take_slot mini_len (release_slot a w) q i)"

definition update_bitmap_score :: "afl_state \<Rightarrow> nat \<Rightarrow> bool \<Rightarrow> afl_state" where
  "update_bitmap_score a q have_trace =
     (if q_disabled (entry a q) then a
      else let fuzz_p2 = fuzz_p2_of a (entry a q); fav_factor = fav_factor_of a (entry a q)
           in if have_trace
              then fold (\<lambda>i a. if trace a ! i \<noteq> 0
                               then contest_slot ((map_size (fsrv a) + 7) div 8) fuzz_p2 fav_factor q a i
                               else a) [0..<map_size (fsrv a)] a
              else a)"

definition update_bitmap_rescore :: "afl_state \<Rightarrow> nat \<Rightarrow> nat \<Rightarrow> afl_state" where
  "update_bitmap_rescore a q index =
     (if q_disabled (entry a q) then a
      else contest_slot (map_size (fsrv a) div 8) (fuzz_p2_of a (entry a q)) (fav_factor_of a (entry a q)) q a index)"

section \<open>The favored set\<close>

text \<open>One slot of the selection loop: the remaining uncovered bits and the state.\<close>

definition cull_mask :: "nat \<Rightarrow> buf \<Rightarrow> buf \<Rightarrow> buf" where
  "cull_mask len temp_v mini =
     map (\<lambda>j. if j < len \<and> mini ! j \<noteq> 0 then (temp_v ! j) AND NOT (mini ! j) else temp_v ! j) [0..<length temp_v]"

definition cull_favor :: "afl_state \<Rightarrow> nat \<Rightarrow> afl_state" where
  "cull_favor a w =
     (if \<not> q_favored (entry a w) \<and> \<not> q_disabled (entry a w)
      then let a = upd_entry w (\<lambda>e. e\<lparr>q_favored := True\<rparr>) a;
               a = a\<lparr>queued_favored := queued_favored a + 1\<rparr>
           in if \<not> q_was_fuzzed (entry a w)
              then let a = a\<lparr>pending_favored := pending_favored a + 1\<rparr>
                   in if smallest_favored a < 0 \<or> smallest_favored a > int (q_id (entry a w))
                      then a\<lparr>smallest_favored := int (q_id (entry a w))\<rparr>
                      else a
              else a
      else a)"

definition cull_step :: "nat \<Rightarrow> nat \<Rightarrow> buf \<times> afl_state \<Rightarrow> buf \<times> afl_state" where
  "cull_step len i s = (case s of (temp_v, a) \<Rightarrow>
     (case top_rated a ! i of
        None \<Rightarrow> (temp_v, a)
      | Some w \<Rightarrow>
          if (temp_v ! (i div 8)) AND push_bit (i mod 8) 1 \<noteq> 0
          then (case q_trace_mini (entry a w) of
                  None \<Rightarrow> (temp_v, a)
                | Some mini \<Rightarrow> (cull_mask len temp_v mini, cull_favor a w))
          else (temp_v, a)))"

definition cull_select :: "afl_state \<Rightarrow> buf \<times> afl_state" where
  "cull_select a =
     (let len = map_size (fsrv a) div 8;
          a = a\<lparr>score_changed := False, queued_favored := 0, pending_favored := 0,
                queue_buf := map (\<lambda>e. e\<lparr>q_favored := False\<rparr>) (queue_buf a), smallest_favored := -1\<rparr>
      in fold (cull_step len) [0..<map_size (fsrv a)] (replicate len 255, a))"

definition cull_queue :: "afl_state \<Rightarrow> afl_state" where
  "cull_queue a =
     (if \<not> score_changed a \<or> non_instrumented_mode a then a
      else let (temp_v, a) = cull_select a;
               a = fold (\<lambda>i a. if \<not> q_disabled (entry a i)
                               then mark_as_redundant a i (\<not> q_favored (entry a i)) else a)
                        [0..<queued_items a] a
           in a\<lparr>reinit_table := True\<rparr>)"

section \<open>The invariant and the contest\<close>

definition q_wf :: "afl_state \<Rightarrow> bool" where
  "q_wf a \<longleftrightarrow> maps_wf a \<and> length (top_rated a) = map_size (fsrv a) \<and>
     queued_items a = length (queue_buf a) \<and>
     (\<forall>w < length (queue_buf a). q_id (entry a w) = w) \<and>
     (\<forall>w. Some w \<in> set (top_rated a) \<longrightarrow> w < length (queue_buf a)) \<and>
     (\<forall>w < length (queue_buf a). q_tc_ref (entry a w) = count_list (top_rated a) (Some w) \<and>
        (q_tc_ref (entry a w) = 0 \<longrightarrow> q_trace_mini (entry a w) = None) \<and>
        (\<forall>m. q_trace_mini (entry a w) = Some m \<longrightarrow> length m = map_size (fsrv a) div 8))"

lemma upd_entry_simps [simp]:
  "fsrv (upd_entry i f a) = fsrv a" "top_rated (upd_entry i f a) = top_rated a"
  "queued_items (upd_entry i f a) = queued_items a" "length (queue_buf (upd_entry i f a)) = length (queue_buf a)"
  "schedule (upd_entry i f a) = schedule a" "fixed_seed (upd_entry i f a) = fixed_seed a"
  "n_fuzz (upd_entry i f a) = n_fuzz a" "afl_disable_redundant (upd_entry i f a) = afl_disable_redundant a"
  "maps_wf (upd_entry i f a) = maps_wf a"
  by (simp_all add: upd_entry_def maps_wf_def)

lemma entry_upd_entry:
  "j < length (queue_buf a) \<Longrightarrow> entry (upd_entry i f a) j = (if i = j then f (entry a j) else entry a j)"
  by (simp add: upd_entry_def nth_list_update)

lemma count_list_update:
  "i < length xs \<Longrightarrow> count_list (xs[i := y]) x + (if xs ! i = x then 1 else 0) =
     count_list xs x + (if y = x then 1 else 0)"
proof (induction xs arbitrary: i)
  case (Cons z xs)
  show ?case
  proof (cases i)
    case (Suc j)
    then show ?thesis using Cons.IH [of j] Cons.prems by (auto split: if_splits)
  qed auto
qed simp

lemma length_minimize_bits [simp]: "length (minimize_bits a dst src) = length dst"
  by (simp add: minimize_bits_def)

lemma map_size_div8: "maps_wf a \<Longrightarrow> (map_size (fsrv a) + 7) div 8 = map_size (fsrv a) div 8"
  by (auto simp: maps_wf_def fsrv_wf_def dvd_eq_mod_eq_0 [symmetric] elim!: dvdE)

lemma q_wf_D:
  assumes "q_wf a"
  shows "maps_wf a" "length (top_rated a) = map_size (fsrv a)" "queued_items a = length (queue_buf a)"
    "w < length (queue_buf a) \<Longrightarrow> q_id (entry a w) = w"
    "Some w \<in> set (top_rated a) \<Longrightarrow> w < length (queue_buf a)"
    "w < length (queue_buf a) \<Longrightarrow> q_tc_ref (entry a w) = count_list (top_rated a) (Some w)"
    "w < length (queue_buf a) \<Longrightarrow> q_tc_ref (entry a w) = 0 \<Longrightarrow> q_trace_mini (entry a w) = None"
    "w < length (queue_buf a) \<Longrightarrow> q_trace_mini (entry a w) = Some m \<Longrightarrow> length m = map_size (fsrv a) div 8"
  using assms by (auto simp: q_wf_def)

text \<open>Giving slot \<open>i\<close> to entry \<open>q\<close>, with the previous winner released: the ghost form of a won contest.\<close>

lemma q_wf_take_empty:
  assumes wf: "q_wf a" and q: "q < length (queue_buf a)" and i: "i < map_size (fsrv a)"
    and free: "top_rated a ! i = None" and n: "n = map_size (fsrv a) div 8"
  shows "q_wf (take_slot n a q i)"
proof -
  note D = q_wf_D [OF wf]
  have cnt: "count_list ((top_rated a)[i := Some q]) (Some w) = count_list (top_rated a) (Some w) + (if w = q then 1 else 0)" for w
    using count_list_update [of i "top_rated a" "Some q" "Some w"] free i D(2) by auto
  have s: "Some w \<in> set ((top_rated a)[i := Some q]) \<Longrightarrow> w < length (queue_buf a)" for w
    using D(5) q set_update_subset_insert [of "top_rated a" i "Some q"] by auto
  show ?thesis
    using wf q n s
    by (auto simp: take_slot_def Let_def q_wf_def entry_upd_entry cnt maps_wf_def upd_entry_def nth_list_update)
qed

lemma q_wf_release:
  assumes wf: "q_wf a" and i: "i < map_size (fsrv a)" and w: "top_rated a ! i = Some w"
  shows "q_wf ((release_slot a w)\<lparr>top_rated := (top_rated a)[i := None]\<rparr>)"
proof -
  note D = q_wf_D [OF wf]
  have mem: "Some w \<in> set (top_rated a)" using w i D(2) by (metis nth_mem)
  have wl: "w < length (queue_buf a)" using mem by (rule D(5))
  have cnt: "count_list ((top_rated a)[i := None]) (Some v) = count_list (top_rated a) (Some v) - (if v = w then 1 else 0)" for v
    using count_list_update [of i "top_rated a" None "Some v"] w i D(2) by auto
  have s: "Some v \<in> set ((top_rated a)[i := None]) \<Longrightarrow> v < length (queue_buf a)" for v
    using D(5) set_update_subset_insert [of "top_rated a" i None] by auto
  show ?thesis
    using wf wl s
    by (auto simp: release_slot_def Let_def q_wf_def cnt maps_wf_def upd_entry_def nth_list_update)
qed

lemma take_slot_top_rated:
  "take_slot n (a\<lparr>top_rated := (top_rated a)[i := None]\<rparr>) q i = take_slot n a q i"
  by (simp add: take_slot_def Let_def upd_entry_def minimize_bits_def)

lemma release_slot_simps [simp]:
  "fsrv (release_slot a w) = fsrv a" "top_rated (release_slot a w) = top_rated a"
  "length (queue_buf (release_slot a w)) = length (queue_buf a)"
  by (simp_all add: release_slot_def Let_def)

lemma take_slot_simps [simp]:
  "fsrv (take_slot n a q i) = fsrv a" "top_rated (take_slot n a q i) = (top_rated a)[i := Some q]"
  "length (queue_buf (take_slot n a q i)) = length (queue_buf a)"
  by (simp_all add: take_slot_def Let_def)

lemma q_wf_contest:
  assumes wf: "q_wf a" and q: "q < length (queue_buf a)" and i: "i < map_size (fsrv a)"
    and n: "n = map_size (fsrv a) div 8"
  shows "q_wf (contest_slot n p f q a i)"
proof (cases "top_rated a ! i")
  case None
  then show ?thesis using q_wf_take_empty [OF wf q i None n] by (simp add: contest_slot_def)
next
  case (Some w)
  let ?b = "(release_slot a w)\<lparr>top_rated := (top_rated a)[i := None]\<rparr>"
  have "q_wf ?b" using wf i Some by (rule q_wf_release)
  then have "q_wf (take_slot n ?b q i)"
    by (rule q_wf_take_empty) (use q i n q_wf_D(2) [OF wf] in simp_all)
  moreover have "take_slot n ?b q i = take_slot n (release_slot a w) q i"
    using take_slot_top_rated [of n "release_slot a w" i q] by simp
  ultimately show ?thesis using wf Some by (simp add: contest_slot_def)
qed

text \<open>The contest leaves alone everything it is judged by.\<close>

definition entry_keys :: "queue_entry \<Rightarrow> nat \<times> nat \<times> nat \<times> nat \<times> bool \<times> bool" where
  "entry_keys e = (q_len e, q_exec_us e, q_fuzz_level e, q_n_fuzz_entry e, q_disabled e, q_favored e)"

definition same_keys :: "afl_state \<Rightarrow> afl_state \<Rightarrow> bool" where
  "same_keys a b \<longleftrightarrow> fsrv a = fsrv b \<and> schedule a = schedule b \<and> fixed_seed a = fixed_seed b \<and> n_fuzz a = n_fuzz b \<and>
     map entry_keys (queue_buf a) = map entry_keys (queue_buf b)"

lemma same_keys_entry:
  assumes "same_keys a b" "w < length (queue_buf b)"
  shows "entry_keys (entry a w) = entry_keys (entry b w)"
proof -
  have m: "map entry_keys (queue_buf a) = map entry_keys (queue_buf b)" using assms(1) by (simp add: same_keys_def)
  then have "length (queue_buf a) = length (queue_buf b)" by (rule map_eq_imp_length_eq)
  then show ?thesis using arg_cong [OF m, of "\<lambda>l. l ! w"] assms(2) by simp
qed

lemma same_keys_length: "same_keys a b \<Longrightarrow> length (queue_buf a) = length (queue_buf b)"
  unfolding same_keys_def by (blast dest: map_eq_imp_length_eq)

lemma map_update_same: "g (f (xs ! i)) = g (xs ! i) \<Longrightarrow> map g (xs[i := f (xs ! i)]) = map g xs"
  by (metis list_update_id map_update)

lemma same_keys_refl [simp]: "same_keys a a"
  by (simp add: same_keys_def)

lemma same_keys_trans: "same_keys a b \<Longrightarrow> same_keys b c \<Longrightarrow> same_keys a c"
  by (simp add: same_keys_def)

lemma same_keys_upd [simp]:
  "same_keys (upd_entry i (\<lambda>e. e\<lparr>q_tc_ref := g e\<rparr>) a) b = same_keys a b"
  "same_keys (upd_entry i (\<lambda>e. e\<lparr>q_trace_mini := h e\<rparr>) a) b = same_keys a b"
  "same_keys (a\<lparr>top_rated := t\<rparr>) b = same_keys a b"
  "same_keys (a\<lparr>score_changed := c\<rparr>) b = same_keys a b"
  by (simp_all add: same_keys_def upd_entry_def map_update_same entry_keys_def)

lemma same_keys_contest: "same_keys (contest_slot n p f q a i) a"
  by (simp add: contest_slot_def take_slot_def release_slot_def Let_def split: option.split)

lemma same_keys_fuzz_p2: "same_keys a b \<Longrightarrow> w < length (queue_buf b) \<Longrightarrow> fuzz_p2_of a (entry a w) = fuzz_p2_of b (entry b w)"
  using same_keys_entry [of a b w] by (simp add: same_keys_def fuzz_p2_of_def entry_keys_def)

lemma same_keys_fav: "same_keys a b \<Longrightarrow> w < length (queue_buf b) \<Longrightarrow> fav_factor_of a (entry a w) = fav_factor_of b (entry b w)"
  using same_keys_entry [of a b w] by (simp add: same_keys_def fav_factor_of_def entry_keys_def)

definition keeps_slot :: "afl_state \<Rightarrow> nat \<Rightarrow> nat \<Rightarrow> bool" where
  "keeps_slot a q w \<longleftrightarrow> fuzz_p2_of a (entry a w) < fuzz_p2_of a (entry a q) \<or>
     fav_factor_of a (entry a w) < fav_factor_of a (entry a q)"

definition contest_result :: "afl_state \<Rightarrow> nat \<Rightarrow> nat \<Rightarrow> nat option" where
  "contest_result a q i = (case top_rated a ! i of None \<Rightarrow> Some q | Some w \<Rightarrow> if keeps_slot a q w then Some w else Some q)"

lemma contest_top_rated:
  assumes "q_wf b" "same_keys a b" "q < length (queue_buf b)" "i < map_size (fsrv b)" "length (top_rated a) = map_size (fsrv b)"
    "top_rated a ! i = top_rated b ! i"
  shows "top_rated (contest_slot n (fuzz_p2_of b (entry b q)) (fav_factor_of b (entry b q)) q a i) =
    (top_rated a)[i := contest_result b q i]"
proof (cases "top_rated b ! i")
  case None
  then show ?thesis using assms by (simp add: contest_slot_def contest_result_def)
next
  case (Some w)
  then have w: "w < length (queue_buf b)"
    using assms(1,4) by (metis nth_mem q_wf_D(2,5))
  have "(top_rated a)[i := Some w] = top_rated a" using assms(6) Some by (metis list_update_id)
  then show ?thesis
    using Some assms same_keys_fuzz_p2 [OF assms(2) w] same_keys_fav [OF assms(2) w]
    by (auto simp: contest_slot_def contest_result_def keeps_slot_def)
qed

definition contest_loop :: "afl_state \<Rightarrow> nat \<Rightarrow> nat \<Rightarrow> afl_state" where
  "contest_loop a q n = fold (\<lambda>i b. if trace b ! i \<noteq> 0
      then contest_slot ((map_size (fsrv b) + 7) div 8) (fuzz_p2_of a (entry a q)) (fav_factor_of a (entry a q)) q b i
      else b) [0..<n] a"

lemma contest_loop:
  assumes wf: "q_wf a" and q: "q < length (queue_buf a)" and n: "n \<le> map_size (fsrv a)"
  shows "q_wf (contest_loop a q n) \<and> same_keys (contest_loop a q n) a \<and>
    (\<forall>i < map_size (fsrv a). top_rated (contest_loop a q n) ! i =
       (if i < n \<and> trace a ! i \<noteq> 0 then contest_result a q i else top_rated a ! i))"
  using n
proof (induction n)
  case 0
  then show ?case using wf by (simp add: contest_loop_def)
next
  case (Suc n)
  let ?b = "contest_loop a q n"
  have wfb: "q_wf ?b" and sk: "same_keys ?b a"
    and tr: "\<forall>i < map_size (fsrv a). top_rated ?b ! i =
       (if i < n \<and> trace a ! i \<noteq> 0 then contest_result a q i else top_rated a ! i)"
    using Suc by auto
  have f: "fsrv ?b = fsrv a" using sk by (simp add: same_keys_def)
  have lq: "length (queue_buf ?b) = length (queue_buf a)" using sk by (rule same_keys_length)
  have l: "length (top_rated ?b) = map_size (fsrv a)" using q_wf_D(2) [OF wfb] f by simp
  have step: "contest_loop a q (Suc n) = (if trace a ! n \<noteq> 0
      then contest_slot (map_size (fsrv a) div 8) (fuzz_p2_of a (entry a q)) (fav_factor_of a (entry a q)) q ?b n else ?b)"
    using map_size_div8 [OF q_wf_D(1) [OF wf]] f by (simp add: contest_loop_def)
  show ?case
  proof (cases "trace a ! n = 0")
    case True
    then show ?thesis using step wfb sk tr by (auto simp: less_Suc_eq)
  next
    case False
    let ?c = "contest_slot (map_size (fsrv a) div 8) (fuzz_p2_of a (entry a q)) (fav_factor_of a (entry a q)) q ?b n"
    have "q_wf ?c" by (rule q_wf_contest [OF wfb]) (use q f lq Suc.prems in auto)
    moreover have "same_keys ?c a" using same_keys_contest sk by (rule same_keys_trans)
    moreover have "top_rated ?c = (top_rated ?b)[n := contest_result a q n]"
      by (rule contest_top_rated [OF wf sk q]) (use tr l Suc.prems in auto)
    ultimately show ?thesis
      using step False tr l Suc.prems by (auto simp: nth_list_update less_Suc_eq)
  qed
qed

section \<open>Greedy cover\<close>

definition mini_bit :: "afl_state \<Rightarrow> nat \<Rightarrow> nat \<Rightarrow> bool" where
  "mini_bit a w i = (case q_trace_mini (entry a w) of None \<Rightarrow> False | Some m \<Rightarrow> bit (m ! (i div 8)) (i mod 8))"

primrec grabbed :: "afl_state \<Rightarrow> nat \<Rightarrow> nat set" where
  "grabbed a 0 = {}"
| "grabbed a (Suc i) = (case top_rated a ! i of
     None \<Rightarrow> grabbed a i
   | Some w \<Rightarrow> if q_trace_mini (entry a w) \<noteq> None \<and> \<not> (\<exists>v \<in> grabbed a i. mini_bit a v i)
               then insert w (grabbed a i) else grabbed a i)"

lemma finite_grabbed [simp]: "finite (grabbed a n)"
  by (induction n) (auto split: option.split)

lemma grabbed_winner: "w \<in> grabbed a n \<Longrightarrow> \<exists>i < n. top_rated a ! i = Some w \<and> q_trace_mini (entry a w) \<noteq> None"
  by (induction n) (auto split: option.splits if_splits intro: less_SucI)

lemma grabbed_mono: "m \<le> n \<Longrightarrow> grabbed a m \<subseteq> grabbed a n"
proof (induction n)
  case (Suc n)
  have "grabbed a n \<subseteq> grabbed a (Suc n)" by (auto split: option.split)
  with Suc show ?case by (cases "m = Suc n") auto
qed simp

lemma grabbed_covers:
  assumes "i < n" "top_rated a ! i = Some w" "mini_bit a w i"
  shows "\<exists>v \<in> grabbed a n. mini_bit a v i"
proof -
  have "\<exists>v \<in> grabbed a (Suc i). mini_bit a v i"
    using assms(2,3) by (auto simp: mini_bit_def split: option.splits)
  then show ?thesis using grabbed_mono [of "Suc i" n a] assms(1) by (meson Suc_leI subsetD)
qed

lemma length_cull_mask [simp]: "length (cull_mask len t m) = length t"
  by (simp add: cull_mask_def)

lemma cull_mask_bit:
  assumes "length t = len" "length m = len" "j < 8 * len"
  shows "bit (cull_mask len t m ! (j div 8)) (j mod 8) \<longleftrightarrow>
    bit (t ! (j div 8)) (j mod 8) \<and> \<not> bit (m ! (j div 8)) (j mod 8)"
proof -
  have "j div 8 < len" using assms(3) by linarith
  then show ?thesis using assms by (auto simp: cull_mask_def bit_simps)
qed

lemma test_bit_and: "(x :: u8) AND push_bit n 1 \<noteq> 0 \<longleftrightarrow> bit x n"
proof
  assume "bit x n"
  then have "bit (x AND push_bit n 1) n" using bit_imp_le_length [of x n] by (simp add: bit_simps)
  then show "x AND push_bit n 1 \<noteq> 0" by (metis bit_0_eq bot_apply bot_bool_def)
next
  assume "x AND push_bit n 1 \<noteq> 0"
  moreover have "\<not> bit x n \<Longrightarrow> x AND push_bit n 1 = 0" by (rule bit_word_eqI) (auto simp: bit_simps)
  ultimately show "bit x n" by blast
qed

text \<open>The state of the selection after \<open>n\<close> slots, in terms of the greedy set.\<close>

definition favored_set :: "afl_state \<Rightarrow> nat \<Rightarrow> nat set" where
  "favored_set a n = {w \<in> grabbed a n. \<not> q_disabled (entry a w)}"

definition pending_set :: "afl_state \<Rightarrow> nat \<Rightarrow> nat set" where
  "pending_set a n = {w \<in> favored_set a n. \<not> q_was_fuzzed (entry a w)}"

definition favor :: "nat set \<Rightarrow> queue_entry list \<Rightarrow> queue_entry list" where
  "favor F qs = map (\<lambda>i. (qs ! i)\<lparr>q_favored := i \<in> F\<rparr>) [0..<length qs]"

definition culled :: "afl_state \<Rightarrow> nat \<Rightarrow> afl_state" where
  "culled a n = a\<lparr>score_changed := False, queued_favored := card (favored_set a n),
     pending_favored := card (pending_set a n), queue_buf := favor (favored_set a n) (queue_buf a),
     smallest_favored := (if pending_set a n = {} then -1 else int (Min (pending_set a n)))\<rparr>"

definition uncovered :: "afl_state \<Rightarrow> nat \<Rightarrow> buf \<Rightarrow> bool" where
  "uncovered a n t \<longleftrightarrow> length t = map_size (fsrv a) div 8 \<and>
     (\<forall>j < map_size (fsrv a). bit (t ! (j div 8)) (j mod 8) \<longleftrightarrow> \<not> (\<exists>v \<in> grabbed a n. mini_bit a v j))"

lemma fsrv_culled [simp]: "fsrv (culled a n) = fsrv a"
  by (simp add: culled_def)

lemma finite_favored [simp]: "finite (favored_set a n)" "finite (pending_set a n)"
  by (simp_all add: favored_set_def pending_set_def)

lemma favor_nth [simp]: "i < length qs \<Longrightarrow> favor F qs ! i = (qs ! i)\<lparr>q_favored := i \<in> F\<rparr>"
  by (simp add: favor_def)

lemma length_favor [simp]: "length (favor F qs) = length qs"
  by (simp add: favor_def)

lemma favor_none: "favor {} qs = map (\<lambda>e. e\<lparr>q_favored := False\<rparr>) qs"
  by (rule nth_equalityI) simp_all

lemma favor_insert:
  "w < length qs \<Longrightarrow> (favor F qs)[w := (qs ! w)\<lparr>q_favored := True\<rparr>] = favor (insert w F) qs"
  by (rule nth_equalityI) (auto simp: nth_list_update)

lemma cull_favor_culled:
  assumes wf: "q_wf a" and w: "w < length (queue_buf a)"
    and S: "favored_set a (Suc n) = (if q_disabled (entry a w) then favored_set a n else insert w (favored_set a n))"
  shows "cull_favor (culled a n) w = culled a (Suc n)"
proof -
  let ?F = "favored_set a n" and ?P = "pending_set a n"
  have e: "entry (culled a n) w = (entry a w)\<lparr>q_favored := w \<in> ?F\<rparr>" using w by (simp add: culled_def)
  have id: "q_id (entry a w) = w" using wf w by (rule q_wf_D)
  show ?thesis
  proof (cases "w \<in> ?F \<or> q_disabled (entry a w)")
    case True
    then have "favored_set a (Suc n) = ?F" using S by (auto simp: favored_set_def)
    then show ?thesis using True e by (auto simp: cull_favor_def culled_def pending_set_def)
  next
    case False
    then have F: "favored_set a (Suc n) = insert w ?F" and nF: "w \<notin> ?F" using S by auto
    have P: "pending_set a (Suc n) = (if q_was_fuzzed (entry a w) then ?P else insert w ?P)" and nP: "w \<notin> ?P"
      using nF by (auto simp: pending_set_def F)
    have m: "?P \<noteq> {} \<Longrightarrow> Min (insert w ?P) = min w (Min ?P)" by simp
    have step: "cull_favor (culled a n) w =
        (let b = (upd_entry w (\<lambda>e. e\<lparr>q_favored := True\<rparr>) (culled a n))\<lparr>queued_favored := card ?F + 1\<rparr>
         in if q_was_fuzzed (entry a w) then b
            else b\<lparr>pending_favored := card ?P + 1, smallest_favored := (if ?P = {} then int w else int (min w (Min ?P)))\<rparr>)"
    proof -
      define b where "b = culled a n"
      have b: "w < length (queue_buf b)" "entry b w = (entry a w)\<lparr>q_favored := False\<rparr>" "queued_favored b = card ?F"
        "pending_favored b = card ?P" "smallest_favored b = (if ?P = {} then -1 else int (Min ?P))"
        using w nF by (simp_all add: b_def culled_def)
      have f: "queued_favored (upd_entry w g b) = queued_favored b" "pending_favored (upd_entry w g b) = pending_favored b"
        "smallest_favored (upd_entry w g b) = smallest_favored b" for g by (simp_all add: upd_entry_def)
      have v: "(if ?P = {} then int w else int (min w (Min ?P))) =
          (if smallest_favored b < 0 \<or> smallest_favored b > int w then int w else smallest_favored b)"
        using b(5) by (cases "?P = {}") (simp_all add: min_def del: Min_less_iff Min_le_iff Min_gr_iff Min_ge_iff)
      have keep: "c\<lparr>smallest_favored := smallest_favored c\<rparr> = c" for c :: afl_state by simp
      let ?b = "(upd_entry w (\<lambda>e. e\<lparr>q_favored := True\<rparr>) b)\<lparr>queued_favored := card ?F + 1\<rparr>"
      have "cull_favor b w = (if q_was_fuzzed (entry a w) then ?b else
          let c = ?b\<lparr>pending_favored := card ?P + 1\<rparr>
          in if smallest_favored b < 0 \<or> smallest_favored b > int w then c\<lparr>smallest_favored := int w\<rparr> else c)"
        using False b(1-4) id by (simp add: cull_favor_def Let_def entry_upd_entry f)
      also have "\<dots> = (if q_was_fuzzed (entry a w) then ?b else
          ?b\<lparr>pending_favored := card ?P + 1, smallest_favored := (if ?P = {} then int w else int (min w (Min ?P)))\<rparr>)"
        unfolding v using keep [of "?b\<lparr>pending_favored := card ?P + 1\<rparr>"] by (simp add: Let_def f)
      finally show ?thesis by (simp only: b_def Let_def)
    qed
    show ?thesis
    proof (cases "q_was_fuzzed (entry a w)")
      case True
      then show ?thesis unfolding step using w nF P
        by (simp add: Let_def) (simp add: culled_def F upd_entry_def favor_insert)
    next
      case fz: False
      have ne: "pending_set a (Suc n) \<noteq> {}" and mn: "Min (pending_set a (Suc n)) = (if ?P = {} then w else min w (Min ?P))"
        and cd: "card (pending_set a (Suc n)) = card ?P + 1"
        using P fz nP by simp_all
      show ?thesis unfolding step using fz w nF ne mn cd
        by (simp add: Let_def) (simp add: culled_def F upd_entry_def favor_insert)
    qed
  qed
qed

lemma cull_step_culled:
  assumes wf: "q_wf a" and n: "n < map_size (fsrv a)" and t: "uncovered a n t"
  shows "\<exists>t'. cull_step (map_size (fsrv a) div 8) n (t, culled a n) = (t', culled a (Suc n)) \<and> uncovered a (Suc n) t'"
proof (cases "top_rated a ! n")
  case None
  then show ?thesis using t
    by (intro exI [of _ t]) (auto simp: cull_step_def culled_def uncovered_def favored_set_def pending_set_def)
next
  case (Some w)
  have w: "w < length (queue_buf a)" using wf n Some by (metis nth_mem q_wf_D(2,5))
  have tr: "top_rated (culled a n) = top_rated a" by (simp add: culled_def)
  have mini: "q_trace_mini (entry (culled a n) w) = q_trace_mini (entry a w)" using w by (simp add: culled_def)
  have bit: "t ! (n div 8) AND push_bit (n mod 8) 1 \<noteq> 0 \<longleftrightarrow> \<not> (\<exists>v \<in> grabbed a n. mini_bit a v n)"
    unfolding test_bit_and using t n by (simp add: uncovered_def)
  show ?thesis
  proof (cases "q_trace_mini (entry a w) \<noteq> None \<and> \<not> (\<exists>v \<in> grabbed a n. mini_bit a v n)")
    case False
    then have g: "grabbed a (Suc n) = grabbed a n" using Some by auto
    then have "culled a (Suc n) = culled a n" "uncovered a (Suc n) t"
      using t by (simp_all add: culled_def favored_set_def pending_set_def uncovered_def)
    moreover have "cull_step (map_size (fsrv a) div 8) n (t, culled a n) = (t, culled a n)"
      using False Some bit by (auto simp: cull_step_def tr mini split: option.split)
    ultimately show ?thesis by auto
  next
    case True
    then obtain m where m: "q_trace_mini (entry a w) = Some m" by auto
    have lm: "length m = map_size (fsrv a) div 8" using wf w m by (rule q_wf_D)
    have g: "grabbed a (Suc n) = insert w (grabbed a n)" using Some True by auto
    have S: "favored_set a (Suc n) = (if q_disabled (entry a w) then favored_set a n else insert w (favored_set a n))"
      by (auto simp: favored_set_def g simp del: grabbed.simps)
    let ?t = "cull_mask (map_size (fsrv a) div 8) t m"
    have "8 * (map_size (fsrv a) div 8) = map_size (fsrv a)"
      using q_wf_D(1) [OF wf] by (auto simp: maps_wf_def fsrv_wf_def dvd_eq_mod_eq_0 [symmetric] elim!: dvdE)
    then have "uncovered a (Suc n) ?t"
      using t lm by (auto simp: uncovered_def cull_mask_bit g mini_bit_def m simp del: grabbed.simps)
    moreover have "cull_step (map_size (fsrv a) div 8) n (t, culled a n) = (?t, culled a (Suc n))"
      using True Some bit m cull_favor_culled [OF wf w S] by (auto simp: cull_step_def tr mini)
    ultimately show ?thesis by auto
  qed
qed

lemma cull_select_eq:
  assumes wf: "q_wf a"
  shows "\<exists>t. cull_select a = (t, culled a (map_size (fsrv a))) \<and> uncovered a (map_size (fsrv a)) t"
proof -
  let ?len = "map_size (fsrv a) div 8"
  have init: "a\<lparr>score_changed := False, queued_favored := 0, pending_favored := 0,
      queue_buf := map (\<lambda>e. e\<lparr>q_favored := False\<rparr>) (queue_buf a), smallest_favored := -1\<rparr> = culled a 0"
    by (simp add: culled_def favored_set_def pending_set_def favor_none)
  have "uncovered a 0 (replicate ?len 255)"
    unfolding uncovered_def
  proof (intro conjI allI impI)
    fix j assume "j < map_size (fsrv a)"
    moreover have "8 * ?len = map_size (fsrv a)"
      using q_wf_D(1) [OF wf] by (auto simp: maps_wf_def fsrv_wf_def dvd_eq_mod_eq_0 [symmetric] elim!: dvdE)
    ultimately have "j div 8 < ?len" by linarith
    moreover have "bit (255 :: u8) (j mod 8)"
    proof -
      have "(255 :: u8) = mask 8" by (simp add: mask_eq_exp_minus_1)
      then show ?thesis by (simp only: bit_mask_iff) simp
    qed
    ultimately show "bit (replicate ?len (255 :: u8) ! (j div 8)) (j mod 8) \<longleftrightarrow> \<not> (\<exists>v \<in> grabbed a 0. mini_bit a v j)"
      by (simp add: bit_simps)
  qed simp
  then have "\<exists>t. fold (cull_step ?len) [0..<n] (replicate ?len 255, culled a 0) = (t, culled a n) \<and> uncovered a n t"
    if "n \<le> map_size (fsrv a)" for n
    using that
  proof (induction n)
    case (Suc n)
    then obtain t where "fold (cull_step ?len) [0..<n] (replicate ?len 255, culled a 0) = (t, culled a n)" "uncovered a n t"
      by auto
    with cull_step_culled [OF wf, of n t] Suc.prems show ?case by auto
  qed auto
  then show ?thesis unfolding cull_select_def Let_def init by simp
qed

definition mark_entry :: "bool \<Rightarrow> bool \<Rightarrow> queue_entry \<Rightarrow> queue_entry" where
  "mark_entry dis st e =
     (if st = q_fs_redundant e then e
      else let e = e\<lparr>q_fs_redundant := st\<rparr>; e = (if st then e\<lparr>q_trace_mini := None\<rparr> else e)
           in if st \<and> dis then e\<lparr>q_disabled := True\<rparr> else e)"

lemma upd_entry_upd_entry: "upd_entry i f (upd_entry i g a) = upd_entry i (\<lambda>e. f (g e)) a"
  by (cases "i < length (queue_buf a)") (simp_all add: upd_entry_def list_update_beyond)

lemma upd_entry_cong: "f (entry a i) = g (entry a i) \<Longrightarrow> upd_entry i f a = upd_entry i g a"
  by (simp add: upd_entry_def)

lemma upd_entry_id: "f (entry a i) = entry a i \<Longrightarrow> upd_entry i f a = a"
  by (simp add: upd_entry_def)

lemma mark_as_redundant_eq:
  assumes "q < length (queue_buf a)"
  shows "mark_as_redundant a q st = upd_entry q (mark_entry (afl_disable_redundant a) st) a"
proof (cases "st = q_fs_redundant (entry a q)")
  case True
  then show ?thesis by (simp add: mark_as_redundant_def upd_entry_id mark_entry_def)
next
  case False
  then show ?thesis using assms
    by (auto simp: mark_as_redundant_def Let_def entry_upd_entry upd_entry_upd_entry mark_entry_def intro!: upd_entry_cong)
qed

definition mark_all :: "bool \<Rightarrow> queue_entry \<Rightarrow> queue_entry" where
  "mark_all dis e = (if \<not> q_disabled e then mark_entry dis (\<not> q_favored e) e else e)"

lemma fold_mark:
  assumes "n \<le> length (queue_buf a)"
  shows "fold (\<lambda>i a. if \<not> q_disabled (entry a i) then mark_as_redundant a i (\<not> q_favored (entry a i)) else a) [0..<n] a =
    a\<lparr>queue_buf := map (mark_all (afl_disable_redundant a)) (take n (queue_buf a)) @ drop n (queue_buf a)\<rparr>"
  using assms
proof (induction n)
  case (Suc n)
  let ?F = "\<lambda>i a. if \<not> q_disabled (entry a i) then mark_as_redundant a i (\<not> q_favored (entry a i)) else a"
  let ?g = "mark_all (afl_disable_redundant a)"
  let ?b = "a\<lparr>queue_buf := map ?g (take n (queue_buf a)) @ drop n (queue_buf a)\<rparr>"
  have n: "n < length (queue_buf a)" using Suc.prems by simp
  have e: "entry ?b n = entry a n" using n by (simp add: nth_append)
  have l: "n < length (queue_buf ?b)" using n by simp
  have "(if \<not> q_disabled (entry ?b n) then mark_as_redundant ?b n (\<not> q_favored (entry ?b n)) else ?b) = upd_entry n ?g ?b"
    using mark_as_redundant_eq [OF l] by (auto simp: mark_all_def intro!: upd_entry_cong upd_entry_id [symmetric])
  also have "\<dots> = a\<lparr>queue_buf := map ?g (take (Suc n) (queue_buf a)) @ drop (Suc n) (queue_buf a)\<rparr>"
    using n e by (simp add: upd_entry_def list_update_append take_Suc_conv_app_nth Cons_nth_drop_Suc [symmetric])
  finally have step: "?F n ?b = a\<lparr>queue_buf := map ?g (take (Suc n) (queue_buf a)) @ drop (Suc n) (queue_buf a)\<rparr>" .
  have IH: "fold ?F [0..<n] a = ?b" using Suc by simp
  have "fold ?F [0..<Suc n] a = ?F n ?b"
    by (subst upt_Suc_append, simp, subst fold_append, simp only: comp_apply IH fold.simps id_apply)
  then show ?case unfolding step .
qed simp

lemma cull_queue_eq:
  assumes "q_wf a" "score_changed a" "\<not> non_instrumented_mode a"
  shows "cull_queue a = (culled a (map_size (fsrv a)))\<lparr>
     queue_buf := map (mark_all (afl_disable_redundant a)) (favor (favored_set a (map_size (fsrv a))) (queue_buf a)),
     reinit_table := True\<rparr>"
proof -
  let ?c = "culled a (map_size (fsrv a))"
  obtain t where t: "cull_select a = (t, ?c)" using cull_select_eq [OF assms(1)] by blast
  have c: "queued_items ?c = length (queue_buf ?c)" "afl_disable_redundant ?c = afl_disable_redundant a"
    "queue_buf ?c = favor (favored_set a (map_size (fsrv a))) (queue_buf a)"
    using q_wf_D(3) [OF assms(1)] by (simp_all add: culled_def)
  show ?thesis
    using assms(2,3) fold_mark [of "queued_items ?c" ?c] c by (simp add: cull_queue_def t)
qed

lemma mark_all_simps [simp]:
  "q_favored (mark_all d e) = q_favored e" "q_id (mark_all d e) = q_id e" "q_tc_ref (mark_all d e) = q_tc_ref e"
  "q_was_fuzzed (mark_all d e) = q_was_fuzzed e"
  "q_trace_mini (mark_all d e) = (if \<not> q_disabled e \<and> \<not> q_favored e \<and> \<not> q_fs_redundant e then None else q_trace_mini e)"
  "q_fs_redundant (mark_all d e) = (if q_disabled e then q_fs_redundant e else \<not> q_favored e)"
  by (simp_all add: mark_all_def mark_entry_def Let_def)

lemma q_wf_cull_queue:
  assumes wf: "q_wf a"
  shows "q_wf (cull_queue a)"
proof (cases "score_changed a \<and> \<not> non_instrumented_mode a")
  case False
  then have "cull_queue a = a" by (auto simp: cull_queue_def)
  then show ?thesis using wf by simp
next
  case True
  let ?b = "cull_queue a"
  have b: "fsrv ?b = fsrv a" "virgin_bits ?b = virgin_bits a" "virgin_tmout ?b = virgin_tmout a" "virgin_crash ?b = virgin_crash a"
    "top_rated ?b = top_rated a" "queued_items ?b = queued_items a"
    and q: "queue_buf ?b = map (mark_all (afl_disable_redundant a)) (favor (favored_set a (map_size (fsrv a))) (queue_buf a))"
    using cull_queue_eq [OF wf] True by (simp_all add: culled_def)
  have "maps_wf ?b" using q_wf_D(1) [OF wf] by (simp add: maps_wf_def b)
  then show ?thesis using wf by (simp add: q_wf_def b q)
qed

lemma grabbed_iff:
  "w \<in> grabbed a n \<longleftrightarrow> (\<exists>i < n. top_rated a ! i = Some w \<and> q_trace_mini (entry a w) \<noteq> None \<and>
     \<not> (\<exists>v \<in> grabbed a i. mini_bit a v i))"
  by (induction n) (auto simp: less_Suc_eq split: option.split)

lemma q_wf_add_to_queue:
  assumes "q_wf a"
  shows "q_wf (add_to_queue c t now a fname len det)"
proof -
  let ?b = "add_to_queue c t now a fname len det"
  have b: "fsrv ?b = fsrv a" "virgin_bits ?b = virgin_bits a" "virgin_tmout ?b = virgin_tmout a" "virgin_crash ?b = virgin_crash a"
    "top_rated ?b = top_rated a" "queued_items ?b = queued_items a + 1"
    by (simp_all add: add_to_queue_def Let_def)
  obtain e where e: "queue_buf ?b = queue_buf a @ [e]" "q_id e = queued_items a" "q_tc_ref e = 0" "q_trace_mini e = None"
    by (simp add: add_to_queue_def Let_def queue_entry_zero_def)
  have mw: "maps_wf ?b" using q_wf_D(1) [OF assms] by (simp add: maps_wf_def b)
  have "count_list (top_rated a) (Some (length (queue_buf a))) = 0"
    using q_wf_D(5) [OF assms, of "length (queue_buf a)"] by (auto simp: count_list_0_iff)
  with assms mw show ?thesis
    unfolding q_wf_def b e by (auto simp: nth_append e less_Suc_eq)
qed

text \<open>Entries other than \<open>w\<close> are scored on traces of their own.\<close>

definition rescored :: "(buf \<times> nat) list \<Rightarrow> afl_state \<Rightarrow> afl_state" where
  "rescored vs = fold (\<lambda>(t, v) a. update_bitmap_score (set_trace t a) v True) vs"

definition forgotten :: "nat \<Rightarrow> nat \<Rightarrow> nat \<Rightarrow> afl_state \<Rightarrow> bool" where
  "forgotten sz n w a \<longleftrightarrow> q_wf a \<and> map_size (fsrv a) = sz \<and> length (queue_buf a) = n \<and> w < n \<and>
     q_trace_mini (entry a w) = None \<and> \<not> q_favored (entry a w)"

lemma q_wf_set_trace: "q_wf a \<Longrightarrow> length t = map_size (fsrv a) \<Longrightarrow> q_wf (set_trace t a)"
  using maps_wf_set_trace [of a t] by (simp add: q_wf_def)

lemma update_bitmap_score_loop:
  "\<not> q_disabled (entry a q) \<Longrightarrow> update_bitmap_score a q True = contest_loop a q (map_size (fsrv a))"
  by (simp add: update_bitmap_score_def contest_loop_def Let_def)

lemma mini_None_contest:
  assumes "w \<noteq> q" "w < length (queue_buf a)" "q_trace_mini (entry a w) = None"
  shows "q_trace_mini (entry (contest_slot n p f q a i) w) = None"
  using assms by (auto simp: contest_slot_def take_slot_def release_slot_def Let_def entry_upd_entry split: option.split)

lemma mini_None_contest_loop:
  assumes "w \<noteq> q" "w < length (queue_buf a)" "q_trace_mini (entry a w) = None"
  shows "length (queue_buf (contest_loop a q n)) = length (queue_buf a) \<and>
    q_trace_mini (entry (contest_loop a q n) w) = None"
proof (induction n)
  case 0
  then show ?case using assms by (simp add: contest_loop_def)
next
  case (Suc n)
  have l: "length (queue_buf (contest_slot m p f q b n)) = length (queue_buf b)" for m p f b
    by (rule same_keys_length) (rule same_keys_contest)
  have "contest_loop a q (Suc n) = (let b = contest_loop a q n in if trace b ! n \<noteq> 0
      then contest_slot ((map_size (fsrv b) + 7) div 8) (fuzz_p2_of a (entry a q)) (fav_factor_of a (entry a q)) q b n
      else b)"
    by (simp add: contest_loop_def Let_def)
  then show ?case using Suc mini_None_contest [OF assms(1)] assms(2) l by (auto simp: Let_def)
qed

lemma forgotten_score:
  assumes "forgotten sz n w a" "length t = sz" "v < n" "v \<noteq> w"
  shows "forgotten sz n w (update_bitmap_score (set_trace t a) v True)"
proof -
  let ?a = "set_trace t a"
  have f: "forgotten sz n w ?a" using assms(1,2) q_wf_set_trace by (simp add: forgotten_def)
  show ?thesis
  proof (cases "q_disabled (entry ?a v)")
    case True
    then show ?thesis using f by (simp add: update_bitmap_score_def)
  next
    case False
    let ?b = "contest_loop ?a v (map_size (fsrv ?a))"
    have eq: "update_bitmap_score ?a v True = ?b"
      using False by (rule update_bitmap_score_loop)
    have v: "v < length (queue_buf ?a)" "w < length (queue_buf ?a)" using f assms(3) by (simp_all add: forgotten_def)
    have b: "q_wf ?b" "same_keys ?b ?a"
      using contest_loop [of ?a v, OF _ v(1) order_refl] f by (simp_all add: forgotten_def)
    have "q_favored (entry ?b w) = q_favored (entry ?a w)"
      using same_keys_entry [OF b(2) v(2)] by (simp add: entry_keys_def)
    moreover have "fsrv ?b = fsrv ?a" using b(2) by (simp add: same_keys_def)
    ultimately show ?thesis
      unfolding eq using f b(1) mini_None_contest_loop [of w v ?a] assms(4) v(2) by (auto simp: forgotten_def)
  qed
qed

lemma forgotten_rescored:
  assumes "forgotten sz n w a" "\<forall>(t, v) \<in> set vs. length t = sz \<and> v < n \<and> v \<noteq> w"
  shows "forgotten sz n w (rescored vs a)"
  using assms unfolding rescored_def by (induction vs arbitrary: a) (auto intro: forgotten_score)

lemma forgotten_cull:
  assumes "forgotten sz n w a"
  shows "\<not> q_favored (entry (cull_queue (a\<lparr>score_changed := True\<rparr>)) w)"
proof (cases "non_instrumented_mode a")
  case True
  then show ?thesis using assms by (simp add: cull_queue_def forgotten_def)
next
  case False
  let ?a = "a\<lparr>score_changed := True\<rparr>"
  have "q_wf a" using assms by (simp add: forgotten_def)
  then have a: "q_wf ?a" by (simp add: q_wf_def maps_wf_def)
  have w: "w < length (queue_buf ?a)" "q_trace_mini (entry ?a w) = None"
    using assms by (simp_all add: forgotten_def)
  have "w \<notin> favored_set ?a (map_size (fsrv ?a))"
    using grabbed_winner [of w ?a] w(2) by (auto simp: favored_set_def)
  then show ?thesis
    using cull_queue_eq [OF a] False w(1) by (simp add: culled_def)
qed

lemma q_wf_init: "q_wf (campaign_start sz)"
  using maps_wf_init [of sz] by (simp add: q_wf_def) (simp add: campaign_start_eq)

section \<open>Properties\<close>

text \<open>C3. \<open>update_bitmap_score\<close> decides every slot the trace hits by the contest and touches no other:
  the sitting winner keeps the slot only if it has been fuzzed less or has the smaller
  time-size product; otherwise the new entry takes it. Reference counts stay equal to the number
  of slots held.\<close>

theorem update_bitmap_score_contest:
  assumes "q_wf a" and "q < length (queue_buf a)" and "\<not> q_disabled (entry a q)"
  shows "q_wf (update_bitmap_score a q True) \<and>
    (\<forall>i < map_size (fsrv a). top_rated (update_bitmap_score a q True) ! i =
       (if trace a ! i \<noteq> 0 then contest_result a q i else top_rated a ! i))"
proof -
  have "update_bitmap_score a q True = contest_loop a q (map_size (fsrv a))"
    using assms(3) by (simp add: update_bitmap_score_def contest_loop_def Let_def)
  then show ?thesis using contest_loop [OF assms(1,2) order_refl] by auto
qed

definition one_entry :: "nat \<Rightarrow> afl_state" where
  "one_entry sz = add_to_queue False (\<lambda>_. 0) 0 (campaign_start sz) ''id:0'' 10 False"

lemma one_entry_wf: "q_wf (one_entry sz)"
  unfolding one_entry_def by (intro q_wf_add_to_queue q_wf_init)

lemma one_entry_simps:
  "length (queue_buf (one_entry sz)) = 1" "\<not> q_disabled (entry (one_entry sz) 0)"
  "top_rated (one_entry sz) = replicate (64 * ((sz + 63) div 64)) None"
  "fsrv (one_entry sz) = fsrv (campaign_start sz)"
  by (simp_all add: one_entry_def add_to_queue_def Let_def queue_entry_zero_def) (simp_all add: campaign_start_eq)

definition runner_up :: afl_state where
  "runner_up = (campaign_start 64)\<lparr>score_changed := True, queued_items := 2,
     top_rated := [Some 0, Some 1] @ replicate 62 None,
     queue_buf := [queue_entry_zero\<lparr>q_id := 0, q_tc_ref := 1, q_trace_mini := Some ([3] @ replicate 7 0)\<rparr>,
                   queue_entry_zero\<lparr>q_id := 1, q_tc_ref := 1, q_trace_mini := Some ([2] @ replicate 7 0)\<rparr>]\<rparr>"

lemma runner_up_facts:
  "q_wf runner_up" "1 \<notin> grabbed runner_up 64" "score_changed runner_up" "\<not> non_instrumented_mode runner_up"
  "map_size (fsrv runner_up) = 64" "top_rated runner_up ! 1 = Some 1"
  "\<not> q_disabled (entry runner_up 1)" "\<not> q_fs_redundant (entry runner_up 1)"
proof -
  have m: "maps_wf runner_up" using maps_wf_init [of 64] by (simp add: runner_up_def maps_wf_def)
  have c: "count_list (replicate k None) (Some w) = 0" for k and w :: nat by (induction k) simp_all
  show "q_wf runner_up"
    using m by (simp add: q_wf_def) (auto simp: runner_up_def less_Suc_eq numeral_2_eq_2 queue_entry_zero_def c)
  have tr: "top_rated runner_up = [Some 0, Some 1] @ replicate 62 None"
    and q0: "q_trace_mini (entry runner_up 0) = Some ([3] @ replicate 7 0)" by (simp_all add: runner_up_def)
  have "top_rated runner_up ! i = Some 1 \<Longrightarrow> i < 64 \<Longrightarrow> i = 1" for i
    by (auto simp: tr nth_append nth_Cons' split: if_splits)
  moreover have "0 \<in> grabbed runner_up 1" by (simp add: tr q0)
  moreover have "mini_bit runner_up 0 1" by (simp add: mini_bit_def q0 bit_numeral_rec)
  ultimately show "1 \<notin> grabbed runner_up 64" using grabbed_iff [of 1 runner_up 64] by metis
qed (simp_all add: runner_up_def queue_entry_zero_def, simp add: campaign_start_eq)

theorem update_bitmap_score_contest_witness:
  "top_rated (update_bitmap_score (set_trace (replicate 64 1) (one_entry 64)) 0 True) ! 5 = Some 0 \<and>
   top_rated runner_up ! 1 = Some 1 \<and>
   top_rated (update_bitmap_score (set_trace (replicate 64 1) runner_up) 0 True) ! 1 = Some 0"
proof -
  have r: "\<forall>i < map_size (fsrv a). top_rated (update_bitmap_score (set_trace (replicate 64 1) a) 0 True) ! i = contest_result (set_trace (replicate 64 1) a) 0 i"
    if "q_wf a" "map_size (fsrv a) = 64" "0 < length (queue_buf a)" "\<not> q_disabled (entry a 0)" for a
  proof -
    have "q_wf (set_trace (replicate 64 1) a)" by (rule q_wf_set_trace) (use that in simp_all)
    from update_bitmap_score_contest [OF this, of 0] show ?thesis using that by simp
  qed
  have one: "q_wf (one_entry 64)" "map_size (fsrv (one_entry 64)) = 64" "0 < length (queue_buf (one_entry 64))"
    "\<not> q_disabled (entry (one_entry 64) 0)"
    using one_entry_wf one_entry_simps by simp_all
  have two: "0 < length (queue_buf runner_up)" "\<not> q_disabled (entry runner_up 0)"
    by (simp_all add: runner_up_def queue_entry_zero_def)
  show ?thesis
    using r [OF one] r [OF runner_up_facts(1,5) two] runner_up_facts(5,6) one(2)
    by (simp add: contest_result_def one_entry_simps keeps_slot_def)
       (simp add: runner_up_def fuzz_p2_of_def fav_factor_of_def queue_entry_zero_def)
qed

text \<open>C2. \<open>cull_queue\<close> computes the greedy cover: exactly the entries the greedy pass over the slots
  picks (and that are not disabled) become favored, the favored and pending counters and
  \<open>smallest_favored\<close> agree with the flags, and every map byte that the compacted trace of its winner
  has is covered by an entry the pass picked: a favored one, or a disabled one, whose bytes
  the pass removes although it does not favor it.\<close>

theorem cull_queue_greedy_cover:
  assumes "q_wf a" and "score_changed a" and "\<not> non_instrumented_mode a"
  defines "b \<equiv> cull_queue a"
  defines "F \<equiv> {w. w < length (queue_buf b) \<and> q_favored (entry b w)}"
  defines "P \<equiv> {w \<in> F. \<not> q_was_fuzzed (entry b w)}"
  shows "q_wf b \<and> F = {w \<in> grabbed a (map_size (fsrv a)). \<not> q_disabled (entry a w)} \<and>
    queued_favored b = card F \<and> pending_favored b = card P \<and>
    smallest_favored b = (if P = {} then -1 else int (Min P)) \<and>
    (\<forall>i w. i < map_size (fsrv a) \<and> top_rated a ! i = Some w \<and> mini_bit a w i \<longrightarrow>
       (\<exists>v < length (queue_buf a). mini_bit a v i \<and> (v \<in> F \<or> q_disabled (entry a v))))"
proof -
  let ?n = "map_size (fsrv a)"
  have eq: "b = (culled a ?n)\<lparr>queue_buf := map (mark_all (afl_disable_redundant a)) (favor (favored_set a ?n) (queue_buf a)),
      reinit_table := True\<rparr>"
    unfolding b_def using assms(1-3) by (rule cull_queue_eq)
  have g: "w < length (queue_buf a)" if "w \<in> grabbed a ?n" for w
    using grabbed_winner [OF that] q_wf_D(2,5) [OF assms(1)] by (metis nth_mem)
  have F: "F = favored_set a ?n"
    using g by (auto simp: F_def eq favored_set_def)
  have P: "P = pending_set a ?n"
    using g by (auto simp: P_def F eq pending_set_def favored_set_def)
  have cover: "\<exists>v < length (queue_buf a). mini_bit a v i \<and> (v \<in> F \<or> q_disabled (entry a v))"
    if "i < ?n" "top_rated a ! i = Some w" "mini_bit a w i" for i w
    using grabbed_covers [OF that] g unfolding F favored_set_def by blast
  have "q_wf b" unfolding b_def using assms(1) by (rule q_wf_cull_queue)
  moreover have "queued_favored b = card F" "pending_favored b = card P"
    "smallest_favored b = (if P = {} then -1 else int (Min P))"
    unfolding F P by (simp_all add: eq culled_def)
  ultimately show ?thesis using cover F by (auto simp: favored_set_def)
qed

theorem cull_queue_greedy_cover_witness:
  "q_wf (cull_queue ((one_entry 64)\<lparr>score_changed := True\<rparr>)) \<and>
   queued_favored (cull_queue ((one_entry 64)\<lparr>score_changed := True\<rparr>)) =
     card {w. w < length (queue_buf (cull_queue ((one_entry 64)\<lparr>score_changed := True\<rparr>))) \<and>
              q_favored (entry (cull_queue ((one_entry 64)\<lparr>score_changed := True\<rparr>)) w)}"
proof -
  let ?a = "(one_entry 64)\<lparr>score_changed := True\<rparr>"
  have "q_wf ?a" using one_entry_wf [of 64] by (simp add: q_wf_def maps_wf_def)
  moreover have "\<not> non_instrumented_mode ?a"
    by (simp add: one_entry_def add_to_queue_def Let_def campaign_start_eq)
  ultimately show ?thesis using cull_queue_greedy_cover [of ?a] by simp
qed

text \<open>C33. \<open>add_to_queue\<close> appends one entry whose id is its position and that holds no slot, keeps the
  queue invariant, and raises the counters by one.\<close>

theorem add_to_queue_appends:
  assumes "q_wf a"
  shows "let b = add_to_queue cm istxt now a fname len det in
    q_wf b \<and> queued_items b = queued_items a + 1 \<and> active_items b = active_items a + 1 \<and>
    pending_not_fuzzed b = pending_not_fuzzed a + 1 \<and>
    (\<exists>e. queue_buf b = queue_buf a @ [e] \<and> q_id e = length (queue_buf a) \<and> q_len e = len \<and> q_fname e = fname \<and>
       q_depth e = cur_depth a + 1 \<and> q_mother e = queue_cur a \<and> q_tc_ref e = 0) \<and>
    max_depth b = max (max_depth a) (cur_depth a + 1)"
proof -
  let ?b = "add_to_queue cm istxt now a fname len det"
  have "queued_items ?b = queued_items a + 1" "active_items ?b = active_items a + 1"
    "pending_not_fuzzed ?b = pending_not_fuzzed a + 1"
    by (simp_all add: add_to_queue_def Let_def)
  moreover have "max_depth ?b = max (max_depth a) (cur_depth a + 1)"
    by (simp add: add_to_queue_def Let_def)
  moreover have "queue_buf ?b = queue_buf a @ [last (queue_buf ?b)]"
    by (simp add: add_to_queue_def Let_def)
  moreover have "q_id (last (queue_buf ?b)) = length (queue_buf a)" "q_len (last (queue_buf ?b)) = len"
    "q_fname (last (queue_buf ?b)) = fname" "q_depth (last (queue_buf ?b)) = cur_depth a + 1"
    "q_mother (last (queue_buf ?b)) = queue_cur a" "q_tc_ref (last (queue_buf ?b)) = 0"
    using q_wf_D(3) [OF assms] by (simp_all add: add_to_queue_def Let_def queue_entry_zero_def)
  moreover have "q_wf ?b" using assms by (rule q_wf_add_to_queue)
  ultimately show ?thesis unfolding Let_def by blast
qed

theorem add_to_queue_appends_witness:
  "queued_items (add_to_queue True (\<lambda>_. 2) 99 (campaign_start 64) ''id:0'' 5 True) = queued_items (campaign_start 64) + 1"
  using add_to_queue_appends [OF q_wf_init, where cm = True] by (simp add: Let_def)

text \<open>C27. An entry that loses the greedy pass is marked redundant and its compacted trace is freed
  although it still holds its slots. However often other entries are scored after that, with whatever
  traces, the next \<open>cull_queue\<close> does not favor it: only a run of the entry itself that wins a slot
  builds the trace again. So when the entry that covered its bytes loses the slots it had, nothing
  makes up for them, while the comment above the selection promises a favored set for all bytes.\<close>

theorem cull_queue_forgets_runner_up:
  assumes "q_wf a" and "score_changed a" and "\<not> non_instrumented_mode a"
    and "i < map_size (fsrv a)" and "top_rated a ! i = Some w"
    and "w \<notin> grabbed a (map_size (fsrv a))" and "\<not> q_disabled (entry a w)" and "\<not> q_fs_redundant (entry a w)"
    and "\<forall>(t, v) \<in> set vs. length t = map_size (fsrv a) \<and> v < length (queue_buf a) \<and> v \<noteq> w"
  shows "top_rated (cull_queue a) ! i = Some w \<and> 0 < q_tc_ref (entry (cull_queue a) w) \<and>
    q_trace_mini (entry (cull_queue a) w) = None \<and>
    \<not> q_favored (entry (cull_queue ((rescored vs (cull_queue a))\<lparr>score_changed := True\<rparr>)) w)"
proof -
  have w: "w < length (queue_buf a)" using assms(1,4,5) by (metis nth_mem q_wf_D(2,5))
  have "count_list (top_rated a) (Some w) \<noteq> 0"
    using assms(4,5) q_wf_D(2) [OF assms(1)] by (metis count_list_0_iff nth_mem)
  then have "0 < q_tc_ref (entry a w)" using q_wf_D(6) [OF assms(1) w] by simp
  then have first: "top_rated (cull_queue a) ! i = Some w \<and> 0 < q_tc_ref (entry (cull_queue a) w) \<and>
      q_trace_mini (entry (cull_queue a) w) = None"
    using assms(5-8) w grabbed_winner [of w] by (fastforce simp: cull_queue_eq [OF assms(1-3)] culled_def favored_set_def)
  have "forgotten (map_size (fsrv a)) (length (queue_buf a)) w (cull_queue a)"
    using first q_wf_cull_queue [OF assms(1)] w assms(6)
    by (simp add: forgotten_def cull_queue_eq [OF assms(1-3)] culled_def favored_set_def)
  from forgotten_cull [OF forgotten_rescored [OF this assms(9)]] first show ?thesis by blast
qed

theorem cull_queue_forgets_runner_up_witness:
  "top_rated (cull_queue runner_up) ! 1 = Some 1 \<and> q_trace_mini (entry (cull_queue runner_up) 1) = None \<and>
   \<not> q_favored (entry (cull_queue ((rescored [(replicate 64 1, 0)] (cull_queue runner_up))\<lparr>score_changed := True\<rparr>)) 1)"
  using cull_queue_forgets_runner_up [of runner_up 1 1 "[(replicate 64 1, 0)]"] runner_up_facts
  by (simp add: runner_up_def)

end
