(* ===== verification/Doubles.thy ===== *)
theory Doubles
  imports Complex_Main "HOL-Library.Log_Nat"
begin

text \<open>
  The C type \<open>double\<close>: a value is a rational number, and \<open>dbl\<close> rounds a rational to the nearest
  one with a 53-bit significand, ties to even. Exponents are unbounded: none of the modelled
  computations leaves the normal range. Conversions to unsigned integers truncate; outside the range
  of the target type they are undefined, which the conversion reports as \<open>None\<close>.
\<close>

text \<open>The exponent: \<open>2 powi lg2 x \<le> \<bar>x\<bar> < 2 powi (lg2 x + 1)\<close>.\<close>

definition lg2 :: "rat \<Rightarrow> int" where
  "lg2 x = (let (p, q) = quotient_of x;
                c = bitlen \<bar>p\<bar> - bitlen q
            in if 2 powi c \<le> \<bar>x\<bar> then c else c - 1)"

definition round_even :: "rat \<Rightarrow> int" where
  "round_even x = (let f = \<lfloor>x\<rfloor>; d = x - of_int f
     in if d < 1 / 2 then f else if d > 1 / 2 then f + 1 else if even f then f else f + 1)"

definition dbl :: "rat \<Rightarrow> rat" where
  "dbl x = (if x = 0 then 0 else let s = 2 powi (lg2 x - 52) in of_int (round_even (x / s)) * s)"

definition to_u32 :: "rat \<Rightarrow> nat option" where
  "to_u32 x = (if - 1 < x \<and> x < 2 ^ 32 then Some (nat \<lfloor>x\<rfloor>) else None)"

lemma bitlen_powi:
  assumes "0 < (p::int)"
  shows "2 powi (bitlen p - 1) \<le> (of_int p :: rat)" "(of_int p :: rat) < 2 powi bitlen p"
proof -
  have b: "0 < bitlen p" using assms bitlen_bounds [OF assms] bitlen_nonneg [of p] bitlen_eq_zero_iff [of p] by linarith
  have bb: "2 ^ nat (bitlen p - 1) \<le> p" "p < 2 ^ nat (bitlen p)"
    using bitlen_bounds [OF assms] by auto
  have "(2 :: rat) powi (bitlen p - 1) = of_int (2 ^ nat (bitlen p - 1))"
    using b by (simp add: power_int_def)
  also have "\<dots> \<le> of_int p" using bb(1) by (simp only: of_int_le_iff)
  finally show "2 powi (bitlen p - 1) \<le> (of_int p :: rat)" .
  have "(of_int p :: rat) < of_int (2 ^ nat (bitlen p))" using bb(2) by (simp only: of_int_less_iff)
  also have "\<dots> = 2 powi bitlen p" using b by (simp add: power_int_def)
  finally show "(of_int p :: rat) < 2 powi bitlen p" .
qed

lemma lg2_bounds:
  assumes "x \<noteq> 0"
  shows "2 powi lg2 x \<le> \<bar>x\<bar>" "\<bar>x\<bar> < 2 powi (lg2 x + 1)"
proof -
  obtain p q where pq: "quotient_of x = (p, q)" by (cases "quotient_of x") auto
  have q: "0 < q" using pq by (rule quotient_of_denom_pos)
  have x: "x = of_int p / of_int q" using pq by (rule quotient_of_div)
  have p: "0 < \<bar>p\<bar>" using assms x by auto
  let ?c = "bitlen \<bar>p\<bar> - bitlen q"
  have ax: "\<bar>x\<bar> = of_int \<bar>p\<bar> / of_int q" using q by (simp add: x abs_divide)
  note P = bitlen_powi [OF p] and Q = bitlen_powi [OF q]
  have up: "\<bar>x\<bar> < 2 powi (?c + 1)"
  proof -
    have "\<bar>x\<bar> \<le> of_int \<bar>p\<bar> / 2 powi (bitlen q - 1)"
      unfolding ax using Q(1) q by (intro divide_left_mono) simp_all
    also have "\<dots> < 2 powi bitlen \<bar>p\<bar> / 2 powi (bitlen q - 1)"
      using P(2) by (intro divide_strict_right_mono) simp_all
    finally have "\<bar>x\<bar> < 2 powi bitlen \<bar>p\<bar> / 2 powi (bitlen q - 1)" .
    then show ?thesis by (simp add: power_int_diff power_int_add)
  qed
  have lo: "2 powi (?c - 1) \<le> \<bar>x\<bar>"
  proof -
    have "2 powi (bitlen \<bar>p\<bar> - 1) / 2 powi bitlen q \<le> \<bar>x\<bar>"
      unfolding ax using P(1) Q(2) q by (intro frac_le) (auto simp: of_int_abs [symmetric] simp del: of_int_abs)
    then show ?thesis by (simp add: power_int_diff)
  qed
  show "2 powi lg2 x \<le> \<bar>x\<bar>" "\<bar>x\<bar> < 2 powi (lg2 x + 1)"
    using up lo by (auto simp: lg2_def pq Let_def)
qed

lemma round_even_of_int [simp]: "round_even (of_int n) = n"
  by (simp add: round_even_def Let_def)

lemma round_even_nonneg: "0 \<le> x \<Longrightarrow> 0 \<le> round_even x"
  by (simp add: round_even_def Let_def)

lemma dbl_0 [simp]: "dbl 0 = 0"
  by (simp add: dbl_def)

lemma dbl_nonneg: "0 \<le> x \<Longrightarrow> 0 \<le> dbl x"
  by (simp add: dbl_def Let_def round_even_nonneg)

text \<open>A rational with a significand of at most 53 bits is a double.\<close>

lemma dbl_exact:
  assumes "\<bar>m\<bar> < 2 ^ 53"
  shows "dbl (of_int m * 2 powi k) = of_int m * 2 powi k"
proof (cases "m = 0")
  case False
  let ?x = "of_int m * 2 powi k :: rat"
  have x0: "?x \<noteq> 0" using False by simp
  have "(2::rat) powi lg2 ?x \<le> \<bar>?x\<bar>" using x0 by (rule lg2_bounds)
  also have "\<bar>?x\<bar> = of_int \<bar>m\<bar> * 2 powi k" by (simp add: abs_mult)
  also have "\<dots> < 2 ^ 53 * 2 powi k"
  proof -
    have "of_int \<bar>m\<bar> < (of_int (2 ^ 53) :: rat)" using assms by (simp only: of_int_less_iff)
    then show ?thesis by simp
  qed
  also have "\<dots> = 2 powi (53 + k)" by (simp add: power_int_add)
  finally have "lg2 ?x < 53 + k"
    by (meson not_less one_less_numeral_iff power_int_increasing semiring_norm(76) order.strict_implies_order)
  then have "0 \<le> k - (lg2 ?x - 52)" by linarith
  then obtain j where j: "k - (lg2 ?x - 52) = int j" using nonneg_int_cases by metis
  have "?x / 2 powi (lg2 ?x - 52) = of_int m * 2 powi (k - (lg2 ?x - 52))" by (simp add: power_int_diff)
  also have "\<dots> = of_int (m * 2 ^ j)" unfolding j by simp
  finally have q: "?x / 2 powi (lg2 ?x - 52) = of_int (m * 2 ^ j)" .
  have "dbl ?x = of_int (m * 2 ^ j) * 2 powi (lg2 ?x - 52)"
    using x0 q by (simp only: dbl_def Let_def round_even_of_int if_False)
  also have "\<dots> = ?x" using q x0 by (simp add: field_simps)
  finally show ?thesis .
qed simp

lemma dbl_of_nat: "n < 2 ^ 53 \<Longrightarrow> dbl (of_nat n) = of_nat n"
proof -
  assume "n < 2 ^ 53"
  then have "\<bar>int n\<bar> < 2 ^ 53" by simp
  from dbl_exact [OF this, of 0] show ?thesis by simp
qed

lemma round_even_mono_int:
  "x \<le> of_int n \<Longrightarrow> round_even x \<le> n" "of_int n \<le> x \<Longrightarrow> n \<le> round_even x"
proof -
  assume "x \<le> of_int n"
  then have "\<lfloor>x\<rfloor> \<le> n" "\<lfloor>x\<rfloor> = n \<longrightarrow> x = of_int n" by (linarith, auto simp: floor_eq_iff)
  then show "round_even x \<le> n" by (auto simp: round_even_def Let_def)
next
  assume "of_int n \<le> x"
  then have "n \<le> \<lfloor>x\<rfloor>" by (simp add: le_floor_iff)
  then show "n \<le> round_even x" by (auto simp: round_even_def Let_def)
qed

lemma dbl_between:
  assumes "0 < x"
  shows "2 powi lg2 x \<le> dbl x" "dbl x \<le> 2 powi (lg2 x + 1)"
proof -
  let ?s = "2 powi (lg2 x - 52) :: rat"
  have s: "0 < ?s" by simp
  have b: "2 powi lg2 x \<le> x" "x < 2 powi (lg2 x + 1)" using lg2_bounds [of x] assms by auto
  have p: "(2::rat) powi lg2 x = of_int (2 ^ 52) * ?s" "(2::rat) powi (lg2 x + 1) = of_int (2 ^ 53) * ?s"
    by (simp_all add: power_int_diff power_int_add)
  have "of_int (2 ^ 52) \<le> x / ?s" "x / ?s \<le> of_int (2 ^ 53)"
    using b s unfolding p by (simp_all only: pos_le_divide_eq pos_divide_le_eq less_imp_le)
  then have "2 ^ 52 \<le> round_even (x / ?s)" "round_even (x / ?s) \<le> 2 ^ 53"
    using round_even_mono_int by blast+
  moreover have "dbl x = of_int (round_even (x / ?s)) * ?s" using assms by (simp add: dbl_def Let_def)
  ultimately show "2 powi lg2 x \<le> dbl x" "dbl x \<le> 2 powi (lg2 x + 1)"
    unfolding p using s by (simp_all only: mult_le_cancel_right_pos of_int_le_iff)
qed

lemma powi_less_imp: "(2::rat) powi i < 2 powi j \<Longrightarrow> i < j"
  by (meson not_less one_less_numeral_iff power_int_increasing semiring_norm(76) order.strict_implies_order)

lemma dbl_powi [simp]: "dbl (2 powi k) = 2 powi k"
  using dbl_exact [of 1 k] by simp

lemma dbl_le_powi:
  assumes "0 \<le> x" "x \<le> 2 powi k"
  shows "dbl x \<le> 2 powi k"
proof (cases "x = 0 \<or> x = 2 powi k")
  case False
  then have x: "0 < x" "x < 2 powi k" using assms by auto
  then have "2 powi lg2 x < (2 :: rat) powi k" using lg2_bounds(1) [of x] by auto
  then have "lg2 x + 1 \<le> k" using powi_less_imp by fastforce
  then have "(2 :: rat) powi (lg2 x + 1) \<le> 2 powi k" by (intro power_int_increasing) auto
  then show ?thesis using dbl_between(2) [OF x(1)] by linarith
qed auto

lemma dbl_ge_powi:
  assumes "2 powi k \<le> x"
  shows "2 powi k \<le> dbl x"
proof -
  have x: "0 < x" using assms by (meson less_le_trans zero_less_numeral zero_less_power_int)
  have "(2 :: rat) powi k < 2 powi (lg2 x + 1)" using lg2_bounds(2) [of x] x assms by auto
  then have "k \<le> lg2 x" using powi_less_imp by fastforce
  then have "(2 :: rat) powi k \<le> 2 powi lg2 x" by (intro power_int_increasing) auto
  then show ?thesis using dbl_between(1) [OF x] by linarith
qed

text \<open>Rounding respects powers of two; the instances the callers use.\<close>

lemma dbl_le_1: "0 \<le> x \<Longrightarrow> x \<le> 1 \<Longrightarrow> dbl x \<le> 1"
  using dbl_le_powi [of x 0] by simp

lemma dbl_ge_1: "1 \<le> x \<Longrightarrow> 1 \<le> dbl x"
  using dbl_ge_powi [of 0 x] by simp

lemma dbl_ge_2: "2 \<le> x \<Longrightarrow> 2 \<le> dbl x"
  using dbl_ge_powi [of 1 x] by simp

lemma dbl_le_2_31: "0 \<le> x \<Longrightarrow> x \<le> 2 ^ 31 \<Longrightarrow> dbl x \<le> 2 ^ 31"
  using dbl_le_powi [of x 31] by (simp add: power_int_def)

lemma dbl_quarter:
  assumes "n < 2 ^ 53"
  shows "dbl (of_nat n / 4) = of_nat n / 4"
proof -
  have "\<bar>int n\<bar> < 2 ^ 53" using assms by simp
  moreover have "(2 :: rat) powi (- 2) = 1 / 4" by (simp add: power_int_def power2_eq_square)
  ultimately show ?thesis using dbl_exact [of "int n" "-2"] by simp
qed

end
