(* ===== verification/Score.thy ===== *)
theory Score
  imports Queue Doubles
begin

text \<open>
  The desirability score of a queue entry, \<open>calculate_score\<close> of \<open>src/afl-fuzz-queue.c\<close>, in the
  stages the C function has them: execution speed, bitmap size, handicap, depth, power schedule,
  final bounds. \<open>perf_score\<close> is a \<open>u32\<close>: integer products wrap at 32 bits, and a compound
  assignment with a floating factor computes in double and truncates.

  \<open>log2\<close> of the C library is a parameter \<open>lg\<close> where its real value matters (the mean of the COE
  schedule); where the code truncates it to \<open>u32\<close> it is the bit length minus one. Undefined
  behaviour (a conversion out of range, an integer division by zero) is the error value.
\<close>

section \<open>Arithmetic\<close>

definition u32_mul :: "nat \<Rightarrow> nat \<Rightarrow> nat" where
  "u32_mul x y = x * y mod 2 ^ 32"

text \<open>\<open>perf_score *= d\<close> for a double \<open>d\<close>.\<close>

definition scale :: "nat \<Rightarrow> rat \<Rightarrow> fatal + nat" where
  "scale p d = (case to_u32 (dbl (of_nat p * d)) of
     None \<Rightarrow> Inl (FatalMsg ''undefined conversion'') | Some n \<Rightarrow> Inr n)"

text \<open>\<open>x * c > y\<close> with a double constant \<open>c\<close>.\<close>

definition dbl_gt :: "nat \<Rightarrow> rat \<Rightarrow> nat \<Rightarrow> bool" where
  "dbl_gt x c y \<longleftrightarrow> dbl (dbl (of_nat x) * dbl c) > of_nat y"

definition dbl_lt :: "nat \<Rightarrow> rat \<Rightarrow> nat \<Rightarrow> bool" where
  "dbl_lt x c y \<longleftrightarrow> dbl (dbl (of_nat x) * dbl c) < of_nat y"

section \<open>The stages\<close>

text \<open>
  The two counters are \<open>u64\<close> and are read into \<open>u32\<close> variables: a multiple of \<open>2 ^ 32\<close> becomes 0,
  which is tested after the truncation. The quotients of the \<open>u64\<close> sums are truncated again.
\<close>

definition u64_div :: "nat \<Rightarrow> nat \<Rightarrow> fatal + nat" where
  "u64_div x y = (if y = 0 then Inl (FatalMsg ''division by zero'') else Inr (x div y))"

definition avg_exec_us :: "afl_state \<Rightarrow> fatal + nat" where
  "avg_exec_us a = (let cal_cycles = total_cal_cycles a mod 2 ^ 32;
       cal_cycles = (if cal_cycles = 0 then 1 else cal_cycles)
     in bind_err (u64_div (total_cal_us a) cal_cycles) (\<lambda>n. Inr (n mod 2 ^ 32)))"

definition avg_bitmap_size :: "afl_state \<Rightarrow> fatal + nat" where
  "avg_bitmap_size a = (let bitmap_entries = total_bitmap_entries a mod 2 ^ 32;
       bitmap_entries = (if bitmap_entries = 0 then 1 else bitmap_entries)
     in bind_err (u64_div (total_bitmap_size a) bitmap_entries) (\<lambda>n. Inr (n mod 2 ^ 32)))"

definition score_speed :: "nat \<Rightarrow> afl_state \<Rightarrow> queue_entry \<Rightarrow> nat" where
  "score_speed avg a q =
     (if sched_num (schedule a) < sched_num RARE \<and> \<not> fixed_seed a
      then if dbl_gt (q_exec_us q) (1 / 10) avg then 10
           else if dbl_gt (q_exec_us q) (1 / 4) avg then 25
           else if dbl_gt (q_exec_us q) (1 / 2) avg then 50
           else if dbl_gt (q_exec_us q) (3 / 4) avg then 75
           else if (q_exec_us q * 4) mod 2 ^ 64 < avg then 300
           else if (q_exec_us q * 3) mod 2 ^ 64 < avg then 200
           else if (q_exec_us q * 2) mod 2 ^ 64 < avg then 150
           else 100
      else 100)"

definition score_bitmap :: "nat \<Rightarrow> queue_entry \<Rightarrow> nat \<Rightarrow> fatal + nat" where
  "score_bitmap avg q p =
     (if dbl_gt (q_bitmap_size q) (3 / 10) avg then Inr (u32_mul p 3)
      else if dbl_gt (q_bitmap_size q) (1 / 2) avg then Inr (u32_mul p 2)
      else if dbl_gt (q_bitmap_size q) (3 / 4) avg then scale p (3 / 2)
      else if (q_bitmap_size q * 3) mod 2 ^ 32 < avg then scale p (1 / 4)
      else if (q_bitmap_size q * 2) mod 2 ^ 32 < avg then scale p (1 / 2)
      else if dbl_lt (q_bitmap_size q) (3 / 2) avg then scale p (3 / 4)
      else Inr p)"

text \<open>The handicap is consumed: the new value goes back into the entry.\<close>

definition score_handicap :: "queue_entry \<Rightarrow> nat \<Rightarrow> nat \<times> nat" where
  "score_handicap q p =
     (if q_handicap q \<ge> 4 then (u32_mul p 4, q_handicap q - 4)
      else if q_handicap q \<noteq> 0 then (u32_mul p 2, q_handicap q - 1)
      else (p, q_handicap q))"

definition score_depth :: "queue_entry \<Rightarrow> nat \<Rightarrow> nat" where
  "score_depth q p =
     (if q_depth q \<le> 3 then p
      else if q_depth q \<le> 7 then u32_mul p 2
      else if q_depth q \<le> 13 then u32_mul p 3
      else if q_depth q \<le> 25 then u32_mul p 4
      else u32_mul p 5)"

section \<open>Power schedules\<close>

definition floor_log2 :: "nat \<Rightarrow> nat" where
  "floor_log2 n = nat (bitlen (int n)) - 1"

text \<open>The FAST factor; also the end of the COE case, which falls through into it.\<close>

definition factor_fast :: "afl_state \<Rightarrow> queue_entry \<Rightarrow> fatal + rat" where
  "factor_fast a q =
     (if q_fuzz_level q = 0 then Inr 1
      else if n_fuzz a (q_n_fuzz_entry q) = 0 then Inl (FatalMsg ''undefined conversion'')
      else let k = floor_log2 (n_fuzz a (q_n_fuzz_entry q));
               f = (if k \<le> 1 then 4 else if k \<le> 3 then 3 else if k = 4 then 2 else if k = 5 then 1
                    else if k = 6 then (if \<not> q_favored q then dbl (8 / 10) else 1)
                    else if k = 7 then (if \<not> q_favored q then dbl (6 / 10) else 1)
                    else (if \<not> q_favored q then dbl (4 / 10) else 1))
           in Inr (if q_favored q then dbl (f * dbl (115 / 100)) else f))"

definition fuzz_mu :: "(nat \<Rightarrow> rat) \<Rightarrow> afl_state \<Rightarrow> (rat \<times> nat)" where
  "fuzz_mu lg a = (let es = filter (\<lambda>e. \<not> q_disabled e) (take (queued_items a) (queue_buf a))
     in (sum_list (map (\<lambda>e. lg (n_fuzz a (q_n_fuzz_entry e))) es), length es))"

definition factor_coe :: "(nat \<Rightarrow> rat) \<Rightarrow> afl_state \<Rightarrow> queue_entry \<Rightarrow> fatal + rat" where
  "factor_coe lg a q =
     (if q_fuzz_level q = 0 then Inr 1
      else let (s, n_items) = fuzz_mu lg a
           in if n_items = 0 then Inl (FatalMsg ''Queue state corrupt'')
              else if lg (n_fuzz a (q_n_fuzz_entry q)) > s / of_nat n_items
                   then Inr (if \<not> q_favored q then 0 else 1)
                   else factor_fast a q)"

text \<open>LIN and QUAD divide 32-bit integers: \<open>n_fuzz + 1\<close> wraps to zero at its saturation value.\<close>

definition factor_div :: "nat \<Rightarrow> nat \<Rightarrow> fatal + rat" where
  "factor_div x n = (if (n + 1) mod 2 ^ 32 = 0 then Inl (FatalMsg ''division by zero'')
     else Inr (of_nat (x div ((n + 1) mod 2 ^ 32))))"

definition score_factor :: "(nat \<Rightarrow> rat) \<Rightarrow> afl_state \<Rightarrow> queue_entry \<Rightarrow> fatal + rat" where
  "score_factor lg a q = (case schedule a of
       EXPLOIT \<Rightarrow> Inr 32
     | COE \<Rightarrow> factor_coe lg a q
     | FAST \<Rightarrow> factor_fast a q
     | LIN \<Rightarrow> (if q_fuzz_level q = 0 then Inr 1
               else factor_div (q_fuzz_level q) (n_fuzz a (q_n_fuzz_entry q)))
     | QUAD \<Rightarrow> (if q_fuzz_level q = 0 then Inr 1
                else factor_div (u32_mul (q_fuzz_level q) (q_fuzz_level q)) (n_fuzz a (q_n_fuzz_entry q)))
     | _ \<Rightarrow> Inr 1)"

text \<open>MMOPT and RARE change the score directly. Depth differences are 64-bit and wrap.\<close>

definition depth_gap :: "afl_state \<Rightarrow> queue_entry \<Rightarrow> nat" where
  "depth_gap a q = nat ((int (max_depth a) - int (q_depth q)) mod 2 ^ 64)"

definition score_schedule :: "afl_state \<Rightarrow> queue_entry \<Rightarrow> nat \<Rightarrow> fatal + nat" where
  "score_schedule a q p = (case schedule a of
       MMOPT \<Rightarrow> Inr (if depth_gap a q < 5 then u32_mul p 2 else p)
     | RARE \<Rightarrow>
         (if total_execs (fsrv a) = 0 then Inl (FatalMsg ''undefined conversion'')
          else scale ((p + q_tc_ref q * 10) mod 2 ^ 32)
                 (dbl (1 - dbl (dbl (of_nat (n_fuzz a (q_n_fuzz_entry q))) / dbl (of_nat (total_execs (fsrv a)))))))
     | _ \<Rightarrow> Inr p)"

definition MAX_FACTOR :: rat where "MAX_FACTOR = 32"

definition score_apply :: "afl_state \<Rightarrow> rat \<Rightarrow> nat \<Rightarrow> fatal + nat" where
  "score_apply a factor p =
     (if sched_num EXPLOIT \<le> sched_num (schedule a) \<and> sched_num (schedule a) \<le> sched_num QUAD
      then scale p (if factor > MAX_FACTOR then MAX_FACTOR else factor) else Inr p)"

text \<open>The MOpt bonus or the lower bound, then the upper bound.\<close>

definition score_clamp :: "int \<Rightarrow> afl_state \<Rightarrow> queue_entry \<Rightarrow> nat \<Rightarrow> nat" where
  "score_clamp limit_time_sig a q p =
     (let p = (if limit_time_sig \<noteq> 0 \<and> depth_gap a q < 3 then u32_mul p 2
               else if schedule a \<noteq> COE \<and> p < 1 then 1 else p)
      in if p > u32_mul (havoc_max_mult a) 100 then u32_mul (havoc_max_mult a) 100 else p)"

definition calculate_score :: "(nat \<Rightarrow> rat) \<Rightarrow> int \<Rightarrow> afl_state \<Rightarrow> queue_entry \<Rightarrow> fatal + (nat \<times> queue_entry)" where
  "calculate_score lg limit_time_sig a q =
     bind_err (avg_exec_us a) (\<lambda>avg_us. bind_err (avg_bitmap_size a) (\<lambda>avg_size.
     bind_err (score_bitmap avg_size q (score_speed avg_us a q)) (\<lambda>p.
       let (p, h) = score_handicap q p;
           q = q\<lparr>q_handicap := h\<rparr>;
           p = score_depth q p
       in bind_err (score_factor lg a q) (\<lambda>factor.
            bind_err (score_schedule a q p) (\<lambda>p.
              bind_err (score_apply a factor p) (\<lambda>p.
                Inr (score_clamp limit_time_sig a q p, q)))))))"

lemma to_u32_le: "0 \<le> x \<Longrightarrow> x < 2 ^ 32 \<Longrightarrow> to_u32 x = Some (nat \<lfloor>x\<rfloor>)"
  by (simp add: to_u32_def)

lemma scale_defined:
  assumes "0 \<le> d" "of_nat p * d \<le> 2 ^ 31"
  shows "scale p d = Inr (nat \<lfloor>dbl (of_nat p * d)\<rfloor>)"
proof -
  have n: "0 \<le> of_nat p * d" using assms(1) by simp
  have "0 \<le> dbl (of_nat p * d)" using n by (rule dbl_nonneg)
  moreover have "dbl (of_nat p * d) \<le> 2 ^ 31" using n assms(2) by (rule dbl_le_2_31)
  ultimately show ?thesis by (simp add: scale_def to_u32_le)
qed

lemma scale_quarters:
  assumes "p * c < 2 ^ 31"
  shows "scale p (of_nat c / 4) = Inr (p * c div 4)"
proof -
  have e: "of_nat p * (of_nat c / 4) = (of_nat (p * c) / 4 :: rat)" by simp
  have "(of_nat (p * c) :: rat) < of_nat (2 ^ 31)" using assms by (simp only: of_nat_less_iff)
  then have "of_nat p * (of_nat c / 4) \<le> (2 ^ 31 :: rat)" unfolding e by simp
  then have "scale p (of_nat c / 4) = Inr (nat \<lfloor>dbl (of_nat p * (of_nat c / 4))\<rfloor>)"
    by (intro scale_defined) simp_all
  moreover have "dbl (of_nat p * (of_nat c / 4)) = of_nat (p * c) / 4"
    unfolding e using assms by (intro dbl_quarter) simp
  moreover have "\<lfloor>(of_nat (p * c) / 4 :: rat)\<rfloor> = int (p * c div 4)"
    using floor_divide_of_nat_eq [of "p * c" 4, where ?'a = rat] by simp
  ultimately show ?thesis by (simp only: nat_int)
qed

text \<open>The score through the first four stages.\<close>

lemma averages_defined: "\<exists>n. avg_exec_us a = Inr n" "\<exists>n. avg_bitmap_size a = Inr n"
  by (simp_all add: avg_exec_us_def avg_bitmap_size_def u64_div_def Let_def)

lemma score_speed_range: "10 \<le> score_speed v a q \<and> score_speed v a q \<le> 300"
  by (simp add: score_speed_def)

lemma score_bitmap_range:
  assumes "10 \<le> p" "p \<le> 300"
  shows "\<exists>r. score_bitmap v q p = Inr r \<and> 2 \<le> r \<and> r \<le> 900"
proof -
  have s: "scale p (3 / 2) = Inr (p * 6 div 4)" "scale p (1 / 4) = Inr (p * 1 div 4)"
    "scale p (1 / 2) = Inr (p * 2 div 4)" "scale p (3 / 4) = Inr (p * 3 div 4)"
    using scale_quarters [of p 6] scale_quarters [of p 1] scale_quarters [of p 2] scale_quarters [of p 3] assms by simp_all
  have m: "u32_mul p 3 = p * 3" "u32_mul p 2 = p * 2" using assms by (simp_all add: u32_mul_def)
  have "2 \<le> p * 6 div 4 \<and> p * 6 div 4 \<le> 900" "2 \<le> p * 1 div 4 \<and> p * 1 div 4 \<le> 900"
    "2 \<le> p * 2 div 4 \<and> p * 2 div 4 \<le> 900" "2 \<le> p * 3 div 4 \<and> p * 3 div 4 \<le> 900"
    using assms by linarith+
  then show ?thesis using assms unfolding score_bitmap_def s m by (auto split: if_splits)
qed

lemma score_handicap_range:
  assumes "2 \<le> p" "p \<le> 900"
  shows "2 \<le> fst (score_handicap q p) \<and> fst (score_handicap q p) \<le> 3600"
    and "snd (score_handicap q p) = (if q_handicap q \<ge> 4 then q_handicap q - 4 else q_handicap q - 1)"
  using assms by (auto simp: score_handicap_def u32_mul_def)

lemma score_depth_range:
  assumes "2 \<le> p" "p \<le> 3600"
  shows "2 \<le> score_depth q p \<and> score_depth q p \<le> 18000"
  using assms by (auto simp: score_depth_def u32_mul_def)

definition use_handicap :: "queue_entry \<Rightarrow> queue_entry" where
  "use_handicap q = q\<lparr>q_handicap := (if q_handicap q \<ge> 4 then q_handicap q - 4 else q_handicap q - 1)\<rparr>"

lemma calculate_score_eq:
  obtains r where "2 \<le> r" "r \<le> 18000"
    "calculate_score lg l a q =
       bind_err (score_factor lg a (use_handicap q)) (\<lambda>f. bind_err (score_schedule a (use_handicap q) r) (\<lambda>p.
         bind_err (score_apply a f p) (\<lambda>p. Inr (score_clamp l a (use_handicap q) p, use_handicap q))))"
proof -
  obtain us size where v: "avg_exec_us a = Inr us" "avg_bitmap_size a = Inr size"
    using averages_defined by blast
  obtain p where p: "score_bitmap size q (score_speed us a q) = Inr p" "2 \<le> p" "p \<le> 900"
    using score_bitmap_range score_speed_range by metis
  have h: "q\<lparr>q_handicap := snd (score_handicap q p)\<rparr> = use_handicap q"
    using score_handicap_range(2) [OF p(2,3), of q] by (simp add: use_handicap_def)
  let ?r = "score_depth (use_handicap q) (fst (score_handicap q p))"
  show ?thesis
  proof (rule that [of ?r])
    show "2 \<le> ?r" "?r \<le> 18000"
      using score_depth_range score_handicap_range(1) [OF p(2,3), of q] by blast+
    show "calculate_score lg l a q =
       bind_err (score_factor lg a (use_handicap q)) (\<lambda>f. bind_err (score_schedule a (use_handicap q) ?r) (\<lambda>p.
         bind_err (score_apply a f p) (\<lambda>p. Inr (score_clamp l a (use_handicap q) p, use_handicap q))))"
      unfolding calculate_score_def v bind_err_simps p(1) by (simp add: Let_def case_prod_unfold h)
  qed
qed

lemma clamp_range:
  shows "score_clamp l a q p \<le> u32_mul (havoc_max_mult a) 100"
    and "l = 0 \<Longrightarrow> schedule a \<noteq> COE \<Longrightarrow> 1 \<le> u32_mul (havoc_max_mult a) 100 \<Longrightarrow> 1 \<le> score_clamp l a q p"
    and "1 \<le> p \<Longrightarrow> p < 2 ^ 31 \<Longrightarrow> 1 \<le> u32_mul (havoc_max_mult a) 100 \<Longrightarrow> 1 \<le> score_clamp l a q p"
  by (auto simp: score_clamp_def Let_def u32_mul_def)

lemma calculate_score_shape:
  assumes "calculate_score lg l a q = Inr (s, q')"
  shows "s \<le> u32_mul (havoc_max_mult a) 100"
    and "l = 0 \<Longrightarrow> schedule a \<noteq> COE \<Longrightarrow> 1 \<le> u32_mul (havoc_max_mult a) 100 \<Longrightarrow> 1 \<le> s"
    and "q' = use_handicap q"
proof -
  obtain r where "calculate_score lg l a q =
       bind_err (score_factor lg a (use_handicap q)) (\<lambda>f. bind_err (score_schedule a (use_handicap q) r) (\<lambda>p.
         bind_err (score_apply a f p) (\<lambda>p. Inr (score_clamp l a (use_handicap q) p, use_handicap q))))"
    by (rule calculate_score_eq)
  with assms obtain p where "s = score_clamp l a (use_handicap q) p" "q' = use_handicap q"
    by (auto simp: bind_err_Inr)
  then show "s \<le> u32_mul (havoc_max_mult a) 100"
    and "l = 0 \<Longrightarrow> schedule a \<noteq> COE \<Longrightarrow> 1 \<le> u32_mul (havoc_max_mult a) 100 \<Longrightarrow> 1 \<le> s"
    and "q' = use_handicap q"
    using clamp_range by auto
qed

text \<open>The factor of a favored entry is at least one, and no factor is negative.\<close>

lemma factor_fast_favored:
  assumes "factor_fast a q = Inr f"
  shows "0 \<le> f" and "q_favored q \<Longrightarrow> 1 \<le> f"
proof -
  have c: "1 \<le> dbl (115 / 100)" by (rule dbl_ge_1) simp
  then have m: "1 \<le> dbl (x * dbl (115 / 100))" if "1 \<le> x" for x
    using that mult_mono [of 1 x 1 "dbl (115 / 100)"] by (intro dbl_ge_1) simp
  have z: "0 \<le> dbl (8 / 10)" "0 \<le> dbl (6 / 10)" "0 \<le> dbl (4 / 10)" by (simp_all add: dbl_nonneg)
  have m0: "0 \<le> dbl (x * dbl (115 / 100))" if "0 \<le> x" for x
    using that c by (intro dbl_nonneg) simp
  let ?k = "floor_log2 (n_fuzz a (q_n_fuzz_entry q))"
  let ?b = "if ?k \<le> 1 then 4 else if ?k \<le> 3 then 3 else if ?k = 4 then 2 else if ?k = 5 then 1
     else if ?k = 6 then (if \<not> q_favored q then dbl (8 / 10) else 1)
     else if ?k = 7 then (if \<not> q_favored q then dbl (6 / 10) else 1)
     else (if \<not> q_favored q then dbl (4 / 10) else 1)"
  have b: "0 \<le> ?b" "q_favored q \<Longrightarrow> 1 \<le> ?b" using z by (simp_all split: if_split)
  have "f = 1 \<or> f = (if q_favored q then dbl (?b * dbl (115 / 100)) else ?b)"
  proof (cases "q_fuzz_level q = 0")
    case True
    then show ?thesis using assms by (simp add: factor_fast_def)
  next
    case False
    then have n0: "n_fuzz a (q_n_fuzz_entry q) \<noteq> 0" using assms by (cases "n_fuzz a (q_n_fuzz_entry q) = 0") (simp_all add: factor_fast_def)
    have "factor_fast a q = Inr (if q_favored q then dbl (?b * dbl (115 / 100)) else ?b)"
      unfolding factor_fast_def Let_def using False n0 by (simp only: if_False)
    from trans [OF assms [symmetric] this] show ?thesis by (rule disjI2 [OF Inr_inject])
  qed
  then obtain b where "f = 1 \<or> f = (if q_favored q then dbl (b * dbl (115 / 100)) else b)"
    "0 \<le> b" "q_favored q \<Longrightarrow> 1 \<le> b" using b by blast
  then show "0 \<le> f" "q_favored q \<Longrightarrow> 1 \<le> f" using m0 [of b] m [of b] by (cases "q_favored q"; auto)+
qed

lemma factor_coe_favored:
  assumes "factor_coe lg a q = Inr f"
  shows "0 \<le> f" and "q_favored q \<Longrightarrow> 1 \<le> f"
  using assms by (auto simp: factor_coe_def Let_def case_prod_unfold split: if_splits dest: factor_fast_favored)

lemma score_factor_nonneg: "score_factor lg a q = Inr f \<Longrightarrow> 0 \<le> f"
  by (cases "schedule a") (auto simp: score_factor_def factor_div_def split: if_splits
      dest: factor_fast_favored(1) factor_coe_favored(1))

lemma score_apply_defined:
  assumes "p \<le> 2 ^ 26" "0 \<le> f"
  shows "\<exists>r. score_apply a f p = Inr r"
proof -
  let ?f = "if f > MAX_FACTOR then MAX_FACTOR else f"
  have f: "0 \<le> ?f" "?f \<le> 32" using assms(2) by (auto simp: MAX_FACTOR_def)
  have "(of_nat p :: rat) \<le> of_nat (2 ^ 26)" using assms(1) by (simp only: of_nat_le_iff)
  then have "of_nat p * ?f \<le> of_nat (2 ^ 26) * 32" using f by (intro mult_mono) simp_all
  then have "scale p ?f = Inr (nat \<lfloor>dbl (of_nat p * ?f)\<rfloor>)" using f by (intro scale_defined) simp_all
  then show ?thesis by (simp add: score_apply_def)
qed

lemma scale_ge_1:
  assumes "2 \<le> p" "1 \<le> f" "scale p f = Inr r"
  shows "1 \<le> r"
proof -
  have "2 \<le> of_nat p * f" using mult_mono [of 2 "of_nat p :: rat" 1 f] assms(1,2) by simp
  then have "2 \<le> dbl (of_nat p * f)" by (rule dbl_ge_2)
  then have "2 \<le> \<lfloor>dbl (of_nat p * f)\<rfloor>" by linarith
  then have "1 \<le> nat \<lfloor>dbl (of_nat p * f)\<rfloor>" by linarith
  then show ?thesis using assms(3) by (auto simp: scale_def to_u32_def simp del: One_nat_def split: if_splits)
qed

lemma scale_upper:
  assumes "scale p f = Inr r" "0 \<le> f" "of_nat p * f \<le> 2 ^ 20"
  shows "r < 2 ^ 31"
proof -
  have "dbl (of_nat p * f) \<le> 2 powi 20" using assms(2,3) by (intro dbl_le_powi) (simp_all add: power_int_def)
  then have "\<lfloor>dbl (of_nat p * f)\<rfloor> \<le> 1048576" by (simp add: floor_le_iff power_int_def)
  then have "nat \<lfloor>dbl (of_nat p * f)\<rfloor> \<le> 1048576" by linarith
  then have "nat \<lfloor>dbl (of_nat p * f)\<rfloor> < 2 ^ 31" by (rule le_less_trans) simp
  then show ?thesis using assms(1) by (auto simp: scale_def to_u32_def split: if_splits)
qed

lemma score_schedule_plain: "schedule a \<notin> {MMOPT, RARE} \<Longrightarrow> score_schedule a q p = Inr p"
  by (cases "schedule a") (simp_all add: score_schedule_def)

lemma score_schedule_defined:
  assumes "p \<le> 18000" "schedule a = RARE \<longrightarrow> 0 < total_execs (fsrv a) \<and> total_execs (fsrv a) < 2 ^ 53 \<and>
      n_fuzz a (q_n_fuzz_entry q) \<le> total_execs (fsrv a) \<and> q_tc_ref q < 2 ^ 20"
  shows "\<exists>r. score_schedule a q p = Inr r \<and> r \<le> 2 ^ 26"
proof (cases "schedule a = RARE")
  case False
  then show ?thesis using assms(1)
    by (cases "schedule a") (auto simp: score_schedule_def u32_mul_def)
next
  case True
  let ?n = "n_fuzz a (q_n_fuzz_entry q)" and ?t = "total_execs (fsrv a)"
  have t: "0 < ?t" "?t < 2 ^ 53" "?n \<le> ?t" "q_tc_ref q < 2 ^ 20" using assms True by auto
  let ?y = "dbl (dbl (of_nat ?n) / dbl (of_nat ?t))"
  have d: "dbl (of_nat ?n) = of_nat ?n" "dbl (of_nat ?t) = of_nat ?t" using t by (auto intro: dbl_of_nat)
  have y: "0 \<le> ?y" "?y \<le> 1"
    unfolding d using t by (auto intro!: dbl_nonneg dbl_le_1)
  have f: "0 \<le> dbl (1 - ?y)" "dbl (1 - ?y) \<le> 1" using y by (auto intro!: dbl_nonneg dbl_le_1)
  let ?p = "(p + q_tc_ref q * 10) mod 2 ^ 32"
  have p: "?p \<le> 2 ^ 25" using assms(1) t(4) by simp
  have "(of_nat ?p :: rat) \<le> of_nat (2 ^ 25)" using p by (simp only: of_nat_le_iff)
  then have q: "of_nat ?p * dbl (1 - ?y) \<le> 2 ^ 25" using f mult_mono [of "of_nat ?p" "2 ^ 25" "dbl (1 - ?y)" 1] by simp
  have s: "scale ?p (dbl (1 - ?y)) = Inr (nat \<lfloor>dbl (of_nat ?p * dbl (1 - ?y))\<rfloor>)"
    using f(1) q by (intro scale_defined) simp_all
  have "dbl (of_nat ?p * dbl (1 - ?y)) \<le> 2 powi 25"
    using f(1) q by (intro dbl_le_powi) (simp_all add: power_int_def)
  then have "\<lfloor>dbl (of_nat ?p * dbl (1 - ?y))\<rfloor> \<le> 2 ^ 25" by (simp add: floor_le_iff power_int_def)
  then show ?thesis using True t(1) s by (simp add: score_schedule_def nat_le_iff)
qed

lemma calculate_score_total:
  assumes "schedule a \<in> {FAST, COE} \<longrightarrow> 0 < n_fuzz a (q_n_fuzz_entry q)"
    and "schedule a = COE \<longrightarrow> (\<exists>e \<in> set (take (queued_items a) (queue_buf a)). \<not> q_disabled e)"
    and "schedule a \<in> {LIN, QUAD} \<longrightarrow> n_fuzz a (q_n_fuzz_entry q) < 2 ^ 32 - 1"
    and "schedule a = RARE \<longrightarrow> 0 < total_execs (fsrv a) \<and> total_execs (fsrv a) < 2 ^ 53 \<and>
      n_fuzz a (q_n_fuzz_entry q) \<le> total_execs (fsrv a) \<and> q_tc_ref q < 2 ^ 20"
  shows "\<exists>s q'. calculate_score lg l a q = Inr (s, q')"
proof -
  let ?q = "use_handicap q"
  have same: "q_n_fuzz_entry ?q = q_n_fuzz_entry q" "q_tc_ref ?q = q_tc_ref q" by (simp_all add: use_handicap_def)
  obtain r where r: "r \<le> 18000" "calculate_score lg l a q =
       bind_err (score_factor lg a ?q) (\<lambda>f. bind_err (score_schedule a ?q r) (\<lambda>p.
         bind_err (score_apply a f p) (\<lambda>p. Inr (score_clamp l a ?q p, ?q))))"
    by (rule calculate_score_eq)
  have fast: "0 < n_fuzz a (q_n_fuzz_entry q) \<Longrightarrow> \<exists>f. factor_fast a ?q = Inr f"
    by (simp add: factor_fast_def Let_def same)
  have "\<exists>f. score_factor lg a ?q = Inr f"
    using assms(1-3) fast
    by (cases "schedule a") (auto simp: score_factor_def factor_coe_def fuzz_mu_def factor_div_def Let_def same filter_empty_conv)
  then obtain f where f: "score_factor lg a ?q = Inr f" by blast
  obtain p where p: "score_schedule a ?q r = Inr p" "p \<le> 2 ^ 26"
    using score_schedule_defined [OF r(1), of a ?q] assms(4) same by auto
  obtain x where "score_apply a f p = Inr x"
    using score_apply_defined [OF p(2) score_factor_nonneg [OF f]] by blast
  then show ?thesis using r(2) f p(1) by simp
qed

section \<open>Properties\<close>

text \<open>C36. A computed score never exceeds \<open>havoc_max_mult * 100\<close>. It is at least 1 when the schedule is
  not COE and \<open>limit_time_sig\<close> is 0; under COE it may be 0, and in MOpt mode no lower bound is applied.
  A call uses up part of the entry's handicap and changes nothing else in the entry.\<close>

theorem calculate_score_bounds:
  assumes "calculate_score lg l a q = Inr (s, q')" and "1 \<le> u32_mul (havoc_max_mult a) 100"
  shows "s \<le> u32_mul (havoc_max_mult a) 100 \<and> (l = 0 \<and> schedule a \<noteq> COE \<longrightarrow> 1 \<le> s) \<and>
    q' = q\<lparr>q_handicap := q_handicap q'\<rparr> \<and> (0 < q_handicap q \<longrightarrow> q_handicap q' < q_handicap q)"
  using calculate_score_shape [OF assms(1)] assms(2) by (auto simp: use_handicap_def)

theorem calculate_score_bounds_witness:
  "\<exists>s q'. calculate_score (\<lambda>_. 0) 0 (campaign_start 64) queue_entry_zero = Inr (s, q') \<and> 1 \<le> s \<and> s \<le> 6400"
proof -
  have sch: "schedule (campaign_start 64) = EXPLORE" "havoc_max_mult (campaign_start 64) = 64"
    by (simp_all add: campaign_start_eq)
  obtain r where r: "calculate_score (\<lambda>_. 0) 0 (campaign_start 64) queue_entry_zero =
       bind_err (score_factor (\<lambda>_. 0) (campaign_start 64) (use_handicap queue_entry_zero)) (\<lambda>f.
         bind_err (score_schedule (campaign_start 64) (use_handicap queue_entry_zero) r) (\<lambda>p.
         bind_err (score_apply (campaign_start 64) f p) (\<lambda>p.
           Inr (score_clamp 0 (campaign_start 64) (use_handicap queue_entry_zero) p, use_handicap queue_entry_zero))))"
    by (rule calculate_score_eq)
  then obtain s q' where "calculate_score (\<lambda>_. 0) 0 (campaign_start 64) queue_entry_zero = Inr (s, q')"
    by (simp add: score_factor_def score_schedule_def score_apply_def sch)
  then show ?thesis
    using calculate_score_bounds [of "\<lambda>_. 0" 0 "campaign_start 64" queue_entry_zero s q'] sch
    by (auto simp: u32_mul_def)
qed

text \<open>C15. The score is defined (no conversion out of range, no division by zero) for every schedule
  whose counters are in the range they have in a running campaign: \<open>n_fuzz\<close> positive for FAST and
  COE, below its saturation value for LIN and QUAD, at most \<open>total_execs\<close> for RARE.\<close>

theorem calculate_score_defined:
  assumes "schedule a \<in> {FAST, COE} \<longrightarrow> 0 < n_fuzz a (q_n_fuzz_entry q)"
    and "schedule a = COE \<longrightarrow> (\<exists>e \<in> set (take (queued_items a) (queue_buf a)). \<not> q_disabled e)"
    and "schedule a \<in> {LIN, QUAD} \<longrightarrow> n_fuzz a (q_n_fuzz_entry q) < 2 ^ 32 - 1"
    and "schedule a = RARE \<longrightarrow> 0 < total_execs (fsrv a) \<and> total_execs (fsrv a) < 2 ^ 53 \<and>
      n_fuzz a (q_n_fuzz_entry q) \<le> total_execs (fsrv a) \<and> q_tc_ref q < 2 ^ 20"
  shows "\<exists>s q'. calculate_score lg l a q = Inr (s, q')"
  using assms by (rule calculate_score_total)

theorem calculate_score_defined_witness:
  "\<exists>s q'. calculate_score (\<lambda>_. 0) 0 ((campaign_start 64)\<lparr>schedule := LIN, n_fuzz := (\<lambda>_. 9)\<rparr>)
     (queue_entry_zero\<lparr>q_fuzz_level := 3\<rparr>) = Inr (s, q')"
  by (rule calculate_score_defined) simp_all

text \<open>C29. COE never skips a favored entry: the comment in the code promises it, and the score of a favored
  entry is indeed positive, although the code sets no lower bound for this schedule.\<close>

theorem coe_favored_not_skipped:
  assumes "schedule a = COE" and "q_favored q" and "1 \<le> u32_mul (havoc_max_mult a) 100"
    and "calculate_score lg l a q = Inr (s, q')"
  shows "1 \<le> s"
proof -
  let ?q = "use_handicap q"
  obtain r where r: "2 \<le> r" "r \<le> 18000" "calculate_score lg l a q =
       bind_err (score_factor lg a ?q) (\<lambda>f. bind_err (score_schedule a ?q r) (\<lambda>p.
         bind_err (score_apply a f p) (\<lambda>p. Inr (score_clamp l a ?q p, ?q))))"
    by (rule calculate_score_eq)
  then obtain f p where f: "factor_coe lg a ?q = Inr f" and p: "score_apply a f r = Inr p" and s: "s = score_clamp l a ?q p"
    using assms(4) [unfolded r(3)] assms(1) by (auto simp: bind_err_Inr score_schedule_plain score_factor_def)
  have "1 \<le> f" using factor_coe_favored(2) [OF f] assms(2) by (simp add: use_handicap_def)
  then have f32: "1 \<le> (if f > MAX_FACTOR then MAX_FACTOR else f)" by (simp add: MAX_FACTOR_def)
  have sc: "scale r (if f > MAX_FACTOR then MAX_FACTOR else f) = Inr p" using p assms(1) by (simp add: score_apply_def)
  have p1: "1 \<le> p" by (rule scale_ge_1 [OF r(1) f32 sc])
  have "(of_nat r :: rat) \<le> of_nat 18000" using r(2) by (simp only: of_nat_le_iff)
  then have "of_nat r * (if f > MAX_FACTOR then MAX_FACTOR else f) \<le> of_nat 18000 * 32"
    using f32 by (intro mult_mono) (auto simp: MAX_FACTOR_def)
  then have "p < 2 ^ 31" using scale_upper [OF sc] f32 by simp
  then show ?thesis unfolding s using clamp_range(3) [OF p1] assms(3) by simp
qed

theorem coe_favored_not_skipped_witness:
  "\<exists>s q'. calculate_score (\<lambda>_. 0) 0 ((one_entry 64)\<lparr>schedule := COE, n_fuzz := (\<lambda>_. 2000)\<rparr>)
     (queue_entry_zero\<lparr>q_fuzz_level := 3, q_favored := True\<rparr>) = Inr (s, q') \<and> 1 \<le> s"
proof -
  let ?a = "(one_entry 64)\<lparr>schedule := COE, n_fuzz := (\<lambda>_. 2000)\<rparr>"
  let ?q = "queue_entry_zero\<lparr>q_fuzz_level := 3, q_favored := True\<rparr>"
  have h: "havoc_max_mult ?a = 64" by (simp add: one_entry_def add_to_queue_def Let_def) (simp add: campaign_start_eq)
  have qi: "queued_items ?a = 1" using q_wf_D(3) [OF one_entry_wf [of 64]] one_entry_simps(1) [of 64] by simp
  have "set (take (queued_items ?a) (queue_buf ?a)) = set (queue_buf (one_entry 64))"
    using qi one_entry_simps(1) [of 64] by simp
  then have "\<exists>e \<in> set (take (queued_items ?a) (queue_buf ?a)). \<not> q_disabled e"
    using one_entry_simps(1,2) [of 64] by (metis One_nat_def lessI nth_mem)
  then have "\<exists>s q'. calculate_score (\<lambda>_. 0) 0 ?a ?q = Inr (s, q')"
    by (intro calculate_score_total) simp_all
  then show ?thesis using coe_favored_not_skipped [of ?a ?q "\<lambda>_. 0" 0] h by (auto simp: u32_mul_def)
qed

text \<open>C26. Under LIN and QUAD the saturation value of \<open>n_fuzz\<close> (which the counting code stops at) makes
  the divisor wrap to zero: the process divides by zero.\<close>

theorem lin_divides_by_zero:
  assumes "schedule a \<in> {LIN, QUAD}" and "0 < q_fuzz_level q" and "n_fuzz a (q_n_fuzz_entry q) = 2 ^ 32 - 1"
  shows "calculate_score lg l a q = Inl (FatalMsg ''division by zero'')"
proof -
  obtain r where "calculate_score lg l a q =
       bind_err (score_factor lg a (use_handicap q)) (\<lambda>f. bind_err (score_schedule a (use_handicap q) r) (\<lambda>p.
         bind_err (score_apply a f p) (\<lambda>p. Inr (score_clamp l a (use_handicap q) p, use_handicap q))))"
    by (rule calculate_score_eq)
  then show ?thesis using assms by (auto simp: score_factor_def factor_div_def use_handicap_def)
qed

theorem lin_divides_by_zero_witness:
  "calculate_score (\<lambda>_. 0) 0 ((campaign_start 64)\<lparr>schedule := LIN, n_fuzz := (\<lambda>_. 2 ^ 32 - 1)\<rparr>)
     (queue_entry_zero\<lparr>q_fuzz_level := 1\<rparr>) = Inl (FatalMsg ''division by zero'')"
  by (rule lin_divides_by_zero) simp_all

end
