(* ===== verification/Alias.thy ===== *)
theory Alias
  imports Score
begin

unbundle bit_operations_syntax

text \<open>
  Weighted selection of the next queue entry: \<open>create_alias_table\<close> and
  \<open>select_next_queue_entry\<close> of \<open>src/afl-fuzz-queue.c\<close>. The first part computes the weight of
  every entry, the second builds Walker's alias table from the scaled weights \<open>P\<close> with two stacks
  kept in the arrays \<open>Small\<close> (growing upwards) and \<open>Large\<close> (growing downwards, with the index
  wrapping below zero when every entry is large).

  The table construction takes the rounding of \<open>double\<close> as an argument \<open>rnd\<close>: the program uses
  \<open>dbl\<close>; with the identity it is the algorithm in exact arithmetic, for which the probabilities
  come out exactly. \<open>log\<close> and \<open>log10\<close> of the C library are parameters \<open>clog\<close> and \<open>lg10\<close>.
\<close>

section \<open>Weights\<close>

text \<open>\<open>*=\<close> and the comparisons on doubles.\<close>

definition dmul :: "rat \<Rightarrow> rat \<Rightarrow> rat" where
  "dmul x c = dbl (x * dbl c)"

definition weight_hits :: "(nat \<Rightarrow> rat) \<Rightarrow> afl_state \<Rightarrow> queue_entry \<Rightarrow> rat \<Rightarrow> rat" where
  "weight_hits lg10 a q w =
     (if sched_num (schedule a) \<ge> sched_num FAST \<and> sched_num (schedule a) \<le> sched_num RARE
      then let hits = n_fuzz a (q_n_fuzz_entry q)
           in if hits \<noteq> 0 then dbl (w / dbl (lg10 hits + 1)) else w
      else w)"

text \<open>A zero average gives an infinite or undefined quotient: every comparison below fails then.\<close>

definition weight_time :: "afl_state \<Rightarrow> rat \<Rightarrow> queue_entry \<Rightarrow> rat \<Rightarrow> rat" where
  "weight_time a avg q w =
     (if sched_num (schedule a) < sched_num RARE \<and> avg \<noteq> 0
      then let t = dbl (dbl (of_nat (q_exec_us q)) / avg)
           in if t < dbl (1 / 10) then w
              else if t \<le> 1 / 4 then dmul w (95 / 100)
              else if t \<le> 1 / 2 then w
              else if t \<le> 3 / 4 then dmul w (105 / 100)
              else if t \<le> 1 then dmul w (11 / 10)
              else if t < 5 / 4 then dmul w (2 / 10)
              else if t \<le> 3 / 2 then w
              else if t \<le> 2 then dmul w (11 / 10)
              else if t \<le> 5 / 2 then w
              else if t \<le> 5 then dmul w (115 / 100)
              else if t \<le> 20 then dmul w (11 / 10)
              else w
      else w)"

definition weight_len :: "rat \<Rightarrow> queue_entry \<Rightarrow> rat \<Rightarrow> rat" where
  "weight_len avg q w =
     (if avg = 0 then dmul w (115 / 100)
      else let l = dbl (of_nat (q_len q) / avg)
           in if l < dbl (1 / 10) then dmul w (5 / 10)
              else if l \<le> 1 / 2 then w
              else if l \<le> 5 / 4 then dmul w (105 / 100)
              else if l \<le> 7 / 4 then w
              else if l \<le> 2 then dmul w (95 / 100)
              else if l \<le> 5 then w
              else if l \<le> 10 then dmul w (105 / 100)
              else dmul w (115 / 100))"

text \<open>\<open>avg\<close> is the mean of the logarithms, \<open>None\<close> when one of them is \<open>log(0)\<close>, minus infinity.\<close>

definition weight_bitmap :: "rat option \<Rightarrow> queue_entry \<Rightarrow> rat \<Rightarrow> rat" where
  "weight_bitmap avg q w = (case avg of
       None \<Rightarrow> dmul w (1 / 100)
     | Some v \<Rightarrow>
        if v = 0 then dmul w (75 / 100)
        else let bms = dbl (of_nat (q_bitmap_size q) / v)
             in if bms < dbl (1 / 10) then dmul w (1 / 100)
                else if bms \<le> 1 / 4 then dmul w (55 / 100)
                else if bms \<le> 1 / 2 then w
                else if bms \<le> 3 / 4 then dmul w (12 / 10)
                else if bms \<le> 5 / 4 then dmul w (13 / 10)
                else if bms \<le> 7 / 4 then dmul w (125 / 100)
                else if bms \<le> 2 then w
                else if bms \<le> 5 / 2 then dmul w (13 / 10)
                else dmul w (75 / 100))"

definition weight_flags :: "queue_entry \<Rightarrow> rat \<Rightarrow> rat" where
  "weight_flags q w =
     (let w = (if \<not> q_was_fuzzed q then dmul w (5 / 2) else w)
      in if q_fs_redundant q then dmul w (75 / 100) else w)"

definition entry_weight ::
  "(nat \<Rightarrow> rat) \<Rightarrow> afl_state \<Rightarrow> rat \<Rightarrow> rat option \<Rightarrow> rat \<Rightarrow> queue_entry \<Rightarrow> rat" where
  "entry_weight lg10 a avg_exec avg_bitmap avg_len q =
     weight_flags q (weight_bitmap avg_bitmap q (weight_len avg_len q (weight_time a avg_exec q (weight_hits lg10 a q 1))))"

text \<open>The averages over the enabled entries.\<close>

definition enabled :: "afl_state \<Rightarrow> queue_entry list" where
  "enabled a = filter (\<lambda>e. \<not> q_disabled e) (take (queued_items a) (queue_buf a))"

definition davg :: "rat list \<Rightarrow> rat" where
  "davg xs = dbl (fold (\<lambda>x s. dbl (s + x)) xs 0 / of_nat (length xs))"

definition avg_bitmap_log :: "(nat \<Rightarrow> rat) \<Rightarrow> afl_state \<Rightarrow> rat option" where
  "avg_bitmap_log clog a =
     (if \<exists>e \<in> set (enabled a). q_bitmap_size e = 0 then None
      else Some (davg (map (\<lambda>e. clog (q_bitmap_size e)) (enabled a))))"

text \<open>The loop that stores weight and score in every enabled entry and adds up the weights.\<close>

fun weigh_loop :: "(nat \<Rightarrow> rat) \<Rightarrow> (queue_entry \<Rightarrow> rat) \<Rightarrow> int \<Rightarrow> afl_state \<Rightarrow> nat list \<Rightarrow> rat \<Rightarrow> fatal + (rat \<times> afl_state)" where
  "weigh_loop lg weight l a [] wsum = Inr (wsum, a)"
| "weigh_loop lg weight l a (i # is) wsum =
     (if q_disabled (entry a i) then weigh_loop lg weight l a is wsum
      else let w = weight (entry a i);
               q = (entry a i)\<lparr>q_weight := w\<rparr>
           in bind_err (calculate_score lg l a q) (\<lambda>(s, q).
                weigh_loop lg weight l (upd_entry i (\<lambda>_. q\<lparr>q_perf_score := of_nat s\<rparr>) a) is (dbl (wsum + w))))"

fun score_loop :: "(nat \<Rightarrow> rat) \<Rightarrow> int \<Rightarrow> afl_state \<Rightarrow> nat list \<Rightarrow> rat \<Rightarrow> fatal + (rat \<times> afl_state)" where
  "score_loop lg l a [] wsum = Inr (wsum, a)"
| "score_loop lg l a (i # is) wsum =
     (if q_disabled (entry a i) then score_loop lg l a is wsum
      else bind_err (calculate_score lg l a (entry a i)) (\<lambda>(s, q).
             score_loop lg l (upd_entry i (\<lambda>_. q\<lparr>q_perf_score := of_nat s\<rparr>) a) is (dbl (wsum + of_nat s))))"

text \<open>The start \<open>n - cnt\<close> of the MMOPT loop is a \<open>u32\<close>: it wraps when \<open>cnt > n\<close>, and the loop is empty then.\<close>

definition mmopt_boost :: "afl_state \<Rightarrow> afl_state" where
  "mmopt_boost a =
     (if schedule a = MMOPT \<and> queued_discovered a \<noteq> 0
      then let n = queued_items a; cnt = (if queued_discovered a \<ge> 5 then 5 else queued_discovered a)
           in fold (\<lambda>i a. if \<not> q_disabled (entry a i) then upd_entry i (\<lambda>e. e\<lparr>q_weight := dmul (q_weight e) 2\<rparr>) a else a)
                [(n + 2 ^ 32 - cnt) mod 2 ^ 32..<n] a
      else a)"

text \<open>With a sum of zero the quotient is infinite or not a number, which the rationals do not have:
  the error value.\<close>

definition scaled :: "(queue_entry \<Rightarrow> rat) \<Rightarrow> rat \<Rightarrow> afl_state \<Rightarrow> fatal + rat list" where
  "scaled field wsum a =
     (if wsum = 0 \<and> (\<exists>i < queued_items a. \<not> q_disabled (entry a i)) then Inl (FatalMsg ''no finite quotient'')
      else Inr (map (\<lambda>i. if q_disabled (entry a i) then 0
             else dbl (dbl (field (entry a i) * of_nat (queued_items a)) / wsum)) [0..<queued_items a]))"

definition collect_weights ::
  "(nat \<Rightarrow> rat) \<Rightarrow> (nat \<Rightarrow> rat) \<Rightarrow> (nat \<Rightarrow> rat) \<Rightarrow> int \<Rightarrow> afl_state \<Rightarrow> fatal + (rat list \<times> afl_state)" where
  "collect_weights clog lg10 lg l a =
     (if sched_num (schedule a) < sched_num RARE
      then let ae = davg (map (\<lambda>e. of_nat (q_exec_us e)) (enabled a));
               ab = avg_bitmap_log clog a;
               al = davg (map (\<lambda>e. of_nat (q_len e)) (enabled a))
           in bind_err (weigh_loop lg (entry_weight lg10 a ae ab al) l a [0..<queued_items a] 0) (\<lambda>(wsum, a).
                let a = mmopt_boost a in bind_err (scaled q_weight wsum a) (\<lambda>P. Inr (P, a)))
      else bind_err (score_loop lg l a [0..<queued_items a] 0) (\<lambda>(wsum, a).
             bind_err (scaled q_perf_score wsum a) (\<lambda>P. Inr (P, a))))"

section \<open>The table\<close>

record alias_st =
  al_P :: "rat list"
  al_Small :: "nat list"
  al_Large :: "nat list"
  al_nSmall :: u32
  al_nLarge :: u32
  al_prob :: "rat list"
  al_alias :: "nat list"

definition push_small :: "nat \<Rightarrow> alias_st \<Rightarrow> alias_st" where
  "push_small j s = s\<lparr>al_Small := (al_Small s)[unat (al_nSmall s) := j], al_nSmall := al_nSmall s + 1\<rparr>"

definition push_large :: "nat \<Rightarrow> alias_st \<Rightarrow> alias_st" where
  "push_large j s = s\<lparr>al_Large := (al_Large s)[unat (al_nLarge s) := j], al_nLarge := al_nLarge s - 1\<rparr>"

definition alias_split :: "nat \<Rightarrow> rat list \<Rightarrow> alias_st" where
  "alias_split n P =
     fold (\<lambda>j s. if al_P s ! j < 1 then push_small j s else push_large j s) (rev [0..<n])
       \<lparr>al_P = P, al_Small = replicate n 0, al_Large = replicate n 0, al_nSmall = 0,
        al_nLarge = word_of_nat n - 1, al_prob = replicate n 0, al_alias = replicate n 0\<rparr>"

text \<open>One round of the pairing loop.\<close>

definition alias_round :: "(rat \<Rightarrow> rat) \<Rightarrow> alias_st \<Rightarrow> alias_st" where
  "alias_round rnd s =
     (let s = s\<lparr>al_nSmall := al_nSmall s - 1\<rparr>;
          small = al_Small s ! unat (al_nSmall s);
          s = s\<lparr>al_nLarge := al_nLarge s + 1\<rparr>;
          large = al_Large s ! unat (al_nLarge s);
          s = s\<lparr>al_prob := (al_prob s)[small := al_P s ! small], al_alias := (al_alias s)[small := large]\<rparr>;
          s = s\<lparr>al_P := (al_P s)[large := rnd (al_P s ! large - rnd (1 - al_P s ! small))]\<rparr>
      in if al_P s ! large < 1 then push_small large s else push_large large s)"

lemma alias_round_counts:
  "al_nSmall (alias_round rnd s) = al_nSmall s \<and> al_nLarge (alias_round rnd s) = al_nLarge s + 1 \<or>
   al_nSmall (alias_round rnd s) = al_nSmall s - 1 \<and> al_nLarge (alias_round rnd s) = al_nLarge s"
  by (simp add: alias_round_def push_small_def push_large_def Let_def)

lemma unat_pred: "(x :: u32) \<noteq> 0 \<Longrightarrow> unat (x - 1) < unat x"
  using unat_gt_0 [of x] by (simp add: unat_minus_one)

lemma unat_gap: "(k :: u32) \<noteq> m \<Longrightarrow> unat (m - (k + 1)) < unat (m - k)"
proof -
  assume "k \<noteq> m"
  then have "unat (m - k - 1) < unat (m - k)" by (intro unat_pred) auto
  then show ?thesis by (simp only: diff_diff_eq)
qed

text \<open>The loop ends: a round takes one entry from each stack and puts one back.\<close>

function alias_pair :: "(rat \<Rightarrow> rat) \<Rightarrow> u32 \<Rightarrow> alias_st \<Rightarrow> alias_st" where
  "alias_pair rnd n s =
     (if al_nSmall s \<noteq> 0 \<and> al_nLarge s \<noteq> n - 1 then alias_pair rnd n (alias_round rnd s) else s)"
  by pat_completeness auto
termination
proof (relation "measure (\<lambda>(rnd, n, s). unat (al_nSmall s) + unat (n - 1 - al_nLarge s))")
  fix rnd :: "rat \<Rightarrow> rat" and n :: u32 and s :: alias_st
  assume "al_nSmall s \<noteq> 0 \<and> al_nLarge s \<noteq> n - 1"
  then have "unat (al_nSmall s - 1) < unat (al_nSmall s)" "unat (n - 1 - (al_nLarge s + 1)) < unat (n - 1 - al_nLarge s)"
    using unat_pred unat_gap by blast+
  then show "((rnd, n, alias_round rnd s), rnd, n, s) \<in> measure (\<lambda>(rnd, n, s). unat (al_nSmall s) + unat (n - 1 - al_nLarge s))"
    using alias_round_counts [of rnd s] unfolding in_measure prod.case by (elim disjE conjE) (simp_all only: add_less_mono1 add_less_cancel_left)
qed simp

fun drain_small :: "nat \<Rightarrow> alias_st \<Rightarrow> alias_st" where
  "drain_small 0 s = s"
| "drain_small (Suc k) s = drain_small k (s\<lparr>al_nSmall := word_of_nat k, al_prob := (al_prob s)[al_Small s ! k := 1]\<rparr>)"

definition drain_one :: "alias_st \<Rightarrow> alias_st" where
  "drain_one s = (let s = s\<lparr>al_nLarge := al_nLarge s + 1\<rparr>
     in s\<lparr>al_prob := (al_prob s)[al_Large s ! unat (al_nLarge s) := 1]\<rparr>)"

lemma al_nLarge_drain_one: "al_nLarge (drain_one s) = al_nLarge s + 1"
  by (simp add: drain_one_def Let_def)

function drain_large :: "u32 \<Rightarrow> alias_st \<Rightarrow> alias_st" where
  "drain_large n s = (if al_nLarge s \<noteq> n - 1 then drain_large n (drain_one s) else s)"
  by pat_completeness auto
termination
  by (relation "measure (\<lambda>(n, s). unat (n - 1 - al_nLarge s))")
     (rule wf_measure, unfold in_measure prod.case al_nLarge_drain_one, erule unat_gap)

declare alias_pair.simps [simp del] drain_large.simps [simp del]

definition build_alias :: "(rat \<Rightarrow> rat) \<Rightarrow> nat \<Rightarrow> rat list \<Rightarrow> rat list \<times> nat list" where
  "build_alias rnd n P =
     (let s = alias_pair rnd (word_of_nat n) (alias_split n P);
          s = drain_small (unat (al_nSmall s)) s;
          s = drain_large (word_of_nat n) s
      in (al_prob s, al_alias s))"

definition create_alias_table ::
  "(nat \<Rightarrow> rat) \<Rightarrow> (nat \<Rightarrow> rat) \<Rightarrow> (nat \<Rightarrow> rat) \<Rightarrow> int \<Rightarrow> afl_state \<Rightarrow> fatal + afl_state" where
  "create_alias_table clog lg10 lg l a =
     bind_err (collect_weights clog lg10 lg l a) (\<lambda>(P, a).
       let (prob, alias) = build_alias dbl (queued_items a) P
       in Inr (a\<lparr>alias_probability := prob, alias_table := alias, reinit_table := False\<rparr>))"

text \<open>The draw: a slot and a fraction between 0 and 1.\<close>

definition rand_next_percent :: "rand_state \<Rightarrow> rat \<times> rand_state" where
  "rand_next_percent s = (let (x, s) = rand_next s
     in (dbl (dbl (of_nat (unat x)) / dbl (2 ^ 64 - 1)), s))"

definition select_next_queue_entry ::
  "(nat \<Rightarrow> u64 \<times> u64 \<times> u64) \<Rightarrow> afl_state \<Rightarrow> rand_state \<Rightarrow> (nat \<times> rand_state) option" where
  "select_next_queue_entry urandom a rs =
     (case rand_below urandom (word_of_nat (queued_items a)) rs of
        None \<Rightarrow> None
      | Some (s, rs) \<Rightarrow>
          let (p, rs) = rand_next_percent rs
          in Some (if p < alias_probability a ! unat s then unat s else alias_table a ! unat s, rs))"

section \<open>The stacks\<close>

text \<open>\<open>stacks n s sm lg\<close>: the arrays hold the stack \<open>sm\<close> of small and the stack \<open>lg\<close> of large entries, top first.\<close>

definition stacks :: "nat \<Rightarrow> alias_st \<Rightarrow> nat list \<Rightarrow> nat list \<Rightarrow> bool" where
  "stacks n s sm lg \<longleftrightarrow> 0 < n \<and> n < 2 ^ 31 \<and> length (al_P s) = n \<and> length (al_Small s) = n \<and> length (al_Large s) = n \<and>
     length (al_prob s) = n \<and> length (al_alias s) = n \<and>
     unat (al_nSmall s) = length sm \<and> take (length sm) (al_Small s) = rev sm \<and>
     unat (al_nLarge s + 1) = n - length lg \<and> drop (n - length lg) (al_Large s) = lg \<and>
     distinct (sm @ lg) \<and> set (sm @ lg) \<subseteq> {..<n}"

lemma stacks_le: "stacks n s sm lg \<Longrightarrow> length sm + length lg \<le> n"
proof -
  assume "stacks n s sm lg"
  then have "card (set (sm @ lg)) = length (sm @ lg)" "card (set (sm @ lg)) \<le> card {..<n}"
    unfolding stacks_def using distinct_card card_mono [of "{..<n}"] by blast+
  then show ?thesis by simp
qed

lemma stacks_empty:
  assumes "stacks n s sm lg"
  shows "al_nSmall s \<noteq> 0 \<longleftrightarrow> sm \<noteq> []" "al_nLarge s \<noteq> word_of_nat n - 1 \<longleftrightarrow> lg \<noteq> []"
proof -
  have s: "unat (al_nSmall s) = length sm" "unat (al_nLarge s + 1) = n - length lg" "0 < n" "n < 2 ^ 31"
    using assms by (auto simp: stacks_def)
  show "al_nSmall s \<noteq> 0 \<longleftrightarrow> sm \<noteq> []" using s(1) by (metis length_0_conv unat_eq_0 unsigned_0)
  have n: "unat (word_of_nat n :: u32) = n" using s(4) by (simp add: unat_of_nat take_bit_nat_eq_self)
  have "al_nLarge s = word_of_nat n - 1 \<longleftrightarrow> al_nLarge s + 1 = word_of_nat n" by (metis add_diff_cancel diff_add_cancel)
  also have "\<dots> \<longleftrightarrow> n - length lg = n" using s(2) n by (metis word_unat_eq_iff)
  also have "\<dots> \<longleftrightarrow> lg = []" using stacks_le [OF assms] s(3) by (metis diff_less diff_zero length_0_conv length_greater_0_conv less_irrefl list.size(3))
  finally show "al_nLarge s \<noteq> word_of_nat n - 1 \<longleftrightarrow> lg \<noteq> []" by simp
qed

lemma stacks_tops:
  assumes "stacks n s (x # sm) (y # lg)"
  shows "al_Small s ! unat (al_nSmall s - 1) = x" "al_Large s ! unat (al_nLarge s + 1) = y"
proof -
  have s: "unat (al_nSmall s) = Suc (length sm)" "take (Suc (length sm)) (al_Small s) = rev sm @ [x]"
    "unat (al_nLarge s + 1) = n - Suc (length lg)" "drop (n - Suc (length lg)) (al_Large s) = y # lg" "length (al_Small s) = n"
    using assms by (auto simp: stacks_def)
  have "al_nSmall s \<noteq> 0" using s(1) by auto
  then have "unat (al_nSmall s - 1) = length sm" using s(1) by (simp add: unat_minus_one)
  moreover have "take (Suc (length sm)) (al_Small s) ! length sm = x" using s(2) by (simp add: nth_append)
  ultimately show "al_Small s ! unat (al_nSmall s - 1) = x" by simp
  show "al_Large s ! unat (al_nLarge s + 1) = y"
    unfolding s(3) using s(4) by (metis drop_all hd_drop_conv_nth leI list.sel(1) list.simps(3))
qed

lemma stacks_pop_push_small:
  assumes st: "stacks n s (x # sm) (y # lg)" and l: "length P = n" "length pr = n" "length al = n"
  shows "stacks n (push_small y (s\<lparr>al_nSmall := al_nSmall s - 1, al_nLarge := al_nLarge s + 1,
      al_prob := pr, al_alias := al, al_P := P\<rparr>)) (y # sm) lg"
proof -
  have s: "unat (al_nSmall s) = Suc (length sm)" "take (Suc (length sm)) (al_Small s) = rev sm @ [x]"
    "unat (al_nLarge s + 1) = n - Suc (length lg)" "drop (n - Suc (length lg)) (al_Large s) = y # lg"
    "length (al_Small s) = n" "length (al_Large s) = n" "0 < n" "n < 2 ^ 31"
    using st by (auto simp: stacks_def)
  have le: "Suc (length sm) + Suc (length lg) \<le> n" using stacks_le [OF st] by simp
  have k: "unat (al_nSmall s - 1) = length sm" using s(1) by (subst unat_minus_one) auto
  have "unat (al_nLarge s + 1 + 1) = n - length lg"
    using s(3,8) le by (subst unat_word_ariths(1)) auto
  moreover have "take (length sm) (al_Small s) = rev sm"
    using arg_cong [OF s(2), of "take (length sm)"] by simp
  then have "take (Suc (length sm)) ((al_Small s)[length sm := y]) = rev sm @ [y]"
    using le s(5) by (simp add: take_Suc_conv_app_nth)
  moreover have "drop (n - length lg) (al_Large s) = lg"
  proof -
    have "Suc (n - Suc (length lg)) = n - length lg" using le by simp
    then show ?thesis using arg_cong [OF s(4), of "drop 1"] by simp
  qed
  ultimately show ?thesis
    using st l k s by (auto simp: stacks_def push_small_def)
qed

lemma stacks_pop_push_large:
  assumes st: "stacks n s (x # sm) (y # lg)" and l: "length P = n" "length pr = n" "length al = n"
  shows "stacks n (push_large y (s\<lparr>al_nSmall := al_nSmall s - 1, al_nLarge := al_nLarge s + 1,
      al_prob := pr, al_alias := al, al_P := P\<rparr>)) sm (y # lg)"
proof -
  have s: "unat (al_nSmall s) = Suc (length sm)" "take (Suc (length sm)) (al_Small s) = rev sm @ [x]"
    "unat (al_nLarge s + 1) = n - Suc (length lg)" "drop (n - Suc (length lg)) (al_Large s) = y # lg"
    "length (al_Small s) = n" "length (al_Large s) = n"
    using st by (auto simp: stacks_def)
  have k: "unat (al_nSmall s - 1) = length sm" using s(1) by (subst unat_minus_one) auto
  have "take (length sm) (al_Small s) = rev sm"
    using arg_cong [OF s(2), of "take (length sm)"] by simp
  moreover have "(al_Large s)[n - Suc (length lg) := y] = al_Large s"
    using s(3,4) stacks_tops(2) [OF st] by (metis list_update_id)
  ultimately show ?thesis
    using st l k s by (auto simp: stacks_def push_large_def)
qed

text \<open>What a round does, on the stacks.\<close>

lemma alias_round_eq:
  fixes rnd :: "rat \<Rightarrow> rat"
  assumes st: "stacks n s (x # sm) (y # lg)"
  defines "P \<equiv> (al_P s)[y := rnd (al_P s ! y - rnd (1 - al_P s ! x))]"
  shows "al_P (alias_round rnd s) = P" "al_prob (alias_round rnd s) = (al_prob s)[x := al_P s ! x]"
    "al_alias (alias_round rnd s) = (al_alias s)[x := y]"
    "stacks n (alias_round rnd s) (if P ! y < 1 then y # sm else sm) (if P ! y < 1 then lg else y # lg)"
proof -
  let ?t = "s\<lparr>al_nSmall := al_nSmall s - 1, al_nLarge := al_nLarge s + 1, al_prob := (al_prob s)[x := al_P s ! x],
      al_alias := (al_alias s)[x := y], al_P := P\<rparr>"
  have r: "alias_round rnd s = (if P ! y < 1 then push_small y ?t else push_large y ?t)"
    using stacks_tops [OF st] by (simp add: alias_round_def Let_def P_def)
  then show "al_P (alias_round rnd s) = P" "al_prob (alias_round rnd s) = (al_prob s)[x := al_P s ! x]"
    "al_alias (alias_round rnd s) = (al_alias s)[x := y]"
    by (simp_all add: push_small_def push_large_def)
  have "length P = n" "length ((al_prob s)[x := al_P s ! x]) = n" "length ((al_alias s)[x := y]) = n"
    using st by (simp_all add: P_def stacks_def)
  then show "stacks n (alias_round rnd s) (if P ! y < 1 then y # sm else sm) (if P ! y < 1 then lg else y # lg)"
    using stacks_pop_push_small [OF st] stacks_pop_push_large [OF st] r by simp
qed

text \<open>Rule for proving invariants of the pairing loop: preserved by a round, established at entry.\<close>

lemma alias_pair_invariant:
  assumes step: "\<And>s x sm y lg. stacks n s (x # sm) (y # lg) \<Longrightarrow> I s (x # sm) (y # lg) \<Longrightarrow>
      \<exists>sm' lg'. stacks n (alias_round rnd s) sm' lg' \<and> I (alias_round rnd s) sm' lg'"
    and init: "stacks n s sm lg" "I s sm lg"
  shows "\<exists>sm lg. stacks n (alias_pair rnd (word_of_nat n) s) sm lg \<and> I (alias_pair rnd (word_of_nat n) s) sm lg \<and>
    (sm = [] \<or> lg = [])"
  using step init
proof (induction rnd "word_of_nat n :: u32" s arbitrary: sm lg rule: alias_pair.induct)
  case (1 rnd s)
  note e = stacks_empty [OF "1.prems"(2)]
  show ?case
  proof (cases "sm \<noteq> [] \<and> lg \<noteq> []")
    case False
    then have "alias_pair rnd (word_of_nat n) s = s" using e by (subst alias_pair.simps) auto
    then show ?thesis using "1.prems" False by auto
  next
    case True
    then obtain x sm' y lg' where "sm = x # sm'" "lg = y # lg'" by (meson list.exhaust)
    with "1.prems" obtain sm2 lg2 where "stacks n (alias_round rnd s) sm2 lg2" "I (alias_round rnd s) sm2 lg2" by blast
    moreover have "alias_pair rnd (word_of_nat n) s = alias_pair rnd (word_of_nat n) (alias_round rnd s)"
      using True e by (subst alias_pair.simps) auto
    moreover have "al_nSmall s \<noteq> 0 \<and> al_nLarge s \<noteq> word_of_nat n - 1" using True e by auto
    ultimately show ?thesis using "1.hyps" "1.prems"(1) by metis
  qed
qed

text \<open>The probability mass of entry \<open>i\<close>: its own slot and what its aliases give away.\<close>

definition finished :: "nat \<Rightarrow> nat list \<Rightarrow> nat list \<Rightarrow> nat set" where
  "finished n sm lg = {..<n} - set sm - set lg"

definition mass :: "nat set \<Rightarrow> alias_st \<Rightarrow> nat \<Rightarrow> rat" where
  "mass D s i = (if i \<in> D then al_prob s ! i else al_P s ! i) + (\<Sum>j \<in> {j \<in> D. al_alias s ! j = i}. 1 - al_prob s ! j)"

definition balanced :: "nat \<Rightarrow> rat list \<Rightarrow> alias_st \<Rightarrow> nat list \<Rightarrow> nat list \<Rightarrow> bool" where
  "balanced n P0 s sm lg \<longleftrightarrow>
     (\<forall>i \<in> set sm. 0 \<le> al_P s ! i \<and> al_P s ! i < 1) \<and> (\<forall>i \<in> set lg. 1 \<le> al_P s ! i) \<and>
     (\<Sum>i \<in> set sm \<union> set lg. al_P s ! i) = of_nat (card (set sm \<union> set lg)) \<and>
     (\<forall>i \<in> finished n sm lg. al_alias s ! i < n \<and> 0 \<le> al_prob s ! i \<and> al_prob s ! i \<le> 1) \<and>
     (\<forall>i < n. mass (finished n sm lg) s i = P0 ! i)"

lemma mass_round:
  assumes st: "stacks n s (x # sm) (y # lg)" and i: "i < n"
    and D: "D = finished n (x # sm) (y # lg)"
    and P: "al_P t = (al_P s)[y := al_P s ! y - (1 - al_P s ! x)]" "al_prob t = (al_prob s)[x := al_P s ! x]"
      "al_alias t = (al_alias s)[x := y]"
  shows "mass (insert x D) t i = mass D s i"
proof -
  have l: "length (al_P s) = n" "length (al_prob s) = n" "length (al_alias s) = n" "x < n" "y < n" "x \<noteq> y"
    using st by (auto simp: stacks_def)
  have xD: "x \<notin> D" "y \<notin> D" "finite D" using D by (auto simp: finished_def)
  have same: "(\<Sum>j \<in> {j \<in> D. al_alias t ! j = i}. 1 - al_prob t ! j) = (\<Sum>j \<in> {j \<in> D. al_alias s ! j = i}. 1 - al_prob s ! j)"
  proof (rule sum.cong)
    have ne: "j \<in> D \<Longrightarrow> x \<noteq> j" for j using xD(1) by blast
    show "{j \<in> D. al_alias t ! j = i} = {j \<in> D. al_alias s ! j = i}" using ne by (auto simp: P)
    show "j \<in> {j \<in> D. al_alias s ! j = i} \<Longrightarrow> 1 - al_prob t ! j = 1 - al_prob s ! j" for j using ne [of j] by (simp add: P)
  qed
  have new: "{j \<in> insert x D. al_alias t ! j = i} = (if i = y then insert x {j \<in> D. al_alias t ! j = i} else {j \<in> D. al_alias t ! j = i})"
    using l by (auto simp: P)
  have "(\<Sum>j \<in> {j \<in> insert x D. al_alias t ! j = i}. 1 - al_prob t ! j) =
      (\<Sum>j \<in> {j \<in> D. al_alias s ! j = i}. 1 - al_prob s ! j) + (if i = y then 1 - al_P s ! x else 0)"
    unfolding new same [symmetric] using xD l by (simp add: P)
  then show ?thesis
    unfolding mass_def using l xD by (auto simp: P nth_list_update)
qed

lemma balanced_round:
  assumes st: "stacks n s (x # sm) (y # lg)" and b: "balanced n P0 s (x # sm) (y # lg)"
  defines "t \<equiv> alias_round id s"
  defines "sm' \<equiv> if al_P t ! y < 1 then y # sm else sm" and "lg' \<equiv> if al_P t ! y < 1 then lg else y # lg"
  shows "stacks n t sm' lg' \<and> balanced n P0 t sm' lg'"
proof -
  let ?D = "finished n (x # sm) (y # lg)" and ?S = "set sm \<union> set (y # lg)"
  note r = alias_round_eq [OF st, of id, folded t_def]
  have P: "al_P t = (al_P s)[y := al_P s ! y - (1 - al_P s ! x)]" using r(1) by simp
  have l: "length (al_P s) = n" "length (al_prob s) = n" "length (al_alias s) = n" "x < n" "y < n" "x \<noteq> y"
    "x \<notin> set sm" "x \<notin> set lg" "y \<notin> set sm" "y \<notin> set lg"
    using st by (auto simp: stacks_def)
  have st': "stacks n t sm' lg'" using r(4) r(1) unfolding sm'_def lg'_def by simp
  have set': "set sm' \<union> set lg' = ?S" "finished n sm' lg' = insert x ?D"
    using l by (auto simp: sm'_def lg'_def finished_def)
  have px: "0 \<le> al_P s ! x" "al_P s ! x < 1" "1 \<le> al_P s ! y" using b by (auto simp: balanced_def)
  have y': "al_P t ! y = al_P s ! y - (1 - al_P s ! x)" using P l by simp
  have other: "al_P t ! i = al_P s ! i" if "i \<noteq> y" for i using that P by simp
  have ranges: "(\<forall>i \<in> set sm'. 0 \<le> al_P t ! i \<and> al_P t ! i < 1) \<and> (\<forall>i \<in> set lg'. 1 \<le> al_P t ! i)"
  proof -
    have "al_P t ! i = al_P s ! i" if "i \<in> set sm \<union> set lg" for i using that l by (intro other) auto
    then show ?thesis using b px y' by (auto simp: balanced_def sm'_def lg'_def)
  qed
  have old: "(\<Sum>i \<in> insert x ?S. al_P s ! i) = of_nat (card (insert x ?S))"
    using b by (simp add: balanced_def insert_commute)
  have "(\<Sum>i \<in> ?S. al_P t ! i) = (\<Sum>i \<in> ?S. al_P s ! i) - (1 - al_P s ! x)"
  proof -
    have "(\<Sum>i \<in> set sm \<union> set lg. al_P t ! i) = (\<Sum>i \<in> set sm \<union> set lg. al_P s ! i)"
      using l by (intro sum.cong refl other) auto
    then show ?thesis using l y' by simp
  qed
  moreover have "(\<Sum>i \<in> insert x ?S. al_P s ! i) = al_P s ! x + (\<Sum>i \<in> ?S. al_P s ! i)" using l by simp
  moreover have "card (insert x ?S) = card ?S + 1" using l by simp
  ultimately have sumt: "(\<Sum>i \<in> ?S. al_P t ! i) = of_nat (card ?S)" using old by simp
  have d: "al_alias t ! i < n \<and> 0 \<le> al_prob t ! i \<and> al_prob t ! i \<le> 1" if "i \<in> insert x ?D" for i
    using that b px l r(2,3) by (auto simp: balanced_def finished_def nth_list_update)
  have m: "mass (insert x ?D) t i = P0 ! i" if "i < n" for i
    using mass_round [OF st that refl P r(2,3)] b that by (simp add: balanced_def)
  show ?thesis using st' ranges sumt d m unfolding balanced_def set' by blast
qed

lemma stacks_push:
  assumes st: "stacks n s sm lg" and j: "j < n" "j \<notin> set (sm @ lg)"
  shows "stacks n (push_small j s) (j # sm) lg" "stacks n (push_large j s) sm (j # lg)"
proof -
  have s: "unat (al_nSmall s) = length sm" "take (length sm) (al_Small s) = rev sm"
    "unat (al_nLarge s + 1) = n - length lg" "drop (n - length lg) (al_Large s) = lg"
    "length (al_Small s) = n" "length (al_Large s) = n" "0 < n" "n < 2 ^ 31" "set (sm @ lg) \<subseteq> {..<n}" "distinct (sm @ lg)"
    using st by (auto simp: stacks_def)
  have "card (set (j # sm @ lg)) \<le> card {..<n}" using s(9) j by (intro card_mono) auto
  moreover have "card (set (j # sm @ lg)) = Suc (length sm + length lg)" using s(10) j by (subst distinct_card) auto
  ultimately have le: "length sm + length lg < n" by simp
  have "unat (al_nSmall s + 1) = Suc (length sm)" using s(1,8) le by (subst unat_word_ariths(1)) auto
  moreover have "take (Suc (length sm)) ((al_Small s)[length sm := j]) = rev sm @ [j]"
    using s(2,5) le by (simp add: take_Suc_conv_app_nth)
  ultimately show "stacks n (push_small j s) (j # sm) lg"
    using st j s by (auto simp: stacks_def push_small_def)
  have nz: "al_nLarge s + 1 \<noteq> 0" using s(3) le by auto
  have k: "unat (al_nLarge s) = n - Suc (length lg)"
    using unat_minus_one [OF nz] s(3) by simp
  have "drop (n - Suc (length lg)) ((al_Large s)[n - Suc (length lg) := j]) = j # lg"
  proof -
    have "Suc (n - Suc (length lg)) = n - length lg" using le by simp
    then show ?thesis using s(4,6) le by (simp add: drop_update_cancel Cons_nth_drop_Suc [symmetric])
  qed
  then show "stacks n (push_large j s) sm (j # lg)"
    using st j s k by (auto simp: stacks_def push_large_def)
qed

lemma alias_split_loop:
  assumes "stacks n s sm lg" "distinct js" "set js \<subseteq> {..<n}" "set js \<inter> set (sm @ lg) = {}"
    "\<forall>i \<in> set sm. al_P s ! i < 1" "\<forall>i \<in> set lg. 1 \<le> al_P s ! i"
  shows "\<exists>sm' lg'. let t = fold (\<lambda>j s. if al_P s ! j < 1 then push_small j s else push_large j s) js s in
     stacks n t sm' lg' \<and> set sm' \<union> set lg' = set sm \<union> set lg \<union> set js \<and> al_P t = al_P s \<and> al_prob t = al_prob s \<and>
     al_alias t = al_alias s \<and> (\<forall>i \<in> set sm'. al_P t ! i < 1) \<and> (\<forall>i \<in> set lg'. 1 \<le> al_P t ! i)"
  using assms
proof (induction js arbitrary: s sm lg)
  case Nil
  then show ?case by (auto simp: Let_def)
next
  case (Cons j js)
  have j: "j < n" "j \<notin> set (sm @ lg)" using Cons.prems by auto
  note push = stacks_push [OF Cons.prems(1) j]
  have P: "al_P (push_small j s) = al_P s" "al_P (push_large j s) = al_P s" "al_prob (push_small j s) = al_prob s"
    "al_prob (push_large j s) = al_prob s" "al_alias (push_small j s) = al_alias s" "al_alias (push_large j s) = al_alias s"
    by (simp_all add: push_small_def push_large_def)
  show ?case
  proof (cases "al_P s ! j < 1")
    case True
    have "\<exists>sm' lg'. let t = fold (\<lambda>j s. if al_P s ! j < 1 then push_small j s else push_large j s) js (push_small j s) in
     stacks n t sm' lg' \<and> set sm' \<union> set lg' = set (j # sm) \<union> set lg \<union> set js \<and> al_P t = al_P (push_small j s) \<and>
     al_prob t = al_prob (push_small j s) \<and> al_alias t = al_alias (push_small j s) \<and>
     (\<forall>i \<in> set sm'. al_P t ! i < 1) \<and> (\<forall>i \<in> set lg'. 1 \<le> al_P t ! i)"
      by (rule Cons.IH [OF push(1)]) (use Cons.prems True P in auto)
    then show ?thesis using True P by (simp add: Let_def)
  next
    case False
    have "\<exists>sm' lg'. let t = fold (\<lambda>j s. if al_P s ! j < 1 then push_small j s else push_large j s) js (push_large j s) in
     stacks n t sm' lg' \<and> set sm' \<union> set lg' = set sm \<union> set (j # lg) \<union> set js \<and> al_P t = al_P (push_large j s) \<and>
     al_prob t = al_prob (push_large j s) \<and> al_alias t = al_alias (push_large j s) \<and>
     (\<forall>i \<in> set sm'. al_P t ! i < 1) \<and> (\<forall>i \<in> set lg'. 1 \<le> al_P t ! i)"
      by (rule Cons.IH [OF push(2)]) (use Cons.prems False P in auto)
    then show ?thesis using False P by (simp add: Let_def)
  qed
qed

lemma alias_split_stacks:
  assumes "0 < n" "n < 2 ^ 31" "length P = n"
  obtains sm lg where "stacks n (alias_split n P) sm lg" "set sm \<union> set lg = {..<n}" "al_P (alias_split n P) = P"
    "al_alias (alias_split n P) = replicate n 0" "\<forall>i \<in> set sm. P ! i < 1" "\<forall>i \<in> set lg. 1 \<le> P ! i"
proof -
  let ?s = "\<lparr>al_P = P, al_Small = replicate n 0, al_Large = replicate n 0, al_nSmall = 0,
        al_nLarge = word_of_nat n - 1, al_prob = replicate n 0, al_alias = replicate n 0\<rparr>"
  have "unat (word_of_nat n :: u32) = n" using assms(2) by (simp add: unat_of_nat take_bit_nat_eq_self)
  then have "stacks n ?s [] []" using assms by (simp add: stacks_def)
  from alias_split_loop [OF this, of "rev [0..<n]"] show ?thesis
    using that by (auto simp: alias_split_def Let_def atLeast0LessThan)
qed

lemma drain_small_eq:
  assumes "take (length sm) (al_Small s) = rev sm" "length sm \<le> length (al_Small s)"
  shows "al_prob (drain_small (length sm) s) = fold (\<lambda>i p. p[i := 1]) sm (al_prob s) \<and>
    al_alias (drain_small (length sm) s) = al_alias s \<and> al_Large (drain_small (length sm) s) = al_Large s \<and>
    al_nLarge (drain_small (length sm) s) = al_nLarge s"
  using assms
proof (induction sm arbitrary: s)
  case (Cons x sm)
  have t: "take (Suc (length sm)) (al_Small s) = rev sm @ [x]" using Cons.prems by simp
  have "take (Suc (length sm)) (al_Small s) ! length sm = x" unfolding t by (simp add: nth_append)
  then have x: "al_Small s ! length sm = x" by simp
  have "take (length sm) (al_Small s) = rev sm" using arg_cong [OF t, of "take (length sm)"] by simp
  then show ?case
    using Cons.IH [of "s\<lparr>al_nSmall := word_of_nat (length sm), al_prob := (al_prob s)[x := 1]\<rparr>"] Cons.prems(2) x by simp
qed simp

lemma drain_large_eq:
  assumes "0 < n" "n < 2 ^ 31" "unat (al_nLarge s + 1) = n - length lg" "length lg \<le> n" "drop (n - length lg) (al_Large s) = lg"
  shows "al_prob (drain_large (word_of_nat n) s) = fold (\<lambda>i p. p[i := 1]) lg (al_prob s) \<and>
    al_alias (drain_large (word_of_nat n) s) = al_alias s"
  using assms(3-5)
proof (induction lg arbitrary: s)
  have n: "unat (word_of_nat n :: u32) = n" using assms(2) by (simp add: unat_of_nat take_bit_nat_eq_self)
  have end_iff: "al_nLarge s = word_of_nat n - 1 \<longleftrightarrow> unat (al_nLarge s + 1) = n" for s
    using n by (metis add_diff_cancel diff_add_cancel word_unat_eq_iff)
  {
    case Nil
    then have "drain_large (word_of_nat n) s = s" using end_iff [of s] by (subst drain_large.simps) simp
    then show ?case by simp
  next
    case (Cons y lg)
    have ne: "al_nLarge s \<noteq> word_of_nat n - 1" using end_iff [of s] Cons.prems assms(1) by auto
    have y: "al_Large s ! (n - Suc (length lg)) = y"
      using Cons.prems(3) by (metis drop_all hd_drop_conv_nth leI length_Cons list.sel(1) list.simps(3))
    have le: "Suc (n - Suc (length lg)) = n - length lg" using Cons.prems(2) by simp
    have 1: "unat (al_nLarge (drain_one s) + 1) = n - length lg"
      using Cons.prems(1) le assms(2) unfolding al_nLarge_drain_one by (subst unat_word_ariths(1)) auto
    have 2: "drop (n - length lg) (al_Large (drain_one s)) = lg"
      using arg_cong [OF Cons.prems(3), of "drop 1"] le by (simp add: drain_one_def Let_def)
    have p: "al_prob (drain_one s) = (al_prob s)[y := 1]" "al_alias (drain_one s) = al_alias s"
      using y Cons.prems(1) by (simp_all add: drain_one_def Let_def)
    have "drain_large (word_of_nat n) s = drain_large (word_of_nat n) (drain_one s)"
      using ne by (subst drain_large.simps) simp
    then show ?case using Cons.IH [of "drain_one s"] 1 2 Cons.prems(2) p by simp
  }
qed

lemma fold_set_one: "i < length p \<Longrightarrow> fold (\<lambda>i p. p[i := 1]) xs p ! i = (if i \<in> set xs then 1 else p ! i)"
  "length (fold (\<lambda>i p. p[i := 1]) xs p) = length p"
  by (induction xs arbitrary: p) (auto simp: nth_list_update)

lemma build_alias_eq:
  assumes st: "stacks n s sm lg" and s: "s = alias_pair rnd (word_of_nat n) (alias_split n P)"
  shows "build_alias rnd n P = (fold (\<lambda>i p. p[i := 1]) lg (fold (\<lambda>i p. p[i := 1]) sm (al_prob s)), al_alias s)"
proof -
  have f: "take (length sm) (al_Small s) = rev sm" "length (al_Small s) = n" "unat (al_nSmall s) = length sm"
    "unat (al_nLarge s + 1) = n - length lg" "drop (n - length lg) (al_Large s) = lg" "0 < n" "n < 2 ^ 31"
    using st by (auto simp: stacks_def)
  have le: "length sm + length lg \<le> n" using st by (rule stacks_le)
  let ?t = "drain_small (length sm) s"
  have t: "al_prob ?t = fold (\<lambda>i p. p[i := 1]) sm (al_prob s)" "al_alias ?t = al_alias s"
    "al_Large ?t = al_Large s" "al_nLarge ?t = al_nLarge s"
    using drain_small_eq [OF f(1)] le f(2) by auto
  have "al_prob (drain_large (word_of_nat n) ?t) = fold (\<lambda>i p. p[i := 1]) lg (al_prob ?t) \<and>
     al_alias (drain_large (word_of_nat n) ?t) = al_alias ?t"
    by (rule drain_large_eq) (use f t le in auto)
  then show ?thesis using f(3) t by (simp add: build_alias_def Let_def s [symmetric])
qed

text \<open>When one stack has run empty in exact arithmetic, whatever is left has mass exactly one.\<close>

lemma balanced_rest:
  assumes b: "balanced n P0 s sm lg" and e: "sm = [] \<or> lg = []" and i: "i \<in> set sm \<union> set lg"
  shows "al_P s ! i = 1"
proof (cases "sm = []")
  case True
  then have sumlg: "(\<Sum>i \<in> set lg. al_P s ! i - 1) = 0" using b by (simp add: balanced_def sum_subtractf)
  have "\<forall>i \<in> set lg. al_P s ! i - 1 = 0"
    using sumlg b by (subst (asm) sum_nonneg_eq_0_iff) (auto simp: balanced_def)
  then show ?thesis using i True by simp
next
  case False
  then have l: "lg = []" using e by simp
  have "(\<Sum>i \<in> set sm. al_P s ! i) < (\<Sum>i \<in> set sm. 1)"
    using b False by (intro sum_strict_mono) (auto simp: balanced_def)
  then show ?thesis using b l by (simp add: balanced_def)
qed

lemma nth_update_less: "j < length xs \<Longrightarrow> xs ! j < n \<Longrightarrow> y < n \<Longrightarrow> xs[x := y] ! j < (n :: nat)"
  by (cases "x = j") auto

lemma alias_pair_exact:
  assumes n: "0 < n" "n < 2 ^ 31" "length P = n" and P: "\<forall>x \<in> set P. 0 \<le> x" "sum_list P = of_nat n"
  obtains sm lg where "stacks n (alias_pair id (word_of_nat n) (alias_split n P)) sm lg"
    "balanced n P (alias_pair id (word_of_nat n) (alias_split n P)) sm lg" "sm = [] \<or> lg = []"
    "\<forall>j < n. al_alias (alias_pair id (word_of_nat n) (alias_split n P)) ! j < n"
proof -
  obtain sm lg where i: "stacks n (alias_split n P) sm lg" "set sm \<union> set lg = {..<n}" "al_P (alias_split n P) = P"
    "al_alias (alias_split n P) = replicate n 0" "\<forall>i \<in> set sm. P ! i < 1" "\<forall>i \<in> set lg. 1 \<le> P ! i"
    using alias_split_stacks [OF n] by blast
  have D: "finished n sm lg = {}" using i(2) by (auto simp: finished_def)
  have "(\<Sum>i < n. P ! i) = of_nat n" using P(2) n(3) by (simp add: sum_list_sum_nth atLeast0LessThan)
  moreover have "0 \<le> P ! i" if "i \<in> set sm" for i using P(1) n(3) that i(2) by (metis UnCI lessThan_iff nth_mem)
  ultimately have b: "balanced n P (alias_split n P) sm lg"
    using i by (simp add: balanced_def D mass_def)
  let ?I = "\<lambda>s sm lg. balanced n P s sm lg \<and> (\<forall>j < n. al_alias s ! j < n)"
  have step: "\<exists>sm' lg'. stacks n (alias_round id s) sm' lg' \<and> ?I (alias_round id s) sm' lg'"
    if "stacks n s (x # sm) (y # lg)" "?I s (x # sm) (y # lg)" for s x sm y lg
  proof -
    have "y < n" "length (al_alias s) = n" using that(1) by (auto simp: stacks_def)
    then have "\<forall>j < n. al_alias (alias_round id s) ! j < n"
      using that(2) alias_round_eq(3) [OF that(1), of id] by (simp add: nth_update_less)
    then show ?thesis using balanced_round [OF that(1)] that(2) by blast
  qed
  have "\<exists>sm lg. stacks n (alias_pair id (word_of_nat n) (alias_split n P)) sm lg \<and>
      ?I (alias_pair id (word_of_nat n) (alias_split n P)) sm lg \<and> (sm = [] \<or> lg = [])"
    by (rule alias_pair_invariant [where I = ?I, OF step i(1)]) (use b i(4) n in auto)
  then show ?thesis using that by blast
qed

lemma alias_pair_any:
  assumes n: "0 < n" "n < 2 ^ 31" "length P = n"
  obtains sm lg where "stacks n (alias_pair rnd (word_of_nat n) (alias_split n P)) sm lg"
    "\<forall>j < n. al_alias (alias_pair rnd (word_of_nat n) (alias_split n P)) ! j < n"
proof -
  obtain sm lg where i: "stacks n (alias_split n P) sm lg" "al_alias (alias_split n P) = replicate n 0"
    by (rule alias_split_stacks [OF n])
  let ?I = "\<lambda>s (sm::nat list) (lg::nat list). \<forall>j < n. al_alias s ! j < n"
  have step: "\<exists>sm' lg'. stacks n (alias_round rnd s) sm' lg' \<and> ?I (alias_round rnd s) sm' lg'"
    if "stacks n s (x # sm) (y # lg)" "?I s (x # sm) (y # lg)" for s x sm y lg
  proof -
    have "y < n" "length (al_alias s) = n" using that(1) by (auto simp: stacks_def)
    then have "\<forall>j < n. al_alias (alias_round rnd s) ! j < n"
      using that(2) alias_round_eq(3) [OF that(1), of rnd] by (simp add: nth_update_less)
    then show ?thesis using alias_round_eq(4) [OF that(1)] by blast
  qed
  have "\<exists>sm lg. stacks n (alias_pair rnd (word_of_nat n) (alias_split n P)) sm lg \<and>
      ?I (alias_pair rnd (word_of_nat n) (alias_split n P)) sm lg \<and> (sm = [] \<or> lg = [])"
    by (rule alias_pair_invariant [where I = ?I, OF step i(1)]) (use i(2) n in auto)
  then show ?thesis using that by blast
qed

section \<open>Properties\<close>

text \<open>C4. The alias table represents the weights: in exact arithmetic, for non-negative weights scaled to
  sum \<open>n\<close>, a uniform slot followed by the biased choice between the slot and its alias returns entry
  \<open>i\<close> with probability \<open>P[i] / n\<close>; all probabilities lie in the unit interval and all aliases are
  entries.\<close>

theorem alias_table_exact:
  assumes "0 < n" and "n < 2 ^ 31" and "length P = n" and "\<forall>x \<in> set P. 0 \<le> x" and "sum_list P = of_nat n"
  defines "pr \<equiv> fst (build_alias id n P)" and "al \<equiv> snd (build_alias id n P)"
  shows "(\<forall>i < n. pr ! i + (\<Sum>j \<in> {j. j < n \<and> al ! j = i}. 1 - pr ! j) = P ! i) \<and>
    (\<forall>i < n. 0 \<le> pr ! i \<and> pr ! i \<le> 1 \<and> al ! i < n)"
proof -
  define s where "s = alias_pair id (word_of_nat n) (alias_split n P)"
  obtain sm lg where st: "stacks n s sm lg" and b: "balanced n P s sm lg" and e: "sm = [] \<or> lg = []"
    and a: "\<forall>j < n. al_alias s ! j < n"
    using alias_pair_exact [OF assms(1-5)] unfolding s_def by blast
  have sets: "set sm \<union> set lg \<subseteq> {..<n}" and lp: "length (al_prob s) = n" using st by (auto simp: stacks_def)
  have pa: "pr = fold (\<lambda>i p. p[i := 1]) lg (fold (\<lambda>i p. p[i := 1]) sm (al_prob s))" "al = al_alias s"
    using build_alias_eq [OF st s_def] by (simp_all add: pr_def al_def)
  have pr: "pr ! i = (if i \<in> set sm \<union> set lg then 1 else al_prob s ! i)" if "i < n" for i
    using that lp by (simp add: pa fold_set_one)
  let ?D = "finished n sm lg"
  have D: "i \<in> ?D \<longleftrightarrow> i < n \<and> i \<notin> set sm \<union> set lg" for i by (auto simp: finished_def)
  have "pr ! i + (\<Sum>j \<in> {j. j < n \<and> al ! j = i}. 1 - pr ! j) = mass ?D s i" if i: "i < n" for i
  proof -
    have "(\<Sum>j \<in> {j. j < n \<and> al ! j = i}. 1 - pr ! j) = (\<Sum>j \<in> {j \<in> ?D. al ! j = i}. 1 - pr ! j)"
      by (rule sum.mono_neutral_right) (auto simp: D pr)
    also have "\<dots> = (\<Sum>j \<in> {j \<in> ?D. al_alias s ! j = i}. 1 - al_prob s ! j)"
      by (rule sum.cong) (auto simp: D pr pa(2))
    finally show ?thesis using i balanced_rest [OF b e] by (auto simp: mass_def pr D)
  qed
  moreover have "0 \<le> pr ! i \<and> pr ! i \<le> 1" if "i < n" for i
    using b that by (auto simp: pr balanced_def D)
  ultimately show ?thesis using b a by (auto simp: balanced_def pa(2))
qed

theorem alias_table_exact_witness:
  "let (pr, al) = build_alias id 2 [1 / 2, 3 / 2] in pr ! 1 + (\<Sum>j \<in> {j. j < 2 \<and> al ! j = 1}. 1 - pr ! j) = 3 / 2"
proof -
  have "\<forall>i < 2. fst (build_alias id 2 [1 / 2, 3 / 2]) ! i +
      (\<Sum>j \<in> {j. j < 2 \<and> snd (build_alias id 2 [1 / 2, 3 / 2]) ! j = i}. 1 - fst (build_alias id 2 [1 / 2, 3 / 2]) ! j) = [1 / 2, 3 / 2] ! i"
    by (rule alias_table_exact [THEN conjunct1]) simp_all
  from this [rule_format, of 1] show ?thesis by (simp only: case_prod_unfold Let_def) simp
qed

text \<open>C25. With the rounding of doubles (any rounding) the construction stays within its arrays and yields a
  table of the right size whose aliases are entries; so the draw of \<open>select_next_queue_entry\<close>, when
  the generator delivers, is a valid queue index.\<close>

theorem alias_selection_in_range:
  assumes "0 < queued_items a" and "queued_items a < 2 ^ 31" and "length P = queued_items a"
    and "build_alias rnd (queued_items a) P = (prob, alias)"
    and "select_next_queue_entry urandom (a\<lparr>alias_probability := prob, alias_table := alias\<rparr>) rs = Some (i, rs')"
  shows "i < queued_items a"
proof -
  let ?n = "queued_items a"
  obtain sm lg where st: "stacks ?n (alias_pair rnd (word_of_nat ?n) (alias_split ?n P)) sm lg"
    and al: "\<forall>j < ?n. al_alias (alias_pair rnd (word_of_nat ?n) (alias_split ?n P)) ! j < ?n"
    using alias_pair_any [OF assms(1-3)] by blast
  have eqal: "alias = al_alias (alias_pair rnd (word_of_nat ?n) (alias_split ?n P))"
    using build_alias_eq [OF st refl] assms(4) by simp
  have n: "unat (word_of_nat ?n :: u32) = ?n" using assms(2) by (simp add: unat_of_nat take_bit_nat_eq_self)
  obtain s rs2 where s: "rand_below urandom (word_of_nat ?n) rs = Some (s, rs2)"
    "i = unat s \<or> i = alias ! unat s"
    using assms(5) by (auto simp: select_next_queue_entry_def Let_def split: option.splits prod.splits if_splits)
  have "unat s < ?n" using rand_below_less [OF s(1)] assms(1) n by simp
  then show ?thesis using s(2) al eqal by auto
qed

theorem alias_selection_in_range_witness:
  "\<exists>i rs'. select_next_queue_entry (\<lambda>_. (0, 0, 0))
     ((campaign_start 64)\<lparr>queued_items := 1, alias_probability := fst (build_alias dbl 1 [1]),
        alias_table := snd (build_alias dbl 1 [1])\<rparr>)
     \<lparr>rand_seed0 = 7, rand_seed1 = 3, rand_seed2 = 1, rand_cnt = 5, init_seed = 0, rand_fixed = True,
      urandom_reads = 0\<rparr> = Some (i, rs') \<and> i < 1"
proof -
  let ?a = "(campaign_start 64)\<lparr>queued_items := 1\<rparr>"
  let ?rs = "\<lparr>rand_seed0 = 7, rand_seed1 = 3, rand_seed2 = 1, rand_cnt = 5, init_seed = 0, rand_fixed = True,
      urandom_reads = 0\<rparr>"
  let ?b = "?a\<lparr>alias_probability := fst (build_alias dbl 1 [1]), alias_table := snd (build_alias dbl 1 [1])\<rparr>"
  have b: "build_alias dbl (queued_items ?a) [1] = (fst (build_alias dbl 1 [1]), snd (build_alias dbl 1 [1]))" by simp
  obtain i rs' where s: "select_next_queue_entry (\<lambda>_. (0, 0, 0)) ?b ?rs = Some (i, rs')"
    by (simp add: select_next_queue_entry_def rand_below_def Let_def case_prod_unfold)
  have "i < queued_items ?a" by (rule alias_selection_in_range [OF _ _ _ b s]) simp_all
  then show ?thesis using s by auto
qed

end
