(* ===== verification/Sha1.thy ===== *)
theory Sha1
  imports Prelude
begin

unbundle bit_operations_syntax

text \<open>
  The SHA-1 of \<open>src/afl-performance.c\<close>, used for test case names under
  \<open>AFL_SHA1_FILENAMES\<close>: a streaming implementation with a 16-word circular message schedule kept
  in the block buffer itself. The little-endian branch of the byte-order conditionals is modelled:
  \<open>buffer\<close> is the 64 bytes of memory behind \<open>uint32_t buffer[16]\<close>, written bytewise at
  \<open>bufferOffset ^ 3\<close> and read as words.

  The second half states SHA-1 the way FIPS 180-2 does (pad the whole message, split it into
  blocks, expand each to an 80-word schedule), with none of the code's helpers, and proves the
  streaming code equal to it; the standard's side is evaluated on its test vector \<open>abc\<close>.
\<close>

section \<open>The implementation\<close>

record sha1nfo =
  buffer :: buf
  state :: "u32 list"
  byteCount :: u32
  bufferOffset :: u8
  keyBuffer :: buf
  innerHash :: buf

definition sha1_init :: "sha1nfo \<Rightarrow> sha1nfo" where
  "sha1_init s = s\<lparr>state := [0x67452301, 0xefcdab89, 0x98badcfe, 0x10325476, 0xc3d2e1f0],
     byteCount := 0, bufferOffset := 0\<rparr>"

definition sha1_rol32 :: "u32 \<Rightarrow> nat \<Rightarrow> u32" where
  "sha1_rol32 number bits = push_bit bits number OR drop_bit (32 - bits) number"

text \<open>Access to \<open>buffer[k]\<close> through the word type.\<close>

definition word_get :: "buf \<Rightarrow> nat \<Rightarrow> u32" where
  "word_get b k = le_word (take 4 (drop (4 * k) b))"

definition word_put :: "buf \<Rightarrow> nat \<Rightarrow> u32 \<Rightarrow> buf" where
  "word_put b k w = take (4 * k) b @ le_bytes 4 w @ drop (4 * k + 4) b"

text \<open>One iteration of the loop of \<open>sha1_hashBlock\<close>, on the buffer and the five registers.\<close>

type_synonym sha1_regs = "u32 \<times> u32 \<times> u32 \<times> u32 \<times> u32"

definition sha1_mix :: "nat \<Rightarrow> u32 \<Rightarrow> u32 \<Rightarrow> u32 \<Rightarrow> u32" where
  "sha1_mix i b c d =
     (if i < 20 then (d XOR (b AND (c XOR d))) + 0x5a827999
      else if i < 40 then (b XOR c XOR d) + 0x6ed9eba1
      else if i < 60 then ((b AND c) OR (d AND (b OR c))) + 0x8f1bbcdc
      else (b XOR c XOR d) + 0xca62c1d6)"

definition sha1_step :: "nat \<Rightarrow> buf \<times> sha1_regs \<Rightarrow> buf \<times> sha1_regs" where
  "sha1_step i s = (case s of (buf, a, b, c, d, e) \<Rightarrow>
     (let buf = (if i \<ge> 16
            then word_put buf (i mod 16)
                   (sha1_rol32 (word_get buf ((i + 13) mod 16) XOR word_get buf ((i + 8) mod 16) XOR
                                word_get buf ((i + 2) mod 16) XOR word_get buf (i mod 16)) 1)
            else buf);
          t = sha1_mix i b c d + (sha1_rol32 a 5 + e + word_get buf (i mod 16))
      in (buf, t, a, sha1_rol32 b 30, c, d)))"

definition sha1_hashBlock :: "sha1nfo \<Rightarrow> sha1nfo" where
  "sha1_hashBlock s =
     (let st = state s;
          (buf, a, b, c, d, e) =
            fold sha1_step [0..<80] (buffer s, st ! 0, st ! 1, st ! 2, st ! 3, st ! 4)
      in s\<lparr>buffer := buf, state := [st ! 0 + a, st ! 1 + b, st ! 2 + c, st ! 3 + d, st ! 4 + e]\<rparr>)"

text \<open>\<open>bufferOffset\<close> is a \<open>uint8_t\<close>; \<open>off ^ 3\<close> reverses the bytes within a word.\<close>

definition sha1_addUncounted :: "u8 \<Rightarrow> sha1nfo \<Rightarrow> sha1nfo" where
  "sha1_addUncounted data s =
     (let s = s\<lparr>buffer := (buffer s)[unat (bufferOffset s XOR 3) := data],
                bufferOffset := bufferOffset s + 1\<rparr>
      in if bufferOffset s = 64 then (sha1_hashBlock s)\<lparr>bufferOffset := 0\<rparr> else s)"

definition sha1_writebyte :: "u8 \<Rightarrow> sha1nfo \<Rightarrow> sha1nfo" where
  "sha1_writebyte data s = sha1_addUncounted data (s\<lparr>byteCount := byteCount s + 1\<rparr>)"

definition sha1_write :: "buf \<Rightarrow> sha1nfo \<Rightarrow> sha1nfo" where
  "sha1_write data s = fold sha1_writebyte data s"

lemma bufferOffset_addUncounted:
  "bufferOffset (sha1_addUncounted x s) = (if bufferOffset s + 1 = 64 then 0 else bufferOffset s + 1)"
  by (simp add: sha1_addUncounted_def Let_def)

text \<open>The padding loop ends for every offset, also for one a caller could not produce.\<close>

definition pad_distance :: "u8 \<Rightarrow> nat" where
  "pad_distance k = (let n = unat k in
     if n \<le> 56 then 56 - n else if n < 64 then 57 + (64 - n) else 57 + (256 - n))"

lemma pad_distance_decreases:
  assumes "k \<noteq> 56"
  shows "pad_distance (if k + 1 = 64 then 0 else k + 1) < pad_distance k"
proof -
  have b: "unat k < 256" "unat k \<noteq> 56"
    using unsigned_less [of k, where 'a = nat] assms by (auto simp: word_unat_eq_iff)
  have "unat (k + 1) = (if unat k = 255 then 0 else unat k + 1)"
    using b(1) by (auto simp: unat_word_ariths)
  moreover have "k + 1 = 64 \<longleftrightarrow> unat (k + 1) = 64" by (simp add: word_unat_eq_iff)
  ultimately show ?thesis using b by (auto simp: pad_distance_def Let_def split: if_splits)
qed

function sha1_pad_zeros :: "sha1nfo \<Rightarrow> sha1nfo" where
  "sha1_pad_zeros s = (if bufferOffset s \<noteq> 56 then sha1_pad_zeros (sha1_addUncounted 0 s) else s)"
  by pat_completeness auto
termination
  by (relation "measure (\<lambda>s. pad_distance (bufferOffset s))")
     (rule wf_measure, unfold in_measure bufferOffset_addUncounted, erule pad_distance_decreases)

declare sha1_pad_zeros.simps [simp del]

definition sha1_pad :: "sha1nfo \<Rightarrow> sha1nfo" where
  "sha1_pad s =
     (let s = sha1_pad_zeros (sha1_addUncounted 0x80 s);
          n = byteCount s
      in fold sha1_addUncounted
           [0, 0, 0, ucast (drop_bit 29 n), ucast (drop_bit 21 n), ucast (drop_bit 13 n),
            ucast (drop_bit 5 n), ucast (push_bit 3 n)] s)"

definition sha1_swap :: "u32 \<Rightarrow> u32" where
  "sha1_swap w = (push_bit 24 w AND 0xff000000) OR (push_bit 8 w AND 0x00ff0000) OR
     (drop_bit 8 w AND 0x0000ff00) OR (drop_bit 24 w AND 0x000000ff)"

text \<open>\<open>sha1_result\<close> returns a pointer to the swapped state: the model returns its 20 bytes.\<close>

definition sha1_result :: "sha1nfo \<Rightarrow> buf \<times> sha1nfo" where
  "sha1_result s =
     (let s = sha1_pad s; s = s\<lparr>state := map sha1_swap (state s)\<rparr>
      in (concat (map (le_bytes 4) (state s)), s))"

definition sha1 :: "sha1nfo \<Rightarrow> buf \<Rightarrow> buf" where
  "sha1 s data = fst (sha1_result (sha1_write data (sha1_init s)))"

definition hexdigit :: "nat \<Rightarrow> char" where
  "hexdigit n = (if n < 10 then char_of (48 + n) else char_of (87 + n))"

definition sha1_hex :: "sha1nfo \<Rightarrow> buf \<Rightarrow> string" where
  "sha1_hex s data = concat (map (\<lambda>b. [hexdigit (unat b div 16), hexdigit (unat b mod 16)]) (sha1 s data))"

text \<open>
  \<open>keyLength\<close> is a signed \<open>int\<close>: \<open>None\<close> is a negative length (\<open>memcpy\<close> gets it as a huge
  \<open>size_t\<close>) or one beyond the bytes \<open>key\<close> points to.
\<close>

definition sha1_initHmac :: "buf \<Rightarrow> int \<Rightarrow> sha1nfo \<Rightarrow> sha1nfo option" where
  "sha1_initHmac key keyLength s =
     (if keyLength < 0 \<or> int (length key) < keyLength then None
      else let key = take (nat keyLength) key;
          kb = replicate 64 0;
          (kb, s) = (if keyLength > 64
             then let (h, s) = sha1_result (fold sha1_writebyte key (sha1_init s)) in (h @ drop 20 kb, s)
             else (key @ drop (length key) kb, s));
          s = sha1_init (s\<lparr>keyBuffer := kb\<rparr>)
      in Some (fold (\<lambda>i. sha1_writebyte ((keyBuffer s ! i) XOR 0x36)) [0..<64] s))"

definition sha1_resultHmac :: "sha1nfo \<Rightarrow> buf \<times> sha1nfo" where
  "sha1_resultHmac s =
     (let (h, s) = sha1_result s;
          s = sha1_init (s\<lparr>innerHash := h\<rparr>);
          s = fold (\<lambda>i. sha1_writebyte ((keyBuffer s ! i) XOR 0x5c)) [0..<64] s;
          s = fold (\<lambda>i. sha1_writebyte (innerHash s ! i)) [0..<20] s
      in sha1_result s)"

section \<open>SHA-1 as FIPS 180-2 states it\<close>

text \<open>
  The standard, written without the code's helpers: rotation is \<open>word_rotl\<close>, the functions
  Ch, Parity and Maj and the constants \<open>K\<close> are those of sections 4.1.1 and 4.2.1, numbers are
  big-endian sums of powers of 256 (section 3.1), the schedule is the 80-word recurrence of 6.1.2.
\<close>

definition fips_f :: "nat \<Rightarrow> u32 \<Rightarrow> u32 \<Rightarrow> u32 \<Rightarrow> u32" where
  "fips_f t x y z =
     (if t \<le> 19 then (x AND y) XOR (NOT x AND z)
      else if 40 \<le> t \<and> t \<le> 59 then (x AND y) XOR (x AND z) XOR (y AND z)
      else x XOR y XOR z)"

definition fips_K :: "nat \<Rightarrow> u32" where
  "fips_K t = [1518500249, 1859775393, 2400959708, 3395469782] ! (t div 20)"

definition be_word :: "buf \<Rightarrow> u32" where
  "be_word bs = word_of_nat (foldl (\<lambda>n b. 256 * n + unat b) 0 bs)"

definition be_bytes :: "nat \<Rightarrow> nat \<Rightarrow> buf" where
  "be_bytes k n = map (\<lambda>i. word_of_nat (n div 256 ^ i)) (rev [0..<k])"

definition msg_words :: "buf \<Rightarrow> u32 list" where
  "msg_words blk = map (\<lambda>k. be_word (take 4 (drop (4 * k) blk))) [0..<16]"

fun fips_W :: "u32 list \<Rightarrow> nat \<Rightarrow> u32" where
  "fips_W M t = (if t < 16 then M ! t
     else word_rotl 1 (fips_W M (t - 3) XOR fips_W M (t - 8) XOR fips_W M (t - 14) XOR fips_W M (t - 16)))"

declare fips_W.simps [simp del]

definition fips_round :: "u32 list \<Rightarrow> nat \<Rightarrow> sha1_regs \<Rightarrow> sha1_regs" where
  "fips_round M t r = (case r of (a, b, c, d, e) \<Rightarrow>
     (word_rotl 5 a + fips_f t b c d + e + fips_K t + fips_W M t, a, word_rotl 30 b, c, d))"

definition fips_block :: "buf \<Rightarrow> u32 list \<Rightarrow> u32 list" where
  "fips_block blk H =
     (let (a, b, c, d, e) = fold (fips_round (msg_words blk)) [0..<80] (H ! 0, H ! 1, H ! 2, H ! 3, H ! 4)
      in [H ! 0 + a, H ! 1 + b, H ! 2 + c, H ! 3 + d, H ! 4 + e])"

fun fips_blocks :: "nat \<Rightarrow> buf \<Rightarrow> u32 list \<Rightarrow> u32 list" where
  "fips_blocks 0 m H = H"
| "fips_blocks (Suc n) m H = fips_blocks n (drop 64 m) (fips_block (take 64 m) H)"

definition fips_pad :: "buf \<Rightarrow> buf" where
  "fips_pad m = m @ [0x80] @ replicate ((119 - length m mod 64) mod 64) 0 @ be_bytes 8 (8 * length m)"

definition fips_sha1 :: "buf \<Rightarrow> buf" where
  "fips_sha1 m = concat (map (\<lambda>w. be_bytes 4 (unat w))
     (fips_blocks (length (fips_pad m) div 64) (fips_pad m)
        [0x67452301, 0xefcdab89, 0x98badcfe, 0x10325476, 0xc3d2e1f0]))"

text \<open>HMAC (RFC 2104) on top of it.\<close>

definition hmac_key :: "buf \<Rightarrow> buf" where
  "hmac_key key = (let k = (if length key > 64 then fips_sha1 key else key) in k @ replicate (64 - length k) 0)"

definition hmac_spec :: "buf \<Rightarrow> buf \<Rightarrow> buf" where
  "hmac_spec key m = fips_sha1 (map ((XOR) 0x5c) (hmac_key key) @
     fips_sha1 (map ((XOR) 0x36) (hmac_key key) @ m))"

section \<open>The code's helpers against the standard's\<close>

lemma sha1_rol32_rotl:
  assumes "0 < n" "n < 32"
  shows "sha1_rol32 w n = word_rotl n w"
proof (rule bit_word_eqI)
  fix i assume i: "i < LENGTH(32)"
  have s: "i < n \<Longrightarrow> (i + (32 - n)) mod 32 = 32 - n + i" using assms by simp
  have l: "\<not> i < n \<Longrightarrow> (i + (32 - n)) mod 32 = i - n"
  proof -
    assume "\<not> i < n"
    then have "i + (32 - n) = (i - n) + 32" using assms by simp
    then show ?thesis using i by (simp only: mod_add_self2) simp
  qed
  show "bit (sha1_rol32 w n) i = bit (word_rotl n w) i"
    using i s l assms by (cases "i < n") (auto simp: sha1_rol32_def bit_simps bit_word_rotl_iff dest: bit_imp_le_length)
qed

lemma sha1_mix_fips: "t < 80 \<Longrightarrow> sha1_mix t b c d = fips_f t b c d + fips_K t"
proof -
  assume t: "t < 80"
  have ch: "d XOR (b AND (c XOR d)) = (b AND c) XOR (NOT b AND d)"
    and maj: "(b AND c) OR (d AND (b OR c)) = (b AND c) XOR (b AND d) XOR (c AND d)"
    by (rule bit_word_eqI; auto simp: bit_simps)+
  consider "t div 20 = 0" "t < 20" | "t div 20 = 1" "20 \<le> t" "t < 40"
    | "t div 20 = 2" "40 \<le> t" "t < 60" | "t div 20 = 3" "60 \<le> t"
    using t by linarith
  then show ?thesis by cases (simp_all add: sha1_mix_def fips_f_def fips_K_def ch maj)
qed

lemma be_word_le_word: "be_word bs = le_word (rev bs)"
proof -
  have "(word_of_nat (foldl (\<lambda>n b. 256 * n + unat b) 0 bs) :: u32) = le_word (rev bs)"
  proof (induction bs rule: rev_induct)
    case (snoc b bs)
    have d: "(ucast b :: u32) OR push_bit 8 w = ucast b + push_bit 8 w" for w :: u32
      by (rule disjunctive_add [symmetric]) (auto simp: bit_simps dest: bit_imp_le_length)
    show ?case using snoc by (simp add: d) (simp add: push_bit_eq_mult add.commute)
  qed simp
  then show ?thesis by (simp add: be_word_def)
qed

lemma byte_at_of_nat:
  "8 * k + 8 \<le> LENGTH('a::len) \<Longrightarrow> byte_at (word_of_nat n :: 'a word) k = word_of_nat (n div 256 ^ k)"
proof -
  assume k: "8 * k + 8 \<le> LENGTH('a)"
  have "(256::nat) ^ k = 2 ^ (8 * k)" by (simp add: power_mult)
  then show ?thesis
    by (intro bit_word_eqI) (use k in \<open>auto simp: bit_byte_at bit_simps drop_bit_eq_div [symmetric]\<close>)
qed

lemma be_bytes_le_bytes:
  "8 * k \<le> LENGTH('a::len) \<Longrightarrow> be_bytes k n = rev (le_bytes k (word_of_nat n :: 'a word))"
  by (auto simp: be_bytes_def le_bytes_def rev_map [symmetric] byte_at_of_nat intro!: map_cong)

lemma be_bytes_word: "be_bytes 4 (unat (w :: u32)) = rev (le_bytes 4 w)"
  using be_bytes_le_bytes [of 4 "unat w", where 'a = 32] by simp

lemma be_bytes_8: "be_bytes 8 n = rev (le_bytes 8 (word_of_nat n :: u64))"
  by (rule be_bytes_le_bytes) simp

lemma length_be_bytes [simp]: "length (be_bytes k n) = k"
  by (simp add: be_bytes_def)

section \<open>The circular schedule\<close>

lemma length_word_put [simp]: "k < 16 \<Longrightarrow> length b = 64 \<Longrightarrow> length (word_put b k w) = 64"
  by (auto simp: word_put_def)

lemma nth_word_put:
  assumes "k < 16" "length b = 64" "i < 64"
  shows "word_put b k w ! i = (if 4 * k \<le> i \<and> i < 4 * k + 4 then byte_at w (i - 4 * k) else b ! i)"
  using assms by (auto simp: word_put_def nth_append nth_le_bytes min_def)

lemma word_get_put:
  assumes "j < 16" "k < 16" "length b = 64"
  shows "word_get (word_put b k w) j = (if j = k then w else word_get b j)"
proof (cases "j = k")
  case True
  have "take 4 (drop (4 * k) (word_put b k w)) = le_bytes 4 w"
    using assms by (simp add: word_put_def)
  then show ?thesis using True by (simp add: word_get_def)
next
  case False
  have "take 4 (drop (4 * j) (word_put b k w)) = take 4 (drop (4 * j) b)"
  proof (rule nth_equalityI)
    fix i assume "i < length (take 4 (drop (4 * j) (word_put b k w)))"
    then have i: "i < 4" by simp
    then have "\<not> (4 * k \<le> 4 * j + i \<and> 4 * j + i < 4 * k + 4)" using False by linarith
    then show "take 4 (drop (4 * j) (word_put b k w)) ! i = take 4 (drop (4 * j) b) ! i"
      using assms i by (subst nth_take, simp, subst nth_drop, simp, subst nth_word_put) auto
  qed (use assms in simp)
  with False show ?thesis by (simp add: word_get_def)
qed

definition sched_window :: "buf \<Rightarrow> u32 list \<Rightarrow> nat \<Rightarrow> bool" where
  "sched_window b M t \<longleftrightarrow> length b = 64 \<and> (\<forall>j. j < max t 16 \<and> max t 16 \<le> j + 16 \<longrightarrow> word_get b (j mod 16) = fips_W M j)"

lemma sha1_rol32_simps:
  "sha1_rol32 w 1 = word_rotl 1 w" "sha1_rol32 w 5 = word_rotl 5 w" "sha1_rol32 w 30 = word_rotl 30 w"
  by (simp_all add: sha1_rol32_rotl)

lemma sched_window_step:
  assumes "sched_window b M t" "t < 80"
  shows "\<exists>b'. sha1_step t (b, r) = (b', fips_round M t r) \<and> sched_window b' M (Suc t)"
proof -
  obtain ra rb rc rd re where r: "r = (ra, rb, rc, rd, re)" by (cases r) auto
  show ?thesis
  proof (cases "t < 16")
    case True
    then have "word_get b (t mod 16) = fips_W M t" using assms by (auto simp: sched_window_def)
    moreover have "sched_window b M (Suc t)" using assms True by (auto simp: sched_window_def max_def split: if_splits)
    ultimately show ?thesis using True
      by (auto simp: r sha1_step_def fips_round_def Let_def sha1_rol32_simps sha1_mix_fips [OF assms(2)] ac_simps)
  next
    case False
    then have g: "word_get b (j mod 16) = fips_W M j" if "j < t" "t \<le> j + 16" for j
      using assms that by (auto simp: sched_window_def)
    have eqs: "t + 13 = t - 3 + 16" "t + 8 = t - 8 + 16" "t + 2 = t - 14 + 16" "t = t - 16 + 16"
      using False by simp_all
    have m: "(t + 13) mod 16 = (t - 3) mod 16" "(t + 8) mod 16 = (t - 8) mod 16"
      "(t + 2) mod 16 = (t - 14) mod 16" "t mod 16 = (t - 16) mod 16"
      by (metis eqs(1) mod_add_self2, metis eqs(2) mod_add_self2, metis eqs(3) mod_add_self2,
          metis eqs(4) mod_add_self2)
    let ?w = "sha1_rol32 (word_get b ((t + 13) mod 16) XOR word_get b ((t + 8) mod 16) XOR
                                word_get b ((t + 2) mod 16) XOR word_get b (t mod 16)) 1"
    have w: "?w = fips_W M t"
      unfolding m sha1_rol32_simps using False by (subst fips_W.simps) (simp add: g not_less)
    let ?b = "word_put b (t mod 16) ?w"
    have l: "length b = 64" using assms by (simp add: sched_window_def)
    have "sched_window ?b M (Suc t)"
      unfolding sched_window_def
    proof (intro conjI allI impI)
      show "length ?b = 64" using l by simp
      fix j assume j: "j < max (Suc t) 16 \<and> max (Suc t) 16 \<le> j + 16"
      show "word_get ?b (j mod 16) = fips_W M j"
      proof (cases "j = t")
        case True
        then show ?thesis using l w by (simp add: word_get_put)
      next
        case jt: False
        with j False have "j < t" "t < j + 16" by auto
        then have "\<not> 16 dvd t - j" by (intro nat_dvd_not_less) auto
        then have "j mod 16 \<noteq> t mod 16" using \<open>j < t\<close> by (metis less_imp_le mod_eq_dvd_iff_nat)
        then show ?thesis using l \<open>j < t\<close> \<open>t < j + 16\<close> by (simp add: word_get_put g)
      qed
    qed
    moreover have "word_get ?b (t mod 16) = fips_W M t" using l w by (simp add: word_get_put)
    ultimately show ?thesis using False
      by (intro exI [of _ ?b]) (simp add: r sha1_step_def fips_round_def Let_def sha1_mix_fips [OF assms(2)] sha1_rol32_simps(2,3) ac_simps)
  qed
qed

lemma sched_window_fold:
  assumes "sched_window b M 0" "n \<le> 80"
  shows "\<exists>b'. fold sha1_step [0..<n] (b, r) = (b', fold (fips_round M) [0..<n] r) \<and> sched_window b' M n"
  using assms(2)
proof (induction n)
  case (Suc n)
  then obtain b' where b': "fold sha1_step [0..<n] (b, r) = (b', fold (fips_round M) [0..<n] r)" "sched_window b' M n"
    by (meson Suc_leD)
  from sched_window_step [OF b'(2), of "fold (fips_round M) [0..<n] r"] Suc.prems obtain b'' where
    "sha1_step n (b', fold (fips_round M) [0..<n] r) = (b'', fips_round M n (fold (fips_round M) [0..<n] r))"
    "sched_window b'' M (Suc n)" by (meson Suc_le_lessD)
  with b'(1) show ?case by simp
qed (use assms in simp)

text \<open>The block the code hashes: byte \<open>i\<close> was stored at \<open>i ^ 3\<close>.\<close>

definition block_of :: "buf \<Rightarrow> buf" where
  "block_of b = map (\<lambda>i. b ! (i XOR 3)) [0..<64]"

lemma xor_3_nat: "x XOR 3 = x div 4 * 4 + (3 - x mod (4::nat))"
proof -
  have m: "(3::nat) = mask 2" by (simp add: mask_eq_exp_minus_1)
  have "x XOR 3 = push_bit 2 (drop_bit 2 x) OR (take_bit 2 x XOR 3)"
  proof (rule bit_eqI)
    fix n
    have "\<not> n < 2 \<Longrightarrow> Suc (Suc (n - 2)) = n" by simp
    then show "bit (x XOR 3) n = bit (push_bit 2 (drop_bit 2 x) OR (take_bit 2 x XOR 3)) n"
      unfolding m by (auto simp: bit_simps)
  qed
  also have "\<dots> = push_bit 2 (drop_bit 2 x) + (take_bit 2 x XOR 3)"
    unfolding m by (rule disjunctive_add [symmetric]) (auto simp: bit_simps)
  also have "take_bit 2 x XOR 3 = 3 - x mod 4"
  proof -
    have "x mod 4 \<in> {0, 1, 2, 3}" by auto
    then show ?thesis by (auto simp: take_bit_eq_mod)
  qed
  finally show ?thesis by (simp add: push_bit_eq_mult drop_bit_eq_div)
qed

lemma word_get_block:
  assumes "length b = 64" "k < 16"
  shows "word_get b k = msg_words (block_of b) ! k"
proof -
  have "rev (take 4 (drop (4 * k) (block_of b))) = take 4 (drop (4 * k) b)"
  proof (rule nth_equalityI)
    show "length (rev (take 4 (drop (4 * k) (block_of b)))) = length (take 4 (drop (4 * k) b))"
      using assms by (simp add: block_of_def)
    fix i assume "i < length (rev (take 4 (drop (4 * k) (block_of b))))"
    then have i: "i < 4" by simp
    have "4 * k + (3 - i) < 64" using assms i by simp
    moreover have "(4 * k + (3 - i)) XOR 3 = 4 * k + i"
    proof -
      have "(4 * k + (3 - i)) mod 4 = (3 - i) mod 4" by (rule mod_mult_self4)
      moreover have "(4 * k + (3 - i)) div 4 = k" using i by simp
      ultimately have "(4 * k + (3 - i)) div 4 = k" "(4 * k + (3 - i)) mod 4 = 3 - i" using i by simp_all
      then show ?thesis using assms i by (subst xor_3_nat) simp_all
    qed
    ultimately show "rev (take 4 (drop (4 * k) (block_of b))) ! i = take 4 (drop (4 * k) b) ! i"
      using assms i by (simp add: block_of_def rev_nth)
  qed
  then show ?thesis using assms by (simp add: msg_words_def word_get_def be_word_le_word)
qed

lemma hashBlock_eq:
  assumes "length (buffer s) = 64"
  shows "\<exists>b. length b = 64 \<and>
    sha1_hashBlock s = s\<lparr>buffer := b, state := fips_block (block_of (buffer s)) (state s)\<rparr>"
proof -
  let ?M = "msg_words (block_of (buffer s))"
  have "sched_window (buffer s) ?M 0"
    using assms by (auto simp: sched_window_def word_get_block fips_W.simps)
  from sched_window_fold [OF this, of 80 "(state s ! 0, state s ! 1, state s ! 2, state s ! 3, state s ! 4)"]
  obtain b where "fold sha1_step [0..<80] (buffer s, state s ! 0, state s ! 1, state s ! 2, state s ! 3, state s ! 4) =
     (b, fold (fips_round ?M) [0..<80] (state s ! 0, state s ! 1, state s ! 2, state s ! 3, state s ! 4))" "length b = 64"
    by (auto simp: sched_window_def)
  then show ?thesis
    by (intro exI [of _ b]) (auto simp: sha1_hashBlock_def fips_block_def Let_def split: prod.split)
qed

section \<open>The streaming state\<close>

lemma fips_blocks_append: "64 * n \<le> length m \<Longrightarrow> fips_blocks n (m @ m') H = fips_blocks n m H"
  by (induction n arbitrary: m H) simp_all

lemma fips_blocks_Suc:
  "fips_blocks (Suc n) m H = fips_block (take 64 (drop (64 * n) m)) (fips_blocks n m H)"
proof (induction n arbitrary: m H)
  case (Suc n)
  have "fips_blocks (Suc (Suc n)) m H = fips_blocks (Suc n) (drop 64 m) (fips_block (take 64 m) H)" by simp
  also have "\<dots> = fips_block (take 64 (drop (64 * n) (drop 64 m))) (fips_blocks n (drop 64 m) (fips_block (take 64 m) H))"
    by (rule Suc.IH)
  finally show ?case by (simp add: add.commute)
qed simp

definition sha1_iv :: "u32 list" where
  "sha1_iv = [0x67452301, 0xefcdab89, 0x98badcfe, 0x10325476, 0xc3d2e1f0]"

definition absorbed :: "sha1nfo \<Rightarrow> buf \<Rightarrow> bool" where
  "absorbed s m \<longleftrightarrow> length (buffer s) = 64 \<and> unat (bufferOffset s) = length m mod 64 \<and>
     state s = fips_blocks (length m div 64) m sha1_iv \<and>
     (\<forall>i < length m mod 64. buffer s ! (i XOR 3) = m ! (64 * (length m div 64) + i))"

lemma xor_3_inj: "x < 64 \<Longrightarrow> y < 64 \<Longrightarrow> x XOR 3 = (y XOR 3 :: nat) \<longleftrightarrow> x = y"
  by (metis xor.assoc xor_self_eq xor.right_neutral)

lemma xor_3_less: "x < 64 \<Longrightarrow> x XOR 3 < (64 :: nat)"
proof -
  assume x: "x < 64"
  then have "x div 4 < 16" by simp
  then show ?thesis using x by (simp add: xor_3_nat)
qed

lemma unat_xor_3: "unat ((k :: u8) XOR 3) = unat k XOR 3"
  by (simp add: unsigned_xor_eq)

lemma absorbed_add:
  assumes "absorbed s m"
  shows "absorbed (sha1_addUncounted x s) (m @ [x])"
proof -
  let ?r = "length m mod 64" and ?q = "length m div 64"
  let ?b = "(buffer s)[?r XOR 3 := x]"
  have s: "length (buffer s) = 64" "unat (bufferOffset s) = ?r" "state s = fips_blocks ?q m sha1_iv"
    and bytes: "i < ?r \<Longrightarrow> buffer s ! (i XOR 3) = m ! (64 * ?q + i)" for i
    using assms by (auto simp: absorbed_def)
  have len: "length m = 64 * ?q + ?r" by simp
  have r: "?r < 64" by simp
  have b: "?b ! (i XOR 3) = (m @ [x]) ! (64 * ?q + i)" if "i \<le> ?r" for i
  proof (cases "i = ?r")
    case True
    then show ?thesis using s(1) xor_3_less [OF r] by (simp add: nth_append)
  next
    case False
    with that have i: "i < ?r" by simp
    then have "64 * ?q + i < length m" using len by linarith
    moreover have "?r XOR 3 \<noteq> i XOR 3" using i r xor_3_inj [of ?r i] by simp
    ultimately show ?thesis using bytes [OF i] by (simp add: nth_append)
  qed
  have o: "unat (bufferOffset s + 1) = ?r + 1" using s(2) r by (auto simp: unat_word_ariths)
  have o64: "bufferOffset s + 1 = 64 \<longleftrightarrow> ?r = 63" by (simp add: word_unat_eq_iff o)
  have upd: "(buffer s)[unat (bufferOffset s XOR 3) := x] = ?b" by (simp add: unat_xor_3 s)
  show ?thesis
  proof (cases "?r = 63")
    case False
    then have "Suc (length m) mod 64 = Suc ?r" "Suc (length m) div 64 = ?q"
      using r by (simp_all add: mod_Suc div_Suc)
    with False o64 o s b upd show ?thesis
      using fips_blocks_append [of ?q m "[x]"] len
      by (auto simp: absorbed_def sha1_addUncounted_def Let_def less_Suc_eq_le)
  next
    case True
    then have q: "Suc (length m) mod 64 = 0" "Suc (length m) div 64 = Suc ?q"
      by (simp_all add: mod_Suc div_Suc)
    let ?s = "s\<lparr>buffer := ?b, bufferOffset := bufferOffset s + 1\<rparr>"
    have lb: "length (buffer ?s) = 64" using s by simp
    have blk: "block_of ?b = take 64 (drop (64 * ?q) (m @ [x]))"
    proof (rule nth_equalityI)
      fix i assume "i < length (block_of ?b)"
      then have i: "i < 64" by (simp add: block_of_def)
      then show "block_of ?b ! i = take 64 (drop (64 * ?q) (m @ [x])) ! i"
        using b [of i] True len by (simp only: nth_take nth_drop length_append list.size) (simp add: block_of_def)
    qed (use True len in \<open>simp add: block_of_def\<close>)
    have st: "fips_block (block_of ?b) (state s) = fips_blocks (Suc ?q) (m @ [x]) sha1_iv"
      unfolding blk fips_blocks_Suc s(3) using fips_blocks_append [of ?q m "[x]"] len by simp
    from hashBlock_eq [OF lb] obtain b' where b': "length b' = 64"
      "sha1_hashBlock ?s = ?s\<lparr>buffer := b', state := fips_block (block_of ?b) (state s)\<rparr>" by auto
    have "sha1_addUncounted x s = (sha1_hashBlock ?s)\<lparr>bufferOffset := 0\<rparr>"
      using True o64 upd by (simp add: sha1_addUncounted_def Let_def)
    then show ?thesis
      using q by (simp add: absorbed_def b' st del: fips_blocks.simps)
  qed
qed

lemma byteCount_add [simp]: "byteCount (sha1_addUncounted x s) = byteCount s"
proof -
  have "byteCount (sha1_hashBlock t) = byteCount t" for t
    by (simp add: sha1_hashBlock_def Let_def split: prod.split)
  then show ?thesis by (simp add: sha1_addUncounted_def Let_def)
qed

lemma absorbed_fold: "absorbed s m \<Longrightarrow> absorbed (fold sha1_addUncounted xs s) (m @ xs)"
  by (induction xs arbitrary: s m) (use absorbed_add in fastforce)+

lemma absorbed_byteCount [simp]: "absorbed (s\<lparr>byteCount := n\<rparr>) m = absorbed s m"
  by (simp add: absorbed_def)

lemma absorbed_write:
  "absorbed s m \<Longrightarrow> absorbed (sha1_write xs s) (m @ xs) \<and>
     byteCount (sha1_write xs s) = byteCount s + word_of_nat (length xs)"
proof (induction xs arbitrary: s m)
  case (Cons x xs)
  have "absorbed (sha1_writebyte x s) (m @ [x])"
    unfolding sha1_writebyte_def by (rule absorbed_add) (simp add: Cons.prems)
  from Cons.IH [OF this] show ?case
    by (simp add: sha1_write_def sha1_writebyte_def add.assoc)
qed (simp add: sha1_write_def)

lemma absorbed_init: "length (buffer s) = 64 \<Longrightarrow> absorbed (sha1_init s) []"
  by (simp add: absorbed_def sha1_init_def sha1_iv_def)

lemma pad_mod:
  "r < 64 \<Longrightarrow> (120 - r) mod 64 = (if r \<le> 56 then 56 - r else 120 - (r::nat))"
  "r < 64 \<Longrightarrow> (119 - r) mod 64 = (if r \<le> 55 then 55 - r else 119 - (r::nat))"
  by (simp_all add: mod_if)

lemma pad_count_step:
  assumes "r < 64" "r \<noteq> (56::nat)"
  shows "(120 - r) mod 64 = Suc ((120 - (if Suc r = 64 then 0 else Suc r)) mod 64)"
  using assms pad_mod(1) [of r] pad_mod(1) [of "if Suc r = 64 then 0 else Suc r"] by auto

lemma absorbed_pad_zeros:
  "absorbed s m \<Longrightarrow> absorbed (sha1_pad_zeros s) (m @ replicate ((120 - length m mod 64) mod 64) 0) \<and>
     byteCount (sha1_pad_zeros s) = byteCount s"
proof (induction s arbitrary: m rule: sha1_pad_zeros.induct)
  case (1 s)
  have o: "unat (bufferOffset s) = length m mod 64" using "1.prems" by (simp add: absorbed_def)
  show ?case
  proof (cases "bufferOffset s = 56")
    case True
    then have "length m mod 64 = 56" using o by simp
    then show ?thesis using True "1.prems" by (subst (1 2) sha1_pad_zeros.simps) simp
  next
    case False
    then have ne: "length m mod 64 \<noteq> 56" using o by (auto simp: word_unat_eq_iff)
    have IH: "absorbed (sha1_pad_zeros (sha1_addUncounted 0 s)) ((m @ [0]) @ replicate ((120 - length (m @ [0]) mod 64) mod 64) 0)
       \<and> byteCount (sha1_pad_zeros (sha1_addUncounted 0 s)) = byteCount s"
      using "1.IH" [OF False absorbed_add [OF "1.prems"]] by simp
    have "(120 - length m mod 64) mod 64 = Suc ((120 - length (m @ [0::u8]) mod 64) mod 64)"
      using pad_count_step [of "length m mod 64"] ne by (simp add: mod_Suc)
    then show ?thesis using IH False by (subst (1 2) sha1_pad_zeros.simps) simp
  qed
qed

lemma length_bytes:
  assumes "length m < 2 ^ 32"
  defines "n \<equiv> word_of_nat (length m) :: u32"
  shows "[0, 0, 0, ucast (drop_bit 29 n), ucast (drop_bit 21 n), ucast (drop_bit 13 n),
     ucast (drop_bit 5 n), ucast (push_bit 3 n)] = rev (le_bytes 8 (word_of_nat (8 * length m) :: u64))"
proof -
  let ?v = "word_of_nat (8 * length m) :: u64"
  have v: "?v = push_bit 3 (ucast n)"
  proof -
    have "ucast n = (word_of_nat (length m) :: u64)"
      using assms(1) by (simp add: n_def word_unat_eq_iff unsigned_ucast_eq unat_of_nat take_bit_nat_eq_self)
    then show ?thesis by (simp add: push_bit_eq_mult)
  qed
  have "byte_at ?v 7 = 0" "byte_at ?v 6 = 0" "byte_at ?v 5 = 0" "byte_at ?v 4 = ucast (drop_bit 29 n)"
    "byte_at ?v 3 = ucast (drop_bit 21 n)" "byte_at ?v 2 = ucast (drop_bit 13 n)"
    "byte_at ?v 1 = ucast (drop_bit 5 n)" "byte_at ?v 0 = ucast (push_bit 3 n)"
    unfolding v by (rule bit_word_eqI; auto simp: bit_byte_at bit_simps dest: bit_imp_le_length)+
  moreover have "[0..<8] = [0, 1, 2, 3, 4, 5, 6, 7 :: nat]" by (simp add: upt_rec)
  ultimately show ?thesis by (simp only: le_bytes_def list.map rev.simps append.simps)
qed

lemma absorbed_pad:
  assumes "absorbed s m" "length m < 2 ^ 32" "byteCount s = word_of_nat (length m)"
  shows "absorbed (sha1_pad s) (fips_pad m)"
proof -
  let ?z = "sha1_pad_zeros (sha1_addUncounted 0x80 s)"
  have "absorbed ?z ((m @ [0x80]) @ replicate ((120 - length (m @ [0x80::u8]) mod 64) mod 64) 0) \<and>
      byteCount ?z = byteCount (sha1_addUncounted 0x80 s)"
    by (rule absorbed_pad_zeros) (rule absorbed_add [OF assms(1)])
  moreover have "(120 - length (m @ [0x80::u8]) mod 64) mod 64 = (119 - length m mod 64) mod 64"
    by (simp add: mod_Suc)
  ultimately have z: "absorbed ?z (m @ [0x80] @ replicate ((119 - length m mod 64) mod 64) 0)"
    and n: "byteCount ?z = word_of_nat (length m)" using assms(3) by simp_all
  show ?thesis
    unfolding sha1_pad_def Let_def fips_pad_def n length_bytes [OF assms(2)] be_bytes_8
    using absorbed_fold [OF z] by (simp only: append_assoc)
qed

lemma le_bytes_swap: "le_bytes 4 (sha1_swap w) = rev (le_bytes 4 w)"
proof -
  have masks: "0xff000000 = push_bit 24 (mask 8 :: u32)" "0x00ff0000 = push_bit 16 (mask 8 :: u32)"
    "0x0000ff00 = push_bit 8 (mask 8 :: u32)" "0x000000ff = (mask 8 :: u32)"
    by (simp_all add: mask_eq_exp_minus_1)
  have "byte_at (sha1_swap w) 0 = byte_at w 3" "byte_at (sha1_swap w) 1 = byte_at w 2"
    "byte_at (sha1_swap w) 2 = byte_at w 1" "byte_at (sha1_swap w) 3 = byte_at w 0"
    unfolding sha1_swap_def masks by (rule bit_word_eqI; auto simp: bit_byte_at bit_simps)+
  moreover have "[0..<4] = [0, 1, 2, 3 :: nat]" by (simp add: upt_rec)
  ultimately show ?thesis by (simp only: le_bytes_def list.map rev.simps append.simps)
qed

lemma sha1_result_absorbed:
  assumes "absorbed s m" "length m < 2 ^ 32" "byteCount s = word_of_nat (length m)"
  shows "fst (sha1_result s) = fips_sha1 m" and "length (buffer (snd (sha1_result s))) = 64"
proof -
  have "absorbed (sha1_pad s) (fips_pad m)" using assms by (rule absorbed_pad)
  then have "state (sha1_pad s) = fips_blocks (length (fips_pad m) div 64) (fips_pad m) sha1_iv"
    and "length (buffer (sha1_pad s)) = 64" by (simp_all add: absorbed_def)
  then show "fst (sha1_result s) = fips_sha1 m" and "length (buffer (snd (sha1_result s))) = 64"
    by (simp_all add: sha1_result_def Let_def fips_sha1_def le_bytes_swap be_bytes_word comp_def sha1_iv_def)
qed

lemma sha1_stream:
  assumes "length (buffer s) = 64" "length m < 2 ^ 32"
  shows "fst (sha1_result (sha1_write m (sha1_init s))) = fips_sha1 m"
    and "length (buffer (snd (sha1_result (sha1_write m (sha1_init s))))) = 64"
  using absorbed_write [OF absorbed_init [OF assms(1)], of m] assms(2)
  by (auto intro!: sha1_result_absorbed simp: sha1_init_def)

lemma keyBuffer_add [simp]: "keyBuffer (sha1_addUncounted x s) = keyBuffer s"
proof -
  have "keyBuffer (sha1_hashBlock t) = keyBuffer t" for t
    by (simp add: sha1_hashBlock_def Let_def split: prod.split)
  then show ?thesis by (simp add: sha1_addUncounted_def Let_def)
qed

lemma keyBuffer_write [simp]: "keyBuffer (sha1_write xs s) = keyBuffer s"
  unfolding sha1_write_def by (induction xs arbitrary: s) (simp_all add: sha1_writebyte_def)

lemma keyBuffer_fold [simp]: "keyBuffer (fold sha1_addUncounted xs s) = keyBuffer s"
  by (induction xs arbitrary: s) simp_all

lemma keyBuffer_pad_zeros [simp]: "keyBuffer (sha1_pad_zeros s) = keyBuffer s"
  by (induction s rule: sha1_pad_zeros.induct) (subst sha1_pad_zeros.simps, simp)

lemma keyBuffer_result [simp]: "keyBuffer (snd (sha1_result s)) = keyBuffer s"
  by (simp add: sha1_result_def sha1_pad_def Let_def)

lemma length_fips_sha1: "length (fips_sha1 m) = 20"
proof -
  have "length (fips_blocks n x H) = 5" if "length H = 5" for n x H
    using that by (induction n x H rule: fips_blocks.induct)
      (auto simp: fips_block_def Let_def split: prod.split)
  then show ?thesis by (simp add: fips_sha1_def length_concat comp_def sum_list_triv)
qed

lemma length_hmac_key: "length (hmac_key key) = 64"
  by (simp add: hmac_key_def Let_def length_fips_sha1)

lemma write_map_nth:
  "length k = n \<Longrightarrow> fold (\<lambda>i. sha1_writebyte (f (k ! i))) [0..<n] s = sha1_write (map f k) s"
proof -
  assume "length k = n"
  then have "map f k = map (\<lambda>i. f (k ! i)) [0..<n]" by (auto simp: list_eq_iff_nth_eq)
  then show ?thesis by (simp add: sha1_write_def fold_map comp_def)
qed

lemma sha1_initHmac_eq:
  assumes "length (buffer s) = 64" "length key < 2 ^ 32"
  shows "\<exists>t. length (buffer t) = 64 \<and> keyBuffer t = hmac_key key \<and>
    sha1_initHmac key (int (length key)) s = Some (sha1_write (map ((XOR) 0x36) (hmac_key key)) (sha1_init t))"
proof -
  let ?t = "if length key > 64 then snd (sha1_result (sha1_write key (sha1_init s))) else s"
  let ?u = "?t\<lparr>keyBuffer := hmac_key key\<rparr>"
  have t: "length (buffer ?t) = 64" using assms sha1_stream(2) by simp
  have kb: "keyBuffer (sha1_init ?u) = hmac_key key" by (simp add: sha1_init_def)
  have "sha1_initHmac key (int (length key)) s = Some (
      fold (\<lambda>i. sha1_writebyte ((keyBuffer (sha1_init ?u) ! i) XOR 0x36)) [0..<64] (sha1_init ?u))"
    using sha1_stream(1) [OF assms] length_fips_sha1 [of key]
    by (auto simp: sha1_initHmac_def Let_def hmac_key_def sha1_write_def [symmetric] split: prod.split)
  also have "fold (\<lambda>i. sha1_writebyte ((keyBuffer (sha1_init ?u) ! i) XOR 0x36)) [0..<64] (sha1_init ?u) =
      sha1_write (map (\<lambda>b. b XOR 0x36) (hmac_key key)) (sha1_init ?u)"
    unfolding kb by (rule write_map_nth) (rule length_hmac_key)
  finally have "sha1_initHmac key (int (length key)) s = Some (sha1_write (map ((XOR) 0x36) (hmac_key key)) (sha1_init ?u))"
    by (simp add: xor.commute [of _ "0x36 :: u8"])
  then show ?thesis using t by (intro exI [of _ ?u]) simp
qed

lemma sha1_write_append: "sha1_write (xs @ ys) s = sha1_write ys (sha1_write xs s)"
  by (simp add: sha1_write_def)

lemma sha1_hmac_eq:
  assumes "length (buffer s) = 64" "length key < 2 ^ 32" "length m + 64 < 2 ^ 32"
  shows "\<exists>t. sha1_initHmac key (int (length key)) s = Some t \<and> fst (sha1_resultHmac (sha1_write m t)) = hmac_spec key m"
proof -
  obtain t where t: "length (buffer t) = 64" "keyBuffer t = hmac_key key"
    "sha1_initHmac key (int (length key)) s = Some (sha1_write (map ((XOR) 0x36) (hmac_key key)) (sha1_init t))"
    using sha1_initHmac_eq [OF assms(1,2)] by blast
  let ?im = "map ((XOR) 0x36) (hmac_key key) @ m"
  have im: "length ?im < 2 ^ 32" using assms(3) by (simp add: length_hmac_key)
  define r where "r = sha1_result (sha1_write ?im (sha1_init t))"
  have r: "fst r = fips_sha1 ?im" "length (buffer (snd r)) = 64" "keyBuffer (snd r) = hmac_key key"
    unfolding r_def using sha1_stream [OF t(1) im] t(2) by (simp_all add: sha1_init_def)
  define u where "u = sha1_init ((snd r)\<lparr>innerHash := fst r\<rparr>)"
  have ih: "innerHash (sha1_addUncounted x v) = innerHash v" for x v
    by (simp add: sha1_addUncounted_def sha1_hashBlock_def Let_def split: prod.split)
  have ihw: "innerHash (sha1_write xs v) = innerHash v" for xs v
    unfolding sha1_write_def by (induction xs arbitrary: v) (simp_all add: sha1_writebyte_def ih)
  have om: "fold (\<lambda>i. sha1_writebyte ((keyBuffer u ! i) XOR 0x5c)) [0..<64] u = sha1_write (map ((XOR) 0x5c) (hmac_key key)) u"
    using write_map_nth [OF length_hmac_key, of "(XOR) 0x5c" key u] r(3)
    by (simp add: u_def sha1_init_def xor.commute [of _ "0x5c :: u8"])
  let ?w = "sha1_write (map ((XOR) 0x5c) (hmac_key key)) u"
  have iw: "innerHash ?w = fips_sha1 ?im" by (simp add: ihw) (simp add: u_def sha1_init_def r)
  have "fold (\<lambda>i. sha1_writebyte (innerHash ?w ! i)) [0..<20] ?w = sha1_write (fips_sha1 ?im) ?w"
    unfolding iw using write_map_nth [OF length_fips_sha1, of "\<lambda>x. x" ?im ?w] by simp
  then have "fst (sha1_resultHmac (sha1_write m (sha1_write (map ((XOR) 0x36) (hmac_key key)) (sha1_init t)))) =
     fst (sha1_result (sha1_write (map ((XOR) 0x5c) (hmac_key key) @ fips_sha1 ?im) u))"
    unfolding sha1_resultHmac_def sha1_write_append [symmetric] r_def [symmetric]
    by (simp add: Let_def case_prod_unfold u_def [symmetric] om sha1_write_append)
  also have "\<dots> = hmac_spec key m"
    unfolding hmac_spec_def u_def by (rule sha1_stream(1)) (simp_all add: r length_hmac_key length_fips_sha1)
  finally show ?thesis using t(3) by blast
qed

section \<open>Evaluation of a block\<close>

text \<open>
  The schedule as a sched_window of 16 words that moves with the round, for evaluation by the simplifier;
  \<open>norm32\<close> reduces a numeral to its residue.
\<close>

definition norm32 :: "u32 \<Rightarrow> u32" where
  "norm32 w = w"

lemma norm32_simps: "norm32 0 = 0" "norm32 1 = 1" "norm32 (numeral n) = word_of_nat (take_bit 32 (numeral n))"
proof -
  have "word_of_nat (take_bit 32 m) = (word_of_nat m :: u32)" for m
    by (simp add: word_unat_eq_iff unsigned_of_nat)
  from this [of "numeral n"] show "norm32 (numeral n) = word_of_nat (take_bit 32 (numeral n))"
    by (simp only: norm32_def of_nat_numeral)
qed (simp_all add: norm32_def)

fun next_window :: "u32 list \<Rightarrow> u32 list" where
  "next_window (w16 # w15 # w14 # w13 # w12 # w11 # w10 # w9 # w8 # w7 # w6 # w5 # w4 # w3 # ws) =
     [w15, w14, w13, w12, w11, w10, w9, w8, w7, w6, w5, w4, w3] @ ws @
       [norm32 (sha1_rol32 (w3 XOR w8 XOR w14 XOR w16) 1)]"
| "next_window ws = ws"

function rounds_from :: "nat \<Rightarrow> u32 list \<Rightarrow> sha1_regs \<Rightarrow> sha1_regs" where
  "rounds_from t ws (a, b, c, d, e) = (if t < 80 then
     rounds_from (t + 1) (next_window ws)
       (norm32 (sha1_rol32 a 5 + (sha1_mix t b c d + (e + hd ws))), a, norm32 (sha1_rol32 b 30), c, d)
    else (a, b, c, d, e))"
  by pat_completeness auto
termination by (relation "measure (\<lambda>(t, ws, r). 80 - t)") auto

declare rounds_from.simps [simp del]

lemma upt_16: "[t..<t + 16] = [t, t + 1, t + 2, t + 3, t + 4, t + 5, t + 6, t + 7, t + 8, t + 9, t + 10,
    t + 11, t + 12, t + 13, t + 14, t + 15]"
  by (simp add: upt_rec)

lemma next_window_fips:
  "next_window (map (fips_W M) [t..<t + 16]) = map (fips_W M) [t + 1..<(t + 1) + 16]"
proof -
  have w: "fips_W M (t + 16) = word_rotl 1 (fips_W M (t + 13) XOR fips_W M (t + 8) XOR fips_W M (t + 2) XOR fips_W M t)"
    by (subst fips_W.simps) (simp add: add.commute)
  have "[t + 1..<(t + 1) + 16] = [t + 1, t + 2, t + 3, t + 4, t + 5, t + 6, t + 7, t + 8, t + 9, t + 10,
      t + 11, t + 12, t + 13, t + 14, t + 15, t + 16]"
    unfolding upt_16 by simp
  then show ?thesis
    unfolding upt_16 [of t] by (simp only: list.map next_window.simps norm32_def sha1_rol32_simps append.simps w)
qed

lemma rounds_from_fips:
  "t \<le> 80 \<Longrightarrow> rounds_from t (map (fips_W M) [t..<t + 16]) r = fold (fips_round M) [t..<80] r"
proof (induction "80 - t" arbitrary: t r)
  case 0
  then show ?case by (cases r) (simp add: rounds_from.simps)
next
  case (Suc n)
  obtain a b c d e where r: "r = (a, b, c, d, e)" by (cases r) auto
  have t: "t < 80" using Suc.hyps(2) by simp
  have h: "hd (map (fips_W M) [t..<t + 16]) = fips_W M t" by (simp add: upt_16)
  have "rounds_from t (map (fips_W M) [t..<t + 16]) r =
      rounds_from (t + 1) (map (fips_W M) [t + 1..<t + 1 + 16]) (fips_round M t r)"
    unfolding r rounds_from.simps [of t] h next_window_fips
    using t by (simp add: fips_round_def norm32_def sha1_rol32_simps sha1_mix_fips ac_simps)
  also have "\<dots> = fold (fips_round M) [t + 1..<80] (fips_round M t r)"
    using Suc.hyps(2) t by (intro Suc.hyps(1)) simp_all
  finally show ?case using t by (simp add: upt_rec [of t 80])
qed

lemma abc_rounds:
  "rounds_from 0 [0x61626380, 0, 0, 0, 0, 0, 0, 0, 0, 0, 0, 0, 0, 0, 0, 0x18]
     (0x67452301, 0xefcdab89, 0x98badcfe, 0x10325476, 0xc3d2e1f0) =
   (1112808245, 1463342561, 562251891, 1746824694, 3640522413)"
  by (simp add: rounds_from.simps sha1_mix_def sha1_rol32_def norm32_simps)

lemma fips_abc: "fips_sha1 [0x61, 0x62, 0x63] =
    [0xa9, 0x99, 0x3e, 0x36, 0x47, 0x06, 0x81, 0x6a, 0xba, 0x3e, 0x25, 0x71, 0x78, 0x50, 0xc2, 0x6c, 0x9c, 0xd0, 0xd8, 0x9d]"
proof -
  have z: "replicate 52 (0::u8) = [0, 0, 0, 0, 0, 0, 0, 0, 0, 0, 0, 0, 0, 0, 0, 0, 0, 0, 0, 0, 0, 0, 0, 0, 0, 0,
      0, 0, 0, 0, 0, 0, 0, 0, 0, 0, 0, 0, 0, 0, 0, 0, 0, 0, 0, 0, 0, 0, 0, 0, 0, 0]"
    by (simp add: numeral_eq_Suc)
  have p: "fips_pad [0x61, 0x62, 0x63] = [0x61, 0x62, 0x63, 0x80] @ replicate 52 0 @ [0, 0, 0, 0, 0, 0, 0, 0x18]"
    by (simp add: fips_pad_def be_bytes_def upt_rec)
  have w: "msg_words (fips_pad [0x61, 0x62, 0x63]) = [0x61626380, 0, 0, 0, 0, 0, 0, 0, 0, 0, 0, 0, 0, 0, 0, 0x18]"
    unfolding p z by (simp add: msg_words_def be_word_def upt_rec)
  let ?M = "msg_words (fips_pad [0x61, 0x62, 0x63])"
  have "map (fips_W ?M) [0..<0 + 16] = ?M"
    unfolding upt_16 by (simp add: fips_W.simps) (simp add: w)
  from rounds_from_fips [of 0 ?M "(0x67452301, 0xefcdab89, 0x98badcfe, 0x10325476, 0xc3d2e1f0)", unfolded this]
  have f: "fold (fips_round ?M) [0..<80] (0x67452301, 0xefcdab89, 0x98badcfe, 0x10325476, 0xc3d2e1f0) =
     (1112808245, 1463342561, 562251891, 1746824694, 3640522413)"
    unfolding w using abc_rounds by simp
  have l: "length (fips_pad [0x61, 0x62, 0x63]) = 64" by (simp add: p)
  have b: "fips_blocks (length (fips_pad [0x61, 0x62, 0x63]) div 64) (fips_pad [0x61, 0x62, 0x63])
      [0x67452301, 0xefcdab89, 0x98badcfe, 0x10325476, 0xc3d2e1f0] =
    [0xa9993e36, 0x4706816a, 0xba3e2571, 0x7850c26c, 0x9cd0d89d]"
    using l f by (simp add: fips_block_def)
  have u: "rev [0..<4] = [3, 2, 1, 0 :: nat]" by (simp add: upt_rec)
  show ?thesis unfolding fips_sha1_def b by (simp add: be_bytes_def u)
qed

section \<open>Properties\<close>

definition sha1_zero :: sha1nfo where
  "sha1_zero = \<lparr>buffer = replicate 64 0, state = replicate 5 0, byteCount = 0, bufferOffset = 0,
     keyBuffer = replicate 64 0, innerHash = replicate 20 0\<rparr>"

text \<open>C8. The streaming SHA-1 with its in-place 16-word schedule computes the digest FIPS 180-2 defines,
  for every message the 32-bit byte counter can count, whatever the state record held before. The
  standard is stated with its own rotation, functions, constants, schedule and padding. The witness
  is the test vector of its appendix A.1.\<close>

theorem sha1_matches_fips:
  assumes "length (buffer s) = 64" and "length m < 2 ^ 32"
  shows "sha1 s m = fips_sha1 m \<and> length (sha1 s m) = 20"
  using sha1_stream(1) [OF assms] by (simp add: sha1_def length_fips_sha1)

theorem sha1_matches_fips_witness:
  "sha1 sha1_zero [0x61, 0x62, 0x63] =
    [0xa9, 0x99, 0x3e, 0x36, 0x47, 0x06, 0x81, 0x6a, 0xba, 0x3e, 0x25, 0x71, 0x78, 0x50, 0xc2, 0x6c, 0x9c, 0xd0, 0xd8, 0x9d]"
  using sha1_matches_fips [of sha1_zero "[0x61, 0x62, 0x63]"] by (simp add: sha1_zero_def fips_abc)

text \<open>C24. \<open>sha1_initHmac\<close>, \<open>sha1_write\<close>, \<open>sha1_resultHmac\<close> in sequence compute HMAC-SHA1, for short
  keys and for keys that are hashed first, up to the largest key length an \<open>int\<close> holds.\<close>

theorem sha1_hmac_correct:
  assumes "length (buffer s) = 64" and "length key < 2 ^ 31" and "length m + 64 < 2 ^ 32"
  shows "\<exists>t. sha1_initHmac key (int (length key)) s = Some t \<and>
    fst (sha1_resultHmac (sha1_write m t)) = hmac_spec key m"
  using assms by (intro sha1_hmac_eq) simp_all

theorem sha1_hmac_correct_witness:
  "\<exists>t. sha1_initHmac (replicate 70 7) 70 sha1_zero = Some t \<and>
    fst (sha1_resultHmac (sha1_write [1, 2] t)) = hmac_spec (replicate 70 7) [1, 2]"
  using sha1_hmac_correct [of sha1_zero "replicate 70 7" "[1, 2]"] by (simp add: sha1_zero_def)

end
