(* ===== verification/Randmonad.thy ===== *)
theory Randmonad
  imports Rng
begin

text \<open>
  Computations that draw random numbers. Their outcome is a value with the new state of the generator,
  or the reason why the code does not go on: a jump back to retry, a loop that does not end, an access
  out of bounds, an overflow, or a read of uninitialised memory. \<open>random_source\<close> is the interface the
  mutations use; \<open>afl_rand\<close> provides it with \<open>rand_below\<close> and \<open>rand_next\<close>.
\<close>

section \<open>The monad\<close>

datatype stop = Retry | No_return | Out_of_bounds | Overflow | Uninit

type_synonym ('r, 'a) rnd = "'r \<Rightarrow> stop \<times> 'r + 'a \<times> 'r"

record 'r rsrc =
  rs_below :: "nat \<Rightarrow> 'r \<Rightarrow> (nat \<times> 'r) option"
  rs_next :: "'r \<Rightarrow> u64 \<times> 'r"

definition ret :: "'a \<Rightarrow> ('r, 'a) rnd" where
  "ret v r = Inr (v, r)"

definition stopped :: "stop \<Rightarrow> ('r, 'a) rnd" where
  "stopped s r = Inl (s, r)"

definition and_then :: "('r, 'a) rnd \<Rightarrow> ('a \<Rightarrow> ('r, 'b) rnd) \<Rightarrow> ('r, 'b) rnd" where
  "and_then m f r = bind_err (m r) (\<lambda>(v, r). f v r)"

definition draw :: "'r rsrc \<Rightarrow> nat \<Rightarrow> ('r, nat) rnd" where
  "draw rs n r = (case rs_below rs n r of None \<Rightarrow> Inl (No_return, r) | Some y \<Rightarrow> Inr y)"

definition draw64 :: "'r rsrc \<Rightarrow> ('r, u64) rnd" where
  "draw64 rs r = Inr (rs_next rs r)"

text \<open>\<open>do v = m; while (bad(v));\<close> and \<open>retry: m\<close>; \<open>None\<close> when the loop does not end.\<close>

partial_function (option) until :: "('r, 'a) rnd \<Rightarrow> ('a \<Rightarrow> bool) \<Rightarrow> 'r \<Rightarrow> (stop \<times> 'r + 'a \<times> 'r) option" where
  "until m bad r = (case m r of
      Inl e \<Rightarrow> Some (Inl e)
    | Inr y \<Rightarrow> if bad (fst y) then until m bad (snd y) else Some (Inr y))"

partial_function (option) retry_loop :: "('r, 'a) rnd \<Rightarrow> 'r \<Rightarrow> (stop \<times> 'r + 'a \<times> 'r) option" where
  "retry_loop m r = (case m r of
      Inl e \<Rightarrow> if fst e = Retry then retry_loop m (snd e) else Some (Inl e)
    | Inr y \<Rightarrow> Some (Inr y))"

definition redraw :: "('r, 'a) rnd \<Rightarrow> ('a \<Rightarrow> bool) \<Rightarrow> ('r, 'a) rnd" where
  "redraw m bad r = (case until m bad r of None \<Rightarrow> Inl (No_return, r) | Some y \<Rightarrow> y)"

definition retrying :: "('r, 'a) rnd \<Rightarrow> ('r, 'a) rnd" where
  "retrying m r = (case retry_loop m r of None \<Rightarrow> Inl (No_return, r) | Some y \<Rightarrow> y)"

text \<open>\<open>for\<close> over a list.\<close>

fun each :: "('i \<Rightarrow> 'a \<Rightarrow> ('r, 'a) rnd) \<Rightarrow> 'i list \<Rightarrow> 'a \<Rightarrow> ('r, 'a) rnd" where
  "each f [] v = ret v"
| "each f (i # is) v = and_then (f i v) (each f is)"

section \<open>Outcomes\<close>

text \<open>Every outcome is a value with \<open>P\<close> or a stop for a reason in \<open>A\<close>.\<close>

definition safe :: "stop set \<Rightarrow> ('a \<Rightarrow> bool) \<Rightarrow> ('r, 'a) rnd \<Rightarrow> bool" where
  "safe A P m \<longleftrightarrow> (\<forall>r. case m r of Inl (s, _) \<Rightarrow> s \<in> A | Inr (v, _) \<Rightarrow> P v)"

named_theorems safe_rules

lemma safeD: "safe A P m \<Longrightarrow> m r = Inr (v, r') \<Longrightarrow> P v" "safe A P m \<Longrightarrow> m r = Inl (s, r') \<Longrightarrow> s \<in> A"
  by (auto simp: safe_def dest!: spec [of _ r])

lemma safeI:
  assumes "\<And>r v r'. m r = Inr (v, r') \<Longrightarrow> P v" and "\<And>r s r'. m r = Inl (s, r') \<Longrightarrow> s \<in> A"
  shows "safe A P m"
  unfolding safe_def by (auto split: sum.split intro: assms)

lemma safe_mono: "safe A P m \<Longrightarrow> A \<subseteq> B \<Longrightarrow> (\<And>v. P v \<Longrightarrow> Q v) \<Longrightarrow> safe B Q m"
  by (rule safeI) (auto dest: safeD)

lemma safe_ret [safe_rules]: "P v \<Longrightarrow> safe A P (ret v)"
  by (simp add: safe_def ret_def)

lemma safe_stopped [safe_rules]: "s \<in> A \<Longrightarrow> safe A P (stopped s)"
  by (simp add: safe_def stopped_def)

lemma safe_and_then: "safe A Q m \<Longrightarrow> (\<And>v. Q v \<Longrightarrow> safe A P (f v)) \<Longrightarrow> safe A P (and_then m f)"
  by (rule safeI) (auto simp: and_then_def bind_err_def split: sum.splits dest: safeD)

lemma safe_if [safe_rules]: "(b \<Longrightarrow> safe A P m) \<Longrightarrow> (\<not> b \<Longrightarrow> safe A P n) \<Longrightarrow> safe A P (if b then m else n)"
  by simp

lemma safe_draw64 [safe_rules]: "(\<And>v. P v) \<Longrightarrow> safe A P (draw64 rs)"
  by (simp add: safe_def draw64_def split: prod.split)

lemma safe_until:
  assumes "until m bad r = Some y" and "safe A Q m"
  shows "case y of Inl (s, _) \<Rightarrow> s \<in> A | Inr (v, _) \<Rightarrow> Q v \<and> \<not> bad v"
  using assms
proof (induction m bad r y rule: until.raw_induct [rotated, consumes 1, case_names step])
  case (step u m bad r y)
  show ?case
  proof (cases "m r")
    case (Inl e)
    with step(2) safeD(2) [OF step(3)] show ?thesis by (auto split: prod.split)
  next
    case (Inr z)
    then show ?thesis
    proof (cases "bad (fst z)")
      case True
      with Inr step(2) have "u m bad (snd z) = Some y" by simp
      from step(1) [OF this step(3)] show ?thesis .
    next
      case False
      with Inr step(2) have "y = Inr z" by simp
      with False Inr safeD(1) [OF step(3), of r] show ?thesis by (cases z) simp
    qed
  qed
qed

lemma safe_redraw: "safe A Q m \<Longrightarrow> No_return \<in> A \<Longrightarrow> safe A (\<lambda>v. Q v \<and> \<not> bad v) (redraw m bad)"
  unfolding safe_def [of _ _ "redraw m bad"] redraw_def
  using safe_until [of m bad _ _ A Q] by (auto split: option.split)

lemma safe_retry_loop:
  assumes "retry_loop m r = Some y" and "safe (insert Retry A) Q m"
  shows "case y of Inl (s, _) \<Rightarrow> s \<in> A - {Retry} | Inr (v, _) \<Rightarrow> Q v"
  using assms
proof (induction m r y rule: retry_loop.raw_induct [rotated, consumes 1, case_names step])
  case (step u m r y)
  show ?case
  proof (cases "m r")
    case (Inr z)
    with step(2) safeD(1) [OF step(3)] show ?thesis by (auto split: prod.split)
  next
    case (Inl e)
    show ?thesis
    proof (cases "fst e = Retry")
      case True
      with Inl step(2) have "u m (snd e) = Some y" by simp
      from step(1) [OF this step(3)] show ?thesis .
    next
      case False
      with Inl step(2) have "y = Inl e" by simp
      with False Inl safeD(2) [OF step(3), of r] show ?thesis by (cases e) auto
    qed
  qed
qed

lemma safe_retrying:
  assumes "safe (insert Retry A) Q m" and "No_return \<in> A" and "Retry \<notin> A"
  shows "safe A Q (retrying m)"
proof (rule safeI)
  fix r v r' assume e: "retrying m r = Inr (v, r')"
  then have "retry_loop m r = Some (Inr (v, r'))" by (simp add: retrying_def split: option.splits)
  from safe_retry_loop [OF this assms(1)] show "Q v" by simp
next
  fix r s r' assume e: "retrying m r = Inl (s, r')"
  show "s \<in> A"
  proof (cases "retry_loop m r")
    case None
    with e assms(2) show ?thesis by (auto simp: retrying_def)
  next
    case (Some y)
    with e have "retry_loop m r = Some (Inl (s, r'))" by (simp add: retrying_def)
    from safe_retry_loop [OF this assms(1)] show ?thesis by simp
  qed
qed

lemma safe_each:
  assumes "\<And>i v. i \<in> set is \<Longrightarrow> P v \<Longrightarrow> safe A P (f i v)" and "P v"
  shows "safe A P (each f is v)"
  using assms
proof (induction "is" arbitrary: v)
  case (Cons i "is")
  show ?case unfolding each.simps by (rule safe_and_then [of A P]) (use Cons in auto)
qed (simp add: safe_ret)

section \<open>The source of random numbers\<close>

text \<open>What the mutations rely on: a number below the limit, and 0 where the limit is 0.\<close>

locale random_source =
  fixes rs :: "'r rsrc"
  assumes below: "rs_below rs n r = Some (v, r') \<Longrightarrow> v < max 1 n"
begin

lemma safe_draw:
  assumes "No_return \<in> A" and "\<And>v. v < max 1 n \<Longrightarrow> P v"
  shows "safe A P (draw rs n)"
  by (rule safeI) (use assms below in \<open>force simp: draw_def split: option.splits\<close>)+

text \<open>A draw that feeds the rest of the computation.\<close>

lemma safe_draw_then:
  assumes "No_return \<in> A" and "\<And>v. v < max 1 n \<Longrightarrow> safe A P (f v)"
  shows "safe A P (and_then (draw rs n) f)"
  by (rule safe_and_then [of A "\<lambda>v. v < max 1 n"]) (use assms safe_draw in auto)

end

definition afl_rand :: "(nat \<Rightarrow> u64 \<times> u64 \<times> u64) \<Rightarrow> rand_state rsrc" where
  "afl_rand urandom = \<lparr>rs_below = (\<lambda>n s. map_option (\<lambda>(v, s). (unat v, s)) (rand_below urandom (of_nat n) s)),
     rs_next = rand_next\<rparr>"

interpretation romu: random_source "afl_rand urandom" for urandom
proof
  fix n r v r'
  assume "rs_below (afl_rand urandom) n r = Some (v, r')"
  then obtain w where w: "rand_below urandom (of_nat n) r = Some (w, r')" "v = unat w"
    by (auto simp: afl_rand_def)
  have "unat (of_nat n :: u32) \<le> n" by (simp add: unat_of_nat)
  with rand_below_less [OF w(1)] w(2) show "v < max 1 n" by simp
qed

end
