(* ===== verification/Mutpred.thy ===== *)
theory Mutpred
  imports Prelude
begin

unbundle bit_operations_syntax

text \<open>
  The integer tables of \<open>include/config.h\<close> and \<open>include/afl-mutations.h\<close>, the byte swaps of
  \<open>include/types.h\<close>, and the helpers at the top of \<open>src/afl-fuzz-one.c\<close> by which the
  deterministic stages skip an input an earlier stage has produced already: \<open>could_be_bitflip\<close>,
  \<open>could_be_arith\<close>, \<open>could_be_interest\<close>; and \<open>locate_diffs\<close>, which finds the span in which
  two inputs differ.

  The field widths \<open>blen\<close> are the byte counts 1, 2 and 4 of the callers. Shifts of the \<open>int\<close>
  constants \<open>0xff\<close> and \<open>0xffff\<close> are 32-bit shifts.
\<close>

section \<open>Interesting values and byte order\<close>

definition INTERESTING_8 :: "int list" where
  "INTERESTING_8 = [-128, -1, 0, 1, 16, 32, 64, 100, 127]"

definition INTERESTING_16 :: "int list" where
  "INTERESTING_16 = [-32768, -129, 128, 255, 256, 512, 1000, 1024, 4096, 32767]"

definition INTERESTING_32 :: "int list" where
  "INTERESTING_32 = [-2147483648, -100663046, -32769, 32768, 65535, 65536, 100663045, 2139095040, 2147483647]"

definition interesting_8 :: "int list" where
  "interesting_8 = INTERESTING_8"

definition interesting_16 :: "int list" where
  "interesting_16 = INTERESTING_8 @ INTERESTING_16"

definition interesting_32 :: "int list" where
  "interesting_32 = INTERESTING_8 @ INTERESTING_16 @ INTERESTING_32"

definition SWAP16 :: "u16 \<Rightarrow> u16" where
  "SWAP16 x = push_bit 8 x OR drop_bit 8 x"

definition SWAP32 :: "u32 \<Rightarrow> u32" where
  "SWAP32 x = push_bit 24 x OR drop_bit 24 x OR (push_bit 8 x AND 0x00FF0000) OR (drop_bit 8 x AND 0x0000FF00)"

definition ARITH_MAX :: nat where
  "ARITH_MAX = 35"

section \<open>Products of earlier stages\<close>

text \<open>
  The loop that shifts the lowest set bit down to position 0. In C it does not end on 0, which the
  caller has excluded; the model then has no value.
\<close>

partial_function (option) shift_out :: "u32 \<Rightarrow> u32 \<Rightarrow> (u32 \<times> u32) option" where
  "shift_out sh xor_val =
    (if xor_val AND 1 = 0 then shift_out (sh + 1) (drop_bit 1 xor_val) else Some (sh, xor_val))"

definition could_be_bitflip :: "u32 \<Rightarrow> bool option" where
  "could_be_bitflip xor_val =
    (if xor_val = 0 then Some True
     else Option.bind (shift_out 0 xor_val) (\<lambda>(sh, xor_val).
       if xor_val = 1 \<or> xor_val = 3 \<or> xor_val = 15 then Some True
       else if sh AND 7 \<noteq> 0 then Some False
       else if xor_val = 0xff \<or> xor_val = 0xffff \<or> xor_val = 0xffffffff then Some True
       else Some False))"

text \<open>
  One pass of \<open>could_be_arith\<close>: the fields of \<open>w\<close> bits in the first \<open>n\<close> positions are
  compared; the result is the number of differing fields and the last differing pair.
\<close>

definition arith_scan :: "nat \<Rightarrow> nat \<Rightarrow> u32 \<Rightarrow> u32 \<Rightarrow> nat \<times> u32 \<times> u32 \<Rightarrow> nat \<times> u32 \<times> u32" where
  "arith_scan w n old_val new_val =
    fold (\<lambda>i (diffs, ov, nv).
      let a = take_bit w (drop_bit (w * i) old_val); b = take_bit w (drop_bit (w * i) new_val)
      in if a \<noteq> b then (diffs + 1, a, b) else (diffs, ov, nv)) [0..<n]"

text \<open>\<open>(uW)(ov - nv) <= ARITH_MAX || (uW)(nv - ov) <= ARITH_MAX\<close>\<close>

definition near :: "nat \<Rightarrow> u32 \<Rightarrow> u32 \<Rightarrow> bool" where
  "near w ov nv \<longleftrightarrow>
     unat (take_bit w (ov - nv)) \<le> ARITH_MAX \<or> unat (take_bit w (nv - ov)) \<le> ARITH_MAX"

definition could_be_arith :: "u32 \<Rightarrow> u32 \<Rightarrow> nat \<Rightarrow> bool" where
  "could_be_arith old_val new_val blen =
    (if old_val = new_val then True
     else
       let (diffs, ov, nv) = arith_scan 8 blen old_val new_val (0, 0, 0)
       in if diffs = 1 \<and> near 8 ov nv then True
       else if blen = 1 then False
       else
         let (diffs, ov, nv) = arith_scan 16 (blen div 2) old_val new_val (0, ov, nv)
         in if diffs = 1 \<and> (near 16 ov nv \<or>
                near 16 (ucast (SWAP16 (ucast ov))) (ucast (SWAP16 (ucast nv)))) then True
         else if blen = 4 \<and> (near 32 old_val new_val \<or> near 32 (SWAP32 old_val) (SWAP32 new_val)) then True
         else False)"

text \<open>\<open>(old & ~(mask << (i * 8))) | (v << (i * 8))\<close>\<close>

definition insert_at :: "u32 \<Rightarrow> u32 \<Rightarrow> nat \<Rightarrow> u32 \<Rightarrow> u32" where
  "insert_at msk old_val i v = (old_val AND NOT (push_bit (i * 8) msk)) OR push_bit (i * 8) v"

definition could_be_interest :: "u32 \<Rightarrow> u32 \<Rightarrow> nat \<Rightarrow> bool \<Rightarrow> bool" where
  "could_be_interest old_val new_val blen check_le =
    (if old_val = new_val then True
     else if \<exists>i \<in> set [0..<blen]. \<exists>v \<in> set interesting_8.
       new_val = insert_at 0xff old_val i (ucast (word_of_int v :: u8)) then True
     else if blen = 2 \<and> \<not> check_le then False
     else if \<exists>i \<in> set [0..<blen - 1]. \<exists>v \<in> set interesting_16.
       new_val = insert_at 0xffff old_val i (ucast (word_of_int v :: u16)) \<or>
       (blen > 2 \<and> new_val = insert_at 0xffff old_val i (ucast (SWAP16 (word_of_int v)))) then True
     else if blen = 4 \<and> check_le then (\<exists>v \<in> set interesting_32. new_val = word_of_int v)
     else False)"

text \<open>First and last differing offset of two buffers, -1 when there is none.\<close>

fun locate_loop :: "buf \<Rightarrow> buf \<Rightarrow> nat \<Rightarrow> int \<times> int \<Rightarrow> int \<times> int" where
  "locate_loop (p # ps) (q # qs) pos (f_loc, l_loc) =
     locate_loop ps qs (pos + 1)
       (if p \<noteq> q then (if f_loc = -1 then int pos else f_loc, int pos) else (f_loc, l_loc))"
| "locate_loop _ _ pos fl = fl"

definition locate_diffs :: "buf \<Rightarrow> buf \<Rightarrow> nat \<Rightarrow> int \<times> int" where
  "locate_diffs ptr1 ptr2 len = locate_loop (take len ptr1) (take len ptr2) 0 (-1, -1)"

section \<open>Laws\<close>

lemma SWAP16_SWAP16 [simp]: "SWAP16 (SWAP16 x) = x"
  by (rule bit_word_eqI) (auto simp: SWAP16_def bit_simps)

lemma odd_and_1: "(x :: 'a::len word) AND 1 = 0 \<longleftrightarrow> \<not> bit x 0"
  by (simp add: and_one_eq bit_0 even_iff_mod_2_eq_zero)

lemma shift_out_total:
  assumes "x \<noteq> 0"
  shows "\<exists>s < 32. shift_out sh x = Some (sh + of_nat s, drop_bit s x) \<and> bit x s \<and> (\<forall>k < s. \<not> bit x k)"
  using assms
proof (induction "unat x" arbitrary: x sh rule: less_induct)
  case less
  show ?case
  proof (cases "bit x 0")
    case True
    then have "shift_out sh x = Some (sh, x)" by (subst shift_out.simps) (simp add: odd_and_1)
    with True show ?thesis by (intro exI [of _ 0]) simp
  next
    case False
    let ?y = "drop_bit 1 x"
    have y0: "?y \<noteq> 0"
    proof
      assume "?y = 0"
      then have "\<not> bit x k" for k
        using False bit_drop_bit_eq [of 1 x] by (cases k) (auto simp: fun_eq_iff)
      then show False using less.prems bit_eq_iff by force
    qed
    have "unat ?y = unat x div 2" by (metis drop_bit_eq_div power_one_right unat_drop_bit_eq)
    moreover have "0 < unat x" using less.prems by (simp add: unat_gt_0)
    ultimately have "unat ?y < unat x" by linarith
    from less.hyps [OF this y0, of "sh + 1"] obtain s where s: "s < 32"
      "shift_out (sh + 1) ?y = Some (sh + 1 + of_nat s, drop_bit s ?y)" "bit ?y s" "\<forall>k < s. \<not> bit ?y k"
      by blast
    have b: "bit x (Suc s)" using s(3) by (simp add: bit_drop_bit_eq)
    then have "Suc s < 32" using bit_imp_le_length by fastforce
    moreover have "\<not> bit x k" if "k < Suc s" for k
      using that False s(4) by (cases k) (auto simp: bit_drop_bit_eq)
    moreover have "shift_out sh x = Some (sh + of_nat (Suc s), drop_bit (Suc s) x)"
      using False s(2) by (subst shift_out.simps) (simp add: odd_and_1 drop_bit_drop_bit add.assoc)
    ultimately show ?thesis using b by blast
  qed
qed

text \<open>A run of \<open>n\<close> one bits at position \<open>s\<close>.\<close>

definition ones :: "nat \<Rightarrow> nat \<Rightarrow> 'a::len word" where
  "ones n s = push_bit s (mask n)"

lemma bit_ones: "bit (ones n s :: 'a::len word) k \<longleftrightarrow> k < LENGTH('a) \<and> s \<le> k \<and> k < s + n"
  by (auto simp: ones_def bit_simps)

lemma drop_bit_eq_mask:
  assumes low: "\<forall>k < s. \<not> bit x k" and "s + n \<le> LENGTH('a)"
  shows "drop_bit s x = mask n \<longleftrightarrow> x = (ones n s :: 'a::len word)"
proof
  assume d: "drop_bit s x = mask n"
  show "x = ones n s"
  proof (rule bit_word_eqI)
    fix k assume "k < LENGTH('a)"
    show "bit x k = bit (ones n s :: 'a word) k"
    proof (cases "k < s")
      case True
      with low show ?thesis by (simp add: bit_ones)
    next
      case False
      then have "bit x k = bit (drop_bit s x) (k - s)" by (simp add: bit_drop_bit_eq)
      also have "\<dots> \<longleftrightarrow> k - s < n" using \<open>k < LENGTH('a)\<close> by (auto simp: d bit_mask_iff)
      finally show ?thesis using False \<open>k < LENGTH('a)\<close> by (auto simp: bit_ones)
    qed
  qed
next
  assume "x = ones n s"
  then show "drop_bit s x = mask n"
    using assms(2) by (auto intro!: bit_word_eqI simp: bit_ones bit_simps)
qed

lemma mask_numerals:
  "(1 :: u32) = mask 1" "(3 :: u32) = mask 2" "(15 :: u32) = mask 4" "(0xff :: u32) = mask 8"
  "(0xffff :: u32) = mask 16" "(0xffffffff :: u32) = mask 32"
  by (simp_all add: mask_eq_exp_minus_1)

lemma drop_bit_mask_iff:
  fixes x :: "'a::len word"
  assumes "\<forall>k < s. \<not> bit x k" and "bit x s" and "0 < n" and "n \<le> LENGTH('a)"
  shows "drop_bit s x = mask n \<longleftrightarrow> (\<exists>t. t + n \<le> LENGTH('a) \<and> x = ones n t \<and> t = s)"
proof (cases "s + n \<le> LENGTH('a)")
  case True
  with assms show ?thesis using drop_bit_eq_mask by blast
next
  case False
  have s: "s < LENGTH('a)" using assms(2) by (rule bit_imp_le_length)
  have "\<not> bit (drop_bit s x) (n - 1)"
    using False assms(3) by (auto simp: bit_drop_bit_eq dest: bit_imp_le_length)
  moreover have "bit (mask n :: 'a word) (n - 1)" using assms(3,4) by (auto simp: bit_mask_iff)
  ultimately show ?thesis using False by metis
qed

lemma ones_pos_unique:
  assumes "\<forall>k < s. \<not> bit x k" and "bit x s" and "0 < n" and "t + n \<le> LENGTH('a)"
    and "x = (ones n t :: 'a::len word)"
  shows "t = s"
proof -
  have "bit x t" using assms(3-5) by (simp add: bit_ones)
  then have "s \<le> t" using assms(1) not_less by blast
  moreover have "t \<le> s" using assms(2,5) by (simp add: bit_ones)
  ultimately show ?thesis by simp
qed

lemma drop_bit_mask_ones:
  fixes x :: "'a::len word"
  assumes "\<forall>k < s. \<not> bit x k" and "bit x s" and "0 < n" and "n \<le> LENGTH('a)"
  shows "drop_bit s x = mask n \<longleftrightarrow> (\<exists>t. t + n \<le> LENGTH('a) \<and> x = ones n t)"
    and "drop_bit s x = mask n \<and> s mod 8 = 0 \<longleftrightarrow> (\<exists>t. t mod 8 = 0 \<and> t + n \<le> LENGTH('a) \<and> x = ones n t)"
  using drop_bit_mask_iff [OF assms] ones_pos_unique [OF assms(1-3)] by blast (metis assms drop_bit_mask_iff ones_pos_unique)

lemma shift_and_7: "s < 32 \<Longrightarrow> (of_nat s :: u32) AND 7 = 0 \<longleftrightarrow> s mod 8 = 0"
proof -
  assume s: "s < 32"
  have "(of_nat s :: u32) AND 7 = take_bit 3 (of_nat s)"
    by (simp add: take_bit_eq_mask mask_eq_exp_minus_1)
  also have "\<dots> = of_nat (take_bit 3 s)" by (simp add: take_bit_of_nat)
  finally have e: "(of_nat s :: u32) AND 7 = of_nat (s mod 8)" by (simp add: take_bit_eq_mod)
  have "s mod 8 < 8" by simp
  then show ?thesis unfolding e word_of_nat_eq_0_iff by (auto dest: dvd_imp_le)
qed

lemma could_be_bitflip_eq:
  "could_be_bitflip x = Some (x = 0 \<or> (\<exists>s n. s + n \<le> 32 \<and> x = ones n s \<and>
     (n \<in> {1, 2, 4} \<or> n \<in> {8, 16, 32} \<and> s mod 8 = 0)))"
proof (cases "x = 0")
  case True
  then show ?thesis by (simp add: could_be_bitflip_def)
next
  case False
  from shift_out_total [OF this, of 0] obtain s where s: "s < 32"
    "shift_out 0 x = Some (of_nat s, drop_bit s x)" and b: "\<forall>k < s. \<not> bit x k" "bit x s" by auto
  have D: "drop_bit s x = mask n \<longleftrightarrow> (\<exists>t. t + n \<le> 32 \<and> x = ones n t)"
    "drop_bit s x = mask n \<and> s mod 8 = 0 \<longleftrightarrow> (\<exists>t. t mod 8 = 0 \<and> t + n \<le> 32 \<and> x = ones n t)"
    if "0 < n" "n \<le> 32" for n
    using drop_bit_mask_ones [OF b, of n] that by simp_all
  have E: "drop_bit s x = mask 1 \<longleftrightarrow> (\<exists>t. t + 1 \<le> 32 \<and> x = ones 1 t)"
    "drop_bit s x = mask 2 \<longleftrightarrow> (\<exists>t. t + 2 \<le> 32 \<and> x = ones 2 t)"
    "drop_bit s x = mask 4 \<longleftrightarrow> (\<exists>t. t + 4 \<le> 32 \<and> x = ones 4 t)"
    "drop_bit s x = mask 8 \<and> s mod 8 = 0 \<longleftrightarrow> (\<exists>t. t mod 8 = 0 \<and> t + 8 \<le> 32 \<and> x = ones 8 t)"
    "drop_bit s x = mask 16 \<and> s mod 8 = 0 \<longleftrightarrow> (\<exists>t. t mod 8 = 0 \<and> t + 16 \<le> 32 \<and> x = ones 16 t)"
    "drop_bit s x = mask 32 \<and> s mod 8 = 0 \<longleftrightarrow> (\<exists>t. t mod 8 = 0 \<and> t + 32 \<le> 32 \<and> x = ones 32 t)"
    by (rule D; simp)+
  have "could_be_bitflip x = Some (drop_bit s x = mask 1 \<or> drop_bit s x = mask 2 \<or> drop_bit s x = mask 4 \<or>
      drop_bit s x = mask 8 \<and> s mod 8 = 0 \<or> drop_bit s x = mask 16 \<and> s mod 8 = 0 \<or>
      drop_bit s x = mask 32 \<and> s mod 8 = 0)"
    using False s(1) by (simp add: could_be_bitflip_def s(2) shift_and_7 flip: mask_numerals)
  also have "\<dots> = Some (x = 0 \<or> (\<exists>s n. s + n \<le> 32 \<and> x = ones n s \<and>
     (n \<in> {1, 2, 4} \<or> n \<in> {8, 16, 32} \<and> s mod 8 = 0)))"
    unfolding E insert_iff empty_iff option.inject by (intro iffI) (use False in \<open>(elim disjE exE conjE; metis)+\<close>)
  finally show ?thesis .
qed

lemma arith_scan_eq:
  defines "f w i x \<equiv> take_bit w (drop_bit (w * i) (x :: u32))"
  shows "arith_scan w n old new (d, ov, nv) =
    (let ds = filter (\<lambda>i. f w i old \<noteq> f w i new) [0..<n]
     in (d + length ds, if ds = [] then (ov, nv) else (f w (last ds) old, f w (last ds) new)))"
proof -
  have "fold (\<lambda>i (diffs, ov, nv).
      let a = f w i old; b = f w i new in if a \<noteq> b then (diffs + 1, a, b) else (diffs, ov, nv)) xs (d, ov, nv) =
    (let ds = filter (\<lambda>i. f w i old \<noteq> f w i new) xs
     in (d + length ds, if ds = [] then (ov, nv) else (f w (last ds) old, f w (last ds) new)))" for xs
    by (induction xs arbitrary: d ov nv) (auto simp: Let_def)
  then show ?thesis by (simp add: arith_scan_def f_def)
qed

lemma ucast_minus_down:
  assumes "LENGTH('w::len) \<le> LENGTH('a::len)"
  shows "(ucast (a - b) :: 'w word) = ucast a - ucast (b :: 'a word)"
  using assms
proof (transfer, goal_cases)
  case (1 a b)
  then show ?case
    by (metis min.absorb1 take_bit_diff take_bit_take_bit)
qed

lemma near_iff:
  assumes "LENGTH('w::len) = w" and "w \<le> 32"
  shows "near w ov nv \<longleftrightarrow> (\<exists>j \<le> ARITH_MAX. (ucast nv :: 'w word) = ucast ov + of_nat j \<or> (ucast nv :: 'w word) = ucast ov - of_nat j)"
proof -
  have u: "unat (take_bit w x) = unat (ucast x :: 'w word)" for x :: u32
    using assms by (simp add: unsigned_ucast_eq unsigned_take_bit_eq)
  have n: "unat (take_bit w (x - y)) = unat ((ucast x :: 'w word) - ucast y)" for x y :: u32
    using assms ucast_minus_down [of x y, where 'w = 'w] by (simp add: u)
  have e: "unat (x :: 'w word) \<le> k \<longleftrightarrow> (\<exists>j \<le> k. x = of_nat j)" for x k
    by (metis unat_of_nat mod_less_eq_dividend order_trans of_nat_unat ucast_id)
  show ?thesis
    unfolding near_def n e
    by (auto simp: algebra_simps)
qed

text \<open>The field number \<open>i\<close> of width \<open>w\<close>, and the fields of an \<open>u32\<close> as \<open>u16\<close>.\<close>

definition field :: "nat \<Rightarrow> nat \<Rightarrow> u32 \<Rightarrow> u32" where
  "field w i x = take_bit w (drop_bit (w * i) x)"

definition half_at :: "u32 \<Rightarrow> nat \<Rightarrow> u16" where
  "half_at x i = ucast (drop_bit (16 * i) x)"

text \<open>\<open>y\<close> is reached from \<open>x\<close> by adding or subtracting at most \<open>ARITH_MAX\<close>.\<close>

definition arith_near :: "'a::len word \<Rightarrow> 'a word \<Rightarrow> bool" where
  "arith_near x y \<longleftrightarrow> (\<exists>j \<le> ARITH_MAX. y = x + of_nat j \<or> y = x - of_nat j)"

lemma arith_near_refl [simp]: "arith_near x x"
  by (auto simp: arith_near_def intro: exI [of _ 0])

lemma filter_upt_one:
  "length (filter P [0..<n]) = Suc 0 \<longleftrightarrow> (\<exists>i < n. P i \<and> (\<forall>k < n. k \<noteq> i \<longrightarrow> \<not> P k))"
  "i < n \<Longrightarrow> P i \<Longrightarrow> (\<forall>k < n. k \<noteq> i \<longrightarrow> \<not> P k) \<Longrightarrow> filter P [0..<n] = [i]"
proof -
  show one: "filter P [0..<n] = [i]" if "i < n" "P i" "\<forall>k < n. k \<noteq> i \<longrightarrow> \<not> P k" for i
  proof -
    have "[0..<n] = [0..<i] @ i # [Suc i..<n]"
      using that(1) by (metis append_Cons append_Nil le_add1 less_imp_add_positive upt_add_eq_append upt_conv_Cons add_0)
    moreover have "filter P [0..<i] = []" "filter P [Suc i..<n] = []" using that by (auto simp: filter_empty_conv)
    ultimately show ?thesis using that(2) by simp
  qed
  show "length (filter P [0..<n]) = Suc 0 \<longleftrightarrow> (\<exists>i < n. P i \<and> (\<forall>k < n. k \<noteq> i \<longrightarrow> \<not> P k))"
  proof
    assume "length (filter P [0..<n]) = Suc 0"
    then obtain i where "filter P [0..<n] = [i]" by (auto simp: length_Suc_conv)
    then have "set (filter P [0..<n]) = {i}" by simp
    then show "\<exists>i < n. P i \<and> (\<forall>k < n. k \<noteq> i \<longrightarrow> \<not> P k)" by (auto simp: set_eq_iff)
  qed (use one in force)
qed

lemma scan_one:
  "(case arith_scan w n old new (0, ov, nv) of (diffs, ov, nv) \<Rightarrow> diffs = 1 \<and> Q ov nv) \<longleftrightarrow>
   (\<exists>i < n. field w i old \<noteq> field w i new \<and> (\<forall>k < n. k \<noteq> i \<longrightarrow> field w k old = field w k new) \<and>
      Q (field w i old) (field w i new))"
  (is "?l = (\<exists>i < n. ?P i \<and> ?U i \<and> ?Q i)")
proof -
  let ?ds = "filter ?P [0..<n]"
  have sc: "arith_scan w n old new (0, ov, nv) =
     (length ?ds, if ?ds = [] then (ov, nv) else (field w (last ?ds) old, field w (last ?ds) new))"
    by (simp add: arith_scan_eq field_def Let_def)
  have "?l \<longleftrightarrow> length ?ds = Suc 0 \<and> ?Q (last ?ds)" by (auto simp: sc)
  also have "\<dots> \<longleftrightarrow> (\<exists>i < n. ?P i \<and> ?U i \<and> ?Q i)"
  proof
    assume l: "length ?ds = Suc 0 \<and> ?Q (last ?ds)"
    then obtain i where i: "i < n" "?P i" "?U i" unfolding filter_upt_one(1) by blast
    then have "?ds = [i]" by (intro filter_upt_one(2)) auto
    with l i show "\<exists>i < n. ?P i \<and> ?U i \<and> ?Q i" by auto
  next
    assume "\<exists>i < n. ?P i \<and> ?U i \<and> ?Q i"
    then obtain i where i: "i < n" "?P i" "?U i" "?Q i" by blast
    then have "?ds = [i]" by (intro filter_upt_one(2)) auto
    with i show "length ?ds = Suc 0 \<and> ?Q (last ?ds)" by simp
  qed
  finally show ?thesis .
qed

lemma could_be_arith_unfold:
  "could_be_arith old new blen \<longleftrightarrow> old = new \<or>
    (case arith_scan 8 blen old new (0, 0, 0) of (diffs, ov, nv) \<Rightarrow> diffs = 1 \<and> near 8 ov nv) \<or>
    blen \<noteq> 1 \<and>
    ((\<exists>o1 n1. case arith_scan 16 (blen div 2) old new (0, o1, n1) of (diffs, ov, nv) \<Rightarrow> diffs = 1 \<and> (near 16 ov nv \<or>
        near 16 (ucast (SWAP16 (ucast ov))) (ucast (SWAP16 (ucast nv))))) \<or>
     blen = 4 \<and> (near 32 old new \<or> near 32 (SWAP32 old) (SWAP32 new)))"
proof -
  have ex: "(\<exists>o1 n1. case arith_scan 16 m old new (0, o1, n1) of (diffs, ov, nv) \<Rightarrow> diffs = 1 \<and> Q ov nv) \<longleftrightarrow>
    (case arith_scan 16 m old new (0, o2, n2) of (diffs, ov, nv) \<Rightarrow> diffs = 1 \<and> Q ov nv)" for o2 n2 Q m
    unfolding scan_one by simp
  obtain d o8 n8 where s8: "arith_scan 8 blen old new (0, 0, 0) = (d, o8, n8)" by (cases "arith_scan 8 blen old new (0, 0, 0)") auto
  show ?thesis
    unfolding ex [where ?o2.0 = o8 and ?n2.0 = n8] s8 by (simp add: could_be_arith_def s8 split: prod.split) blast
qed

lemma field_eq_iff:
  "LENGTH('w::len) = w \<Longrightarrow> w \<le> 32 \<Longrightarrow>
     field w i x = field w i y \<longleftrightarrow> (ucast (drop_bit (w * i) x) :: 'w word) = ucast (drop_bit (w * i) y)"
proof -
  assume w: "LENGTH('w) = w" "w \<le> 32"
  have "field w i x = field w i y \<longleftrightarrow> (\<forall>k < w. bit x (w * i + k) = bit y (w * i + k))"
    using w(2) by (auto simp: bit_eq_iff field_def bit_simps dest: less_le_trans [OF _ w(2)])
  also have "\<dots> \<longleftrightarrow> (ucast (drop_bit (w * i) x) :: 'w word) = ucast (drop_bit (w * i) y)"
    unfolding bit_eq_iff [where 'a = "'w word"] using w(1) by (auto simp: bit_simps)
  finally show ?thesis .
qed

lemma ucast_field: "LENGTH('w::len) = w \<Longrightarrow> (ucast (field w i x) :: 'w word) = ucast (drop_bit (w * i) x)"
  by (rule bit_word_eqI) (auto simp: field_def bit_simps)

lemma fields_eq:
  assumes "w * n \<le> 32" and "take_bit (w * n) x = x" and "take_bit (w * n) y = y" and "0 < w"
    and "\<And>i. i < n \<Longrightarrow> field w i x = field w i y"
  shows "x = y"
proof (rule bit_word_eqI)
  fix k assume k: "k < LENGTH(32)"
  show "bit x k = bit y k"
  proof (cases "k < w * n")
    case True
    let ?i = "k div w"
    have i: "?i < n" using True by (metis less_mult_imp_div_less mult.commute)
    have "bit (field w ?i z) (k mod w) = bit z k" for z
      using \<open>0 < w\<close> k by (simp add: field_def bit_simps mult.commute)
    then show ?thesis using assms(5) [OF i] by metis
  next
    case False
    then show ?thesis using assms(2,3) by (metis bit_take_bit_iff)
  qed
qed

lemma one_differs:
  assumes "0 < n" and "e \<longleftrightarrow> (\<forall>k<n. f k = g k)" and "\<And>i. f i = g i \<Longrightarrow> R i"
  shows "e \<or> (\<exists>i<n. f i \<noteq> g i \<and> (\<forall>k<n. k \<noteq> i \<longrightarrow> f k = g k) \<and> R i) \<longleftrightarrow>
    (\<exists>i<n. (\<forall>k<n. k \<noteq> i \<longrightarrow> f k = g k) \<and> R i)"
  using assms by metis

lemma could_be_arith_eq:
  assumes "blen \<in> {1, 2, 4}" and "take_bit (8 * blen) old = old" and "take_bit (8 * blen) new = new"
  shows "could_be_arith old new blen \<longleftrightarrow>
    (\<exists>i < blen. (\<forall>k < blen. k \<noteq> i \<longrightarrow> byte_at old k = byte_at new k) \<and> arith_near (byte_at old i) (byte_at new i)) \<or>
    (\<exists>i < blen div 2. (\<forall>k < blen div 2. k \<noteq> i \<longrightarrow> half_at old k = half_at new k) \<and>
       (arith_near (half_at old i) (half_at new i) \<or> arith_near (SWAP16 (half_at old i)) (SWAP16 (half_at new i)))) \<or>
    blen = 4 \<and> (arith_near old new \<or> arith_near (SWAP32 old) (SWAP32 new))"
    (is "_ = (?B \<or> ?H \<or> ?W)")
proof -
  have b: "field 8 i x = field 8 i y \<longleftrightarrow> byte_at x i = byte_at y i" for i x y
    using field_eq_iff [of 8 i x y, where 'w = 8] by (simp add: byte_at_def)
  have h: "field 16 i x = field 16 i y \<longleftrightarrow> half_at x i = half_at y i" for i x y
    using field_eq_iff [of 16 i x y, where 'w = 16] by (simp add: half_at_def)
  have nb: "near 8 (field 8 i x) (field 8 i y) = arith_near (byte_at x i) (byte_at y i)" for i x y
    using near_iff [of 8, where 'w = 8] by (simp add: arith_near_def byte_at_def ucast_field)
  have nh: "near 16 (field 16 i x) (field 16 i y) = arith_near (half_at x i) (half_at y i)" for i x y
    using near_iff [of 16, where 'w = 16] by (simp add: arith_near_def half_at_def ucast_field)
  have u16: "(ucast (ucast z :: u32) :: u16) = z" for z :: u16
    by (rule bit_word_eqI) (auto simp: bit_simps)
  have ns: "near 16 (ucast (SWAP16 (ucast (field 16 i x)))) (ucast (SWAP16 (ucast (field 16 i y)))) =
      arith_near (SWAP16 (half_at x i)) (SWAP16 (half_at y i))" for i x y
    using near_iff [of 16, where 'w = 16] by (simp add: arith_near_def half_at_def ucast_field u16)
  have nw: "near 32 x y = arith_near x y" for x y
    using near_iff [of 32, where 'w = 32] by (simp add: arith_near_def)
  have le32: "8 * blen \<le> 32" "16 * (blen div 2) \<le> 32" using assms(1) by auto
  have all8: "old = new" if "\<And>k. k < blen \<Longrightarrow> byte_at old k = byte_at new k"
    using le32(1) assms(2,3) by (rule fields_eq) (use that in \<open>simp_all add: b\<close>)
  have all16: "old = new" if "\<And>k. k < blen div 2 \<Longrightarrow> half_at old k = half_at new k" "blen \<noteq> 1"
  proof -
    have e: "8 * blen = 16 * (blen div 2)" using assms(1) that(2) by auto
    show ?thesis
      using le32(2) assms(2,3) [unfolded e] by (rule fields_eq) (use that in \<open>simp_all add: h\<close>)
  qed
  have B: "old = new \<or> (\<exists>i<blen. byte_at old i \<noteq> byte_at new i \<and> (\<forall>k<blen. k \<noteq> i \<longrightarrow> byte_at old k = byte_at new k) \<and>
      arith_near (byte_at old i) (byte_at new i)) \<longleftrightarrow> ?B"
    by (rule one_differs) (use assms(1) all8 in auto)
  have H: "old = new \<or> (\<exists>i<blen div 2. half_at old i \<noteq> half_at new i \<and>
      (\<forall>k<blen div 2. k \<noteq> i \<longrightarrow> half_at old k = half_at new k) \<and>
      (arith_near (half_at old i) (half_at new i) \<or> arith_near (SWAP16 (half_at old i)) (SWAP16 (half_at new i))))
      \<longleftrightarrow> ?H" if "blen \<noteq> 1"
    by (rule one_differs) (use assms(1) that all16 in auto)
  show ?thesis
  proof (cases "blen = 1")
    case True
    then show ?thesis
      unfolding could_be_arith_unfold scan_one b h nb nh ns nw using B by simp
  next
    case False
    then show ?thesis
      unfolding could_be_arith_unfold scan_one b h nb nh ns nw simp_thms using B H [OF False] by argo
  qed
qed

lemma locate_loop_snoc:
  "length ps = length qs \<Longrightarrow> locate_loop (ps @ [p]) (qs @ [q]) pos (f0, l0) =
    (let (f_loc, l_loc) = locate_loop ps qs pos (f0, l0); k = int (pos + length ps)
     in if p \<noteq> q then (if f_loc = -1 then k else f_loc, k) else (f_loc, l_loc))"
  by (induction ps qs arbitrary: pos f0 l0 rule: list_induct2) (auto simp: Let_def case_prod_beta algebra_simps)

definition diff_span :: "buf \<Rightarrow> buf \<Rightarrow> nat \<Rightarrow> int \<times> int \<Rightarrow> bool" where
  "diff_span p q n fl = (case fl of (f, l) \<Rightarrow>
     if \<forall>k < n. p ! k = q ! k then f = -1 \<and> l = -1
     else 0 \<le> f \<and> f \<le> l \<and> l < int n \<and> p ! nat f \<noteq> q ! nat f \<and> p ! nat l \<noteq> q ! nat l \<and>
       (\<forall>k < n. p ! k \<noteq> q ! k \<longrightarrow> f \<le> int k \<and> int k \<le> l))"

lemma diff_span_locate:
  "n \<le> length p \<Longrightarrow> n \<le> length q \<Longrightarrow> diff_span p q n (locate_diffs p q n)"
proof (induction n)
  case 0
  then show ?case by (simp add: diff_span_def locate_diffs_def)
next
  case (Suc n)
  have len: "length (take n p) = length (take n q)" using Suc.prems by simp
  obtain f l where fl: "locate_diffs p q n = (f, l)" by fastforce
  have ih: "diff_span p q n (f, l)" using Suc fl by simp
  have st: "locate_diffs p q (Suc n) =
      (if p ! n \<noteq> q ! n then (if f = -1 then int n else f, int n) else (f, l))"
    using Suc.prems fl by (simp add: locate_diffs_def take_Suc_conv_app_nth locate_loop_snoc [OF len] Let_def)
  show ?case
  proof (cases "\<forall>k < n. p ! k = q ! k")
    case True
    with ih have "f = -1" "l = -1" by (simp_all add: diff_span_def)
    with True show ?thesis by (auto simp: st diff_span_def less_Suc_eq)
  next
    case False
    with ih have i: "0 \<le> f" "f \<le> l" "l < int n" "p ! nat f \<noteq> q ! nat f" "p ! nat l \<noteq> q ! nat l"
      "\<forall>k < n. p ! k \<noteq> q ! k \<longrightarrow> f \<le> int k \<and> int k \<le> l" by (simp_all add: diff_span_def)
    from False have "\<not> (\<forall>k < Suc n. p ! k = q ! k)" by (meson less_SucI)
    then show ?thesis
      using i by (cases "p ! n = q ! n") (auto simp: st diff_span_def less_Suc_eq)
  qed
qed

end
