(* ===== verification/Extras.thy ===== *)
theory Extras
  imports Mutpred State "HOL-Library.Multiset"
begin

unbundle bit_operations_syntax

text \<open>
  The dictionary, after \<open>src/afl-fuzz-extras.c\<close>: the parser of dictionary files, user tokens
  (loading, adding, de-unicoding, removing duplicates) and automatic tokens (\<open>maybe_add_auto\<close>,
  \<open>save_auto\<close>, \<open>load_auto\<close>).

  A token is its bytes and its use count; \<open>extras_cnt\<close> and \<open>a_extras_cnt\<close> are the lengths of
  the lists. The use count of user tokens is not read by the modelled code and starts at 0 here.
  File contents are arguments. \<open>WARNF\<close> messages do not change the state and are left out.
  Theorems: the dictionary format can express every token and the parser reads it back, the list
  operations keep the order by size that the users of the list rely on, no token is stored twice,
  and the automatic dictionary stays within its bounds.
\<close>


section \<open>Character classes of the C locale\<close>

definition tolower :: "u8 \<Rightarrow> u8" where
  "tolower c = (if 0x41 \<le> c \<and> c \<le> 0x5A then c + 0x20 else c)"

definition isspace :: "u8 \<Rightarrow> bool" where
  "isspace c \<longleftrightarrow> c = 0x20 \<or> 0x09 \<le> c \<and> c \<le> 0x0D"

definition isdigit :: "u8 \<Rightarrow> bool" where
  "isdigit c \<longleftrightarrow> 0x30 \<le> c \<and> c \<le> 0x39"

definition isalnum :: "u8 \<Rightarrow> bool" where
  "isalnum c \<longleftrightarrow> isdigit c \<or> 0x41 \<le> c \<and> c \<le> 0x5A \<or> 0x61 \<le> c \<and> c \<le> 0x7A"

definition isxdigit :: "u8 \<Rightarrow> bool" where
  "isxdigit c \<longleftrightarrow> isdigit c \<or> 0x41 \<le> c \<and> c \<le> 0x46 \<or> 0x61 \<le> c \<and> c \<le> 0x66"

text \<open>\<open>strchr(hexdigits, tolower(c)) - hexdigits\<close> for a hexadecimal digit.\<close>

definition hexval :: "u8 \<Rightarrow> u8" where
  "hexval c = (let c = tolower c in if isdigit c then c - 0x30 else c - 0x61 + 10)"

text \<open>\<open>atoi\<close>: white space, an optional sign, digits.\<close>

definition digits_val :: "buf \<Rightarrow> int" where
  "digits_val ds = foldl (\<lambda>v d. 10 * v + int (unat (d - 0x30))) 0 ds"

definition atoi :: "buf \<Rightarrow> int" where
  "atoi s = (case dropWhile isspace s of [] \<Rightarrow> 0
     | c # cs \<Rightarrow> if c = 0x2D then - digits_val (takeWhile isdigit cs)
         else if c = 0x2B then digits_val (takeWhile isdigit cs)
         else digits_val (takeWhile isdigit (c # cs)))"

section \<open>Configuration and sorting\<close>

definition MAX_LINE :: nat where "MAX_LINE = 8192"
definition MAX_DICT_FILE :: nat where "MAX_DICT_FILE = 128"
definition MIN_AUTO_EXTRA :: nat where "MIN_AUTO_EXTRA = 3"
definition MAX_AUTO_EXTRA :: nat where "MAX_AUTO_EXTRA = 32"
definition USE_AUTO_EXTRAS :: nat where "USE_AUTO_EXTRAS = 4096"
definition MAX_AUTO_EXTRAS :: nat where "MAX_AUTO_EXTRAS = USE_AUTO_EXTRAS * 8"

abbreviation ex_len :: "extra_data \<Rightarrow> nat" where
  "ex_len e \<equiv> length (ex_data e)"

text \<open>
  \<open>qsort\<close> with the comparators \<open>compare_extras_len\<close>, \<open>compare_auto_extras_len\<close> and
  \<open>compare_auto_extras_use_d\<close>, each the difference of two keys. The C standard fixes neither the
  algorithm nor the order of elements with equal keys: the sorting function is a parameter \<open>qs\<close> of
  the model, taking the key, and \<open>qsort_ok\<close> is what the standard promises.
\<close>

type_synonym qsort_fun = "(extra_data \<Rightarrow> int) \<Rightarrow> extra_data list \<Rightarrow> extra_data list"

definition qsort_ok :: "qsort_fun \<Rightarrow> bool" where
  "qsort_ok qs \<longleftrightarrow> (\<forall>k xs. mset (qs k xs) = mset xs \<and> sorted (map k (qs k xs)))"

definition compare_extras_len :: "extra_data \<Rightarrow> int" where
  "compare_extras_len e = int (ex_len e)"

definition compare_auto_extras_use_d :: "extra_data \<Rightarrow> int" where
  "compare_auto_extras_use_d e = - int (ex_hit_cnt e)"

section \<open>Reading dictionary files\<close>

text \<open>\<open>fgets\<close>: at most \<open>MAX_LINE - 1\<close> bytes, up to and including a newline.\<close>

definition line_len :: "buf \<Rightarrow> nat" where
  "line_len s = (let l = take (MAX_LINE - 1) s; k = length (takeWhile (\<lambda>c. c \<noteq> 0x0A) l)
     in if k < length l then k + 1 else k)"

lemma line_len_pos: "s \<noteq> [] \<Longrightarrow> 0 < line_len s"
  by (cases s) (auto simp: line_len_def MAX_LINE_def Let_def)

function file_lines :: "buf \<Rightarrow> buf list" where
  "file_lines s = (if s = [] then [] else take (line_len s) s # file_lines (drop (line_len s) s))"
  by auto

termination
  by (relation "measure length") (auto simp: line_len_pos)

declare file_lines.simps [simp del]

text \<open>The text between the quotes: control and 8-bit characters are dropped, \<open>\\xNN\<close>, a quoted
  backslash and a quoted quotation mark are decoded, any other backslash is dropped.\<close>

fun unescape :: "buf \<Rightarrow> buf" where
  "unescape [] = []"
| "unescape (c # s) =
    (if c < 32 \<or> 128 \<le> c then unescape s
     else if c = 0x5C then
       (case s of [] \<Rightarrow> []
        | d # s' \<Rightarrow>
            if d = 0x5C \<or> d = 0x22 then d # unescape s'
            else (case s' of
                h1 # h2 # s'' \<Rightarrow>
                  if d = 0x78 \<and> isxdigit h1 \<and> isxdigit h2
                  then (push_bit 4 (hexval h1) OR hexval h2) # unescape s''
                  else unescape s
              | _ \<Rightarrow> unescape s))
     else c # unescape s)"

text \<open>What a line contributes: nothing (blank, comment, level too high), a warning, or a token. The
  number is the size of the allocation for the token, \<open>rptr - lptr\<close>.\<close>

datatype dict_line = Ignored | Malformed string | Token buf nat

definition strip :: "buf \<Rightarrow> buf" where
  "strip s = rev (dropWhile isspace (rev (dropWhile isspace s)))"

text \<open>After the label: the level, the bracketed number, the separator and the opening quote.\<close>

definition skip_level :: "nat \<Rightarrow> buf \<Rightarrow> buf option" where
  "skip_level dict_level s = (case s of
       c # s' \<Rightarrow> if c = 0x40 then if atoi s' > sint (of_nat dict_level :: u32) then None else Some (dropWhile isdigit s')
                 else Some s
     | [] \<Rightarrow> Some s)"

definition skip_brackets :: "buf \<Rightarrow> buf" where
  "skip_brackets s = (case s of
       c # s' \<Rightarrow> if c = 0x5B then
           (case dropWhile isdigit s' of
              d # s'' \<Rightarrow> if d = 0x5D then s'' else d # s''
            | [] \<Rightarrow> [])
         else s
     | [] \<Rightarrow> s)"

definition parse_quoted :: "buf \<Rightarrow> dict_line" where
  "parse_quoted s = (case dropWhile (\<lambda>c. isspace c \<or> c = 0x3D) s of
       c # s' \<Rightarrow>
         if c \<noteq> 0x22 then Malformed ''Malformed name=keyword pair''
         else if s' = [] then Malformed ''Empty keyword''
         else let t = unescape s'
           in if length t > MAX_DICT_FILE then Malformed ''Keyword too big'' else Token t (length s')
     | [] \<Rightarrow> Malformed ''Malformed name=keyword pair'')"

definition parse_line :: "nat \<Rightarrow> buf \<Rightarrow> dict_line" where
  "parse_line dict_level line =
    (let s = strip (takeWhile (\<lambda>c. c \<noteq> 0) line)
     in if s = [] \<or> hd s = 0x23 then Ignored
        else if last s \<noteq> 0x22 then Malformed ''Malformed name=value pair''
        else case skip_level dict_level (dropWhile (\<lambda>c. isalnum c \<or> c = 0x5F) (butlast s)) of
            None \<Rightarrow> Ignored
          | Some s \<Rightarrow> parse_quoted (skip_brackets s))"

definition new_extra :: "buf \<Rightarrow> extra_data" where
  "new_extra d = \<lparr>ex_data = d, ex_hit_cnt = 0\<rparr>"

definition add_line :: "nat \<Rightarrow> buf \<Rightarrow> afl_state \<times> nat \<times> nat \<Rightarrow> afl_state \<times> nat \<times> nat" where
  "add_line dict_level line = (\<lambda>(a, min_len, max_len).
    case parse_line dict_level line of
      Token t _ \<Rightarrow> (a\<lparr>extras := extras a @ [new_extra t]\<rparr>, min min_len (length t), max max_len (length t))
    | _ \<Rightarrow> (a, min_len, max_len))"

text \<open>The file content is \<open>None\<close> when \<open>fopen\<close> fails.\<close>

definition load_extras_file :: "buf option \<Rightarrow> nat \<Rightarrow> afl_state \<times> nat \<times> nat \<Rightarrow> fatal + afl_state \<times> nat \<times> nat" where
  "load_extras_file f dict_level st = (case f of
     None \<Rightarrow> Inl (FatalMsg ''Unable to open'')
   | Some content \<Rightarrow> Inr (fold (add_line dict_level) (file_lines content) st))"

definition extras_check_and_sort :: "qsort_fun \<Rightarrow> afl_state \<Rightarrow> afl_state" where
  "extras_check_and_sort qs a =
    (if extras a = [] then a else a\<lparr>extras := qs compare_extras_len (extras a)\<rparr>)"

text \<open>What \<open>opendir\<close> and \<open>readdir\<close> find at the dictionary path.\<close>

datatype dir_entry = NoAccess | NotRegular | Regular "buf option"

datatype dict_path = NotADirectory "buf option" | CannotOpen | Directory "(nat \<times> dir_entry) list"

text \<open>One file of a directory: \<open>st_size\<close> and the content (\<open>None\<close> when \<open>open\<close> fails).\<close>

definition load_entry :: "nat \<times> dir_entry \<Rightarrow> afl_state \<Rightarrow> fatal + afl_state" where
  "load_entry de a = (case de of (st_size, k) \<Rightarrow> case k of
      NoAccess \<Rightarrow> Inl (FatalMsg ''Unable to access'')
    | NotRegular \<Rightarrow> Inr a
    | Regular content \<Rightarrow>
        if st_size = 0 \<or> st_size > MAX_DICT_FILE then Inr a
        else (case content of None \<Rightarrow> Inl (FatalMsg ''Unable to open'')
          | Some d \<Rightarrow> if length d < st_size then Inl (FatalMsg ''Short read'')
              else Inr (a\<lparr>extras := extras a @ [new_extra (take st_size d)]\<rparr>)))"

definition load_extras :: "qsort_fun \<Rightarrow> (buf \<Rightarrow> dict_path) \<Rightarrow> buf \<Rightarrow> afl_state \<Rightarrow> fatal + afl_state" where
  "load_extras qs fs dir a =
    (let name = takeWhile (\<lambda>c. c \<noteq> 0x40) dir;
         level_given = (0x40 \<in> set dir);
         dict_level = (if level_given then unat (word_of_int (atoi (drop (length name + 1) dir)) :: u32) else 0)
     in case fs name of
          CannotOpen \<Rightarrow> Inl (FatalMsg ''Unable to open'')
        | NotADirectory f \<Rightarrow>
            bind_err (load_extras_file f dict_level (a, MAX_DICT_FILE, 0)) (\<lambda>(a, _, _).
              Inr (extras_check_and_sort qs a))
        | Directory es \<Rightarrow>
            if level_given then Inl (FatalMsg ''Dictionary levels not supported for directories.'')
            else bind_err (for_each load_entry es a) (\<lambda>a. Inr (extras_check_and_sort qs a)))"

section \<open>Adding tokens\<close>

text \<open>\<open>memcmp_nocase\<close> of two buffers of \<open>len\<close> bytes: whether they differ.\<close>

fun memcmp_nocase :: "buf \<Rightarrow> buf \<Rightarrow> bool" where
  "memcmp_nocase (x # xs) (y # ys) = (if tolower x XOR tolower y \<noteq> 0 then True else memcmp_nocase xs ys)"
| "memcmp_nocase _ _ = False"

definition add_extra_nocheck :: "buf \<Rightarrow> extra_data list \<Rightarrow> extra_data list" where
  "add_extra_nocheck mem es = es @ [new_extra mem]"

text \<open>The loop of \<open>add_extra\<close>: whether the token is there, given the ones that remain.\<close>

fun extra_known :: "buf \<Rightarrow> bool \<Rightarrow> extra_data list \<Rightarrow> bool" where
  "extra_known mem found [] = False"
| "extra_known mem found (e # es) =
    (if ex_len e = length mem then (if ex_data e = mem then True else extra_known mem True es)
     else if found then False else extra_known mem found es)"

definition add_extra :: "qsort_fun \<Rightarrow> buf \<Rightarrow> afl_state \<Rightarrow> afl_state" where
  "add_extra qs mem a =
    (if extra_known mem False (extras a) then a
     else if length mem > MAX_DICT_FILE then a
     else a\<lparr>extras := qs compare_extras_len (add_extra_nocheck mem (extras a))\<rparr>)"

section \<open>De-unicoding\<close>

text \<open>The number of zero bytes at the offsets congruent to \<open>r\<close> modulo \<open>m\<close>.\<close>

definition zeros :: "buf \<Rightarrow> nat \<Rightarrow> nat \<Rightarrow> nat" where
  "zeros d m r = length (filter (\<lambda>j. j mod m = r \<and> d ! j = 0) [0..<length d])"

text \<open>The bytes at these offsets.\<close>

definition every :: "buf \<Rightarrow> nat \<Rightarrow> nat \<Rightarrow> buf" where
  "every d m r = map (\<lambda>j. d ! j) (filter (\<lambda>j. j mod m = r) [0..<length d])"

definition deunicode :: "buf \<Rightarrow> buf list" where
  "deunicode d =
    (let len = length d in
     if len < 6 \<or> len > 64 \<or> len mod 2 = 1 then []
     else
       let half = len div 2; quarter = half div 2;
           z3 = zeros d 4 2; z1 = z3 + zeros d 4 0; z4 = zeros d 4 3; z2 = z4 + zeros d 4 1
       in if (z1 < half \<and> z2 < half) \<or> z1 + z2 = len then []
          else
            (if len mod 4 = 0 \<and> len \<ge> 12 \<and> (z3 = quarter \<or> z4 = quarter) \<and> z1 + z2 = quarter * 3
             then [if z4 < quarter then every d 4 3 else if z3 < quarter then every d 4 2
                   else if z2 < half then every d 4 1 else every d 4 0]
             else [])
            @ [if z1 < half then every d 2 0 else every d 2 1])"

definition deunicode_extras :: "qsort_fun \<Rightarrow> afl_state \<Rightarrow> afl_state" where
  "deunicode_extras qs a =
    (if extras a = [] then a
     else a\<lparr>extras := qs compare_extras_len
        (fold add_extra_nocheck (concat (map (\<lambda>e. deunicode (ex_data e)) (extras a))) (extras a))\<rparr>)"

section \<open>Removing duplicates\<close>

text \<open>
  The array is \<open>es\<close>, its length \<open>extras_cnt\<close>. \<open>dedup_inner\<close> is the inner loop at \<open>i\<close> from
  \<open>j\<close> on: a duplicate is cut out and the same \<open>j\<close> looked at again.
\<close>

function dedup_inner :: "nat \<Rightarrow> nat \<Rightarrow> extra_data list \<Rightarrow> extra_data list" where
  "dedup_inner i j es =
    (if j \<ge> length es \<or> ex_len (es ! i) \<noteq> ex_len (es ! j) then es
     else if ex_data (es ! i) = ex_data (es ! j) then dedup_inner i j (take j es @ drop (j + 1) es)
     else dedup_inner i (j + 1) es)"
  by auto

termination
  by (relation "measure (\<lambda>(i, j, es). length es - j)") auto

declare dedup_inner.simps [simp del]

lemma length_dedup_inner: "length (dedup_inner i j es) \<le> length es"
proof (induction i j es rule: dedup_inner.induct)
  case (1 i j es)
  consider "j \<ge> length es \<or> ex_len (es ! i) \<noteq> ex_len (es ! j)"
    | "\<not> (j \<ge> length es \<or> ex_len (es ! i) \<noteq> ex_len (es ! j))" "ex_data (es ! i) = ex_data (es ! j)"
    | "\<not> (j \<ge> length es \<or> ex_len (es ! i) \<noteq> ex_len (es ! j))" "ex_data (es ! i) \<noteq> ex_data (es ! j)"
    by blast
  then show ?case
  proof cases
    case 1
    then show ?thesis by (simp add: dedup_inner.simps [of i j es])
  next
    case 2
    then have "length (take j es @ drop (j + 1) es) \<le> length es" by simp
    with 2 show ?thesis using "1.IH"(1) by (subst dedup_inner.simps) (simp add: le_trans)
  next
    case 3
    then show ?thesis using "1.IH"(2) by (subst dedup_inner.simps) simp
  qed
qed

function dedup_outer :: "nat \<Rightarrow> extra_data list \<Rightarrow> extra_data list" where
  "dedup_outer i es = (if i + 1 < length es then dedup_outer (i + 1) (dedup_inner i (i + 1) es) else es)"
  by auto

termination
proof (relation "measure (\<lambda>(i, es). length es - i)", goal_cases)
  case (2 i es)
  then show ?case using length_dedup_inner [of i "i + 1" es] by simp
qed simp

declare dedup_outer.simps [simp del]

definition dedup_extras :: "afl_state \<Rightarrow> afl_state" where
  "dedup_extras a = (if length (extras a) < 2 then a else a\<lparr>extras := dedup_outer 0 (extras a)\<rparr>)"

section \<open>Automatic tokens\<close>

text \<open>The built-in values of \<open>len\<close> bytes. A \<open>u16\<close> is compared with the \<open>s16\<close> table without a
  cast, so both sides are promoted to \<open>int\<close>.\<close>

definition builtin_16 :: "buf \<Rightarrow> bool" where
  "builtin_16 mem = (\<exists>v \<in> set interesting_16.
     uint (le_word mem :: u16) = v \<or> (le_word mem :: u16) = SWAP16 (word_of_int v))"

definition builtin_32 :: "buf \<Rightarrow> bool" where
  "builtin_32 mem = (\<exists>v \<in> set interesting_32.
     (le_word mem :: u32) = word_of_int v \<or> (le_word mem :: u32) = SWAP32 (word_of_int v))"

text \<open>The search in the sorted user tokens: skip the shorter ones, compare those of the same length.\<close>

definition extras_match :: "buf \<Rightarrow> extra_data list \<Rightarrow> bool" where
  "extras_match mem es =
    (\<exists>e \<in> set (takeWhile (\<lambda>e. ex_len e = length mem) (dropWhile (\<lambda>e. ex_len e < length mem) es)).
       \<not> memcmp_nocase (ex_data e) mem)"

definition same_token :: "buf \<Rightarrow> extra_data \<Rightarrow> bool" where
  "same_token mem e \<longleftrightarrow> ex_len e = length mem \<and> \<not> memcmp_nocase (ex_data e) mem"

text \<open>The index of the first automatic token that matches.\<close>

fun find_auto :: "buf \<Rightarrow> extra_data list \<Rightarrow> nat option" where
  "find_auto mem [] = None"
| "find_auto mem (e # es) = (if same_token mem e then Some 0 else map_option Suc (find_auto mem es))"

definition sort_a_extras :: "qsort_fun \<Rightarrow> extra_data list \<Rightarrow> extra_data list" where
  "sort_a_extras qs es =
    (let es = qs compare_auto_extras_use_d es; n = min USE_AUTO_EXTRAS (length es)
     in qs compare_extras_len (take n es) @ drop n es)"

text \<open>\<open>r\<close> is what \<open>rand_below(afl, (MAX_AUTO_EXTRAS + 1) / 2)\<close> delivers where the list is full.\<close>

definition maybe_add_auto :: "qsort_fun \<Rightarrow> nat \<Rightarrow> buf \<Rightarrow> afl_state \<Rightarrow> afl_state" where
  "maybe_add_auto qs r mem a =
    (if (mem \<noteq> [] \<and> (\<forall>b \<in> set (drop 1 mem). b = mem ! 0)) \<or> length mem > MAX_AUTO_EXTRA then a
     else if length mem = 2 \<and> builtin_16 mem then a
     else if length mem = 4 \<and> builtin_32 mem then a
     else if extras_match mem (extras a) then a
     else
       let a = a\<lparr>auto_changed := True\<rparr>;
           es = a_extras a;
           es' = (case find_auto mem es of
               Some i \<Rightarrow> es[i := (es ! i)\<lparr>ex_hit_cnt := ex_hit_cnt (es ! i) + 1\<rparr>]
             | None \<Rightarrow>
                 if length es < MAX_AUTO_EXTRAS then es @ [new_extra mem]
                 else es[MAX_AUTO_EXTRAS div 2 + r := new_extra mem])
       in a\<lparr>a_extras := sort_a_extras qs es'\<rparr>)"

text \<open>\<open>save_auto\<close> writes the files \<open>auto_000000\<close>, \<open>auto_000001\<close>, ...: the list of their
  contents, none when nothing has changed.\<close>

definition save_auto :: "afl_state \<Rightarrow> buf list option \<times> afl_state" where
  "save_auto a =
    (if \<not> auto_changed a then (None, a)
     else (Some (map ex_data (take (min USE_AUTO_EXTRAS (length (a_extras a))) (a_extras a))), a\<lparr>auto_changed := False\<rparr>))"

text \<open>\<open>load_auto\<close> reads them back, one byte more than a token may have. \<open>rs\<close> are the random
  numbers for the evictions.\<close>

fun load_auto :: "qsort_fun \<Rightarrow> (nat \<Rightarrow> nat) \<Rightarrow> nat \<Rightarrow> buf list \<Rightarrow> afl_state \<Rightarrow> afl_state" where
  "load_auto qs rs i [] a = a"
| "load_auto qs rs i (f # fs) a =
    (if i \<ge> USE_AUTO_EXTRAS then a
     else let tmp = take (MAX_AUTO_EXTRA + 1) f
       in load_auto qs rs (i + 1) fs
            (if MIN_AUTO_EXTRA \<le> length tmp \<and> length tmp \<le> MAX_AUTO_EXTRA
             then maybe_add_auto qs (rs i) tmp a else a))"

section \<open>The dictionary format\<close>

text \<open>How a token is written: printable characters as themselves, all other bytes as \<open>\\xNN\<close>.\<close>

definition hexd :: "u8 \<Rightarrow> u8" where
  "hexd n = (if n < 10 then n + 0x30 else n - 10 + 0x61)"

definition print_byte :: "u8 \<Rightarrow> buf" where
  "print_byte b = (if 32 \<le> b \<and> b < 128 \<and> b \<noteq> 0x22 \<and> b \<noteq> 0x5C then [b]
     else [0x5C, 0x78, hexd (drop_bit 4 b), hexd (take_bit 4 b)])"

definition print_token :: "buf \<Rightarrow> buf \<Rightarrow> buf" where
  "print_token name t = name @ [0x3D, 0x22] @ concat (map print_byte t) @ [0x22, 0x0A]"

lemma u8_less_16_cases:
  assumes "(n :: u8) < 16"
  shows "n \<in> {0, 1, 2, 3, 4, 5, 6, 7, 8, 9, 10, 11, 12, 13, 14, 15}"
proof -
  have "unat n < 16" using assms by (simp add: word_less_nat_alt)
  then have "unat n \<in> {0, 1, 2, 3, 4, 5, 6, 7, 8, 9, 10, 11, 12, 13, 14, 15}"
    unfolding insert_iff empty_iff by arith
  then have "(of_nat (unat n) :: u8) \<in> of_nat ` {0, 1, 2, 3, 4, 5, 6, 7, 8, 9, 10, 11, 12, 13, 14, 15}" by blast
  then show ?thesis by simp
qed

lemma hexd_16:
  assumes "n < 16"
  shows "isxdigit (hexd n)" and "hexval (hexd n) = n" and "hexd n \<noteq> 0" and "hexd n \<noteq> 0x0A" and "32 \<le> hexd n" and "hexd n < 128"
  using u8_less_16_cases [OF assms]
  by (elim insertE emptyE; simp add: hexd_def isxdigit_def isdigit_def hexval_def tolower_def)+

lemma nibbles: "drop_bit 4 (b :: u8) < 16" "take_bit 4 b < 16" "push_bit 4 (drop_bit 4 b) OR take_bit 4 b = b"
proof -
  have "unat (drop_bit 4 b) < 16"
  proof -
    have "unat b < 2 ^ LENGTH(8)" by (rule unsigned_less)
    moreover have "unat (drop_bit 4 b) = unat b div 16" using unat_drop_bit_eq [of 4 b] by (simp add: drop_bit_eq_div [of 4 "unat b"])
    ultimately show ?thesis by simp
  qed
  then show "drop_bit 4 b < 16" by (simp add: word_less_nat_alt)
  have "unat (take_bit 4 b) < 16" 
  proof -
    have "unat (take_bit 4 b) = take_bit 4 (unat b)" by (rule unsigned_take_bit_eq)
    then show ?thesis by (simp add: take_bit_eq_mod [of 4 "unat b"])
  qed
  then show "take_bit 4 b < 16" by (simp add: word_less_nat_alt)
  show "push_bit 4 (drop_bit 4 b) OR take_bit 4 b = b"
    by (rule bit_word_eqI) (auto simp: bit_simps)
qed

lemma unescape_print_byte: "unescape (print_byte b @ s) = b # unescape s"
proof (cases "32 \<le> b \<and> b < 128 \<and> b \<noteq> 0x22 \<and> b \<noteq> 0x5C")
  case True
  then show ?thesis by (auto simp: print_byte_def)
next
  case False
  then show ?thesis
    by (simp add: print_byte_def hexd_16(1,2) nibbles)
qed

lemma unescape_print [simp]: "unescape (concat (map print_byte t)) = t"
  by (induction t) (simp_all add: unescape_print_byte)

lemma length_unescape: "length (unescape s) \<le> length s"
proof (induction "length s" arbitrary: s rule: less_induct)
  case less
  show ?case
  proof (cases s)
    case (Cons c r)
    have r: "length (unescape r) \<le> length r" using less Cons by simp
    show ?thesis
    proof (cases "c = 0x5C")
      case False
      then show ?thesis using r by (simp add: Cons)
    next
      case True
      have t: "length (unescape (drop k r)) \<le> length (drop k r)" for k
        by (rule less) (simp add: Cons le_imp_less_Suc)
      show ?thesis
        using r t [of 1] t [of 3]
        by (auto simp: Cons True unescape.simps(2) [of "0x5C" r] simp del: unescape.simps split: list.split)
    qed
  qed simp
qed

lemma print_byte_props: "c \<in> set (print_byte b) \<Longrightarrow> 32 \<le> c \<and> c < 128" "print_byte b \<noteq> []" "length (print_byte b) \<le> 4"
  using hexd_16(5,6) [OF nibbles(1)] hexd_16(5,6) [OF nibbles(2)]
  by (auto simp: print_byte_def split: if_splits)

lemma isspace_quote [simp]: "\<not> isspace 0x22" "\<not> isspace 0x3D" "isspace 0x0A"
  by (simp_all add: isspace_def)

lemma label_not: "isalnum c \<Longrightarrow> \<not> isspace c" "isalnum c \<Longrightarrow> c \<noteq> 0" "isalnum c \<Longrightarrow> c \<noteq> 0x23" "isalnum c \<Longrightarrow> c \<noteq> 0x0A"
  by (auto simp: isalnum_def isspace_def isdigit_def word_le_nat_alt)

text \<open>Every non-empty token that is not too long has a line that denotes it.\<close>

lemma parse_print_token:
  assumes "\<forall>c \<in> set name. isalnum c \<or> c = 0x5F" and "t \<noteq> []" and "length t \<le> MAX_DICT_FILE"
  shows "\<exists>n \<ge> length t. parse_line dict_level (print_token name t) = Token t n"
proof -
  let ?q = "concat (map print_byte t)"
  let ?s = "name @ [0x3D, 0x22] @ ?q @ [0x22]"
  have q: "c \<in> set ?q \<Longrightarrow> 32 \<le> c \<and> c < 128" for c by (auto dest: print_byte_props(1))
  then have q0: "c \<in> set ?q \<Longrightarrow> c \<noteq> 0" for c by force
  have n0: "c \<in> set name \<Longrightarrow> c \<noteq> 0 \<and> \<not> isspace c \<and> c \<noteq> 0x23" for c
    using assms(1) label_not by (fastforce simp: isspace_def)
  have tw: "takeWhile (\<lambda>c. c \<noteq> 0) (print_token name t) = ?s @ [0x0A]"
    unfolding print_token_def by (subst takeWhile_eq_all_conv [THEN iffD2]) (use q0 n0 in \<open>auto\<close>)
  have hd: "hd ?s \<noteq> 0x23 \<and> \<not> isspace (hd ?s)" using n0 by (cases name) auto
  have dw: "dropWhile isspace (?s @ [0x0A]) = ?s @ [0x0A]"
    using hd by (cases name) auto
  have st: "strip (?s @ [0x0A]) = ?s"
    unfolding strip_def dw by simp
  have bl: "butlast ?s = name @ [0x3D, 0x22] @ ?q" by (simp add: butlast_append)
  have lab: "dropWhile (\<lambda>c. isalnum c \<or> c = 0x5F) (name @ [0x3D, 0x22] @ ?q) = [0x3D, 0x22] @ ?q"
    using assms(1) by (subst dropWhile_append2) (auto simp: isalnum_def isdigit_def)
  have "?q \<noteq> []" using assms(2) print_byte_props(2) by (cases t) auto
  then have pq: "parse_quoted ([0x3D, 0x22] @ ?q) = Token t (length ?q)"
    using assms(3) by (simp add: parse_quoted_def)
  have "parse_line dict_level (print_token name t) = Token t (length ?q)"
    unfolding parse_line_def tw Let_def st bl lab
    using hd by (simp add: skip_level_def skip_brackets_def pq [simplified])
  moreover have "length t \<le> length ?q" using length_unescape [of ?q] by simp
  ultimately show ?thesis by blast
qed

lemma line_len_line:
  assumes "0x0A \<notin> set l" and "length l < MAX_LINE - 1"
  shows "line_len ((l @ [0x0A]) @ rest) = length l + 1"
proof -
  have t: "take (MAX_LINE - 1) ((l @ [0x0A]) @ rest) = l @ 0x0A # take (MAX_LINE - 1 - length l - 1) rest"
    using assms(2) by (cases "MAX_LINE - 1 - length l") simp_all
  have "takeWhile (\<lambda>c. c \<noteq> 0x0A) (l @ 0x0A # r) = l" for r
    using assms(1) by (subst takeWhile_append2) auto
  then show ?thesis unfolding line_len_def t Let_def by simp
qed

lemma file_lines_line:
  assumes "0x0A \<notin> set l" and "length l < MAX_LINE - 1"
  shows "file_lines ((l @ [0x0A]) @ rest) = (l @ [0x0A]) # file_lines rest"
  by (subst file_lines.simps) (use assms line_len_line [OF assms] in simp)

lemma print_token_line:
  assumes "\<forall>c \<in> set name. isalnum c \<or> c = 0x5F" and "length t \<le> MAX_DICT_FILE" and "length name \<le> 7000"
  shows "\<exists>l. print_token name t = l @ [0x0A] \<and> 0x0A \<notin> set l \<and> length l < MAX_LINE - 1"
proof (intro exI conjI)
  let ?l = "name @ [0x3D, 0x22] @ concat (map print_byte t) @ [0x22]"
  show "print_token name t = ?l @ [0x0A]" by (simp add: print_token_def)
  have "c \<in> set (concat (map print_byte t)) \<Longrightarrow> c \<noteq> 0x0A" for c
    using print_byte_props(1) by fastforce
  then show "0x0A \<notin> set ?l" using assms(1) label_not(4) by fastforce
  have "length (concat (map print_byte t)) \<le> 4 * length t"
  proof (induction t)
    case (Cons b t)
    then show ?case using print_byte_props(3) [of b] by simp
  qed simp
  then show "length ?l < MAX_LINE - 1"
    using assms(2,3) by (simp add: MAX_DICT_FILE_def MAX_LINE_def)
qed

text \<open>C22. A dictionary file with one line \<open>name="..."\<close> per token, printable characters as themselves
  and all other bytes as \<open>\\xNN\<close>, loads exactly these tokens in this order, whatever bytes they
  consist of.\<close>

theorem load_extras_file_roundtrip:
  assumes "\<forall>(name, t) \<in> set toks. (\<forall>c \<in> set name. isalnum c \<or> c = 0x5F) \<and> length name \<le> 7000 \<and>
      t \<noteq> [] \<and> length t \<le> MAX_DICT_FILE"
  shows "\<exists>mn mx. load_extras_file (Some (concat (map (\<lambda>(name, t). print_token name t) toks))) dict_level (a, mn0, mx0) =
      Inr (a\<lparr>extras := extras a @ map (\<lambda>(name, t). new_extra t) toks\<rparr>, mn, mx)"
  using assms
proof (induction toks arbitrary: a mn0 mx0)
  case Nil
  then show ?case by (simp add: load_extras_file_def file_lines.simps)
next
  case (Cons p toks)
  obtain name t where p: "p = (name, t)" by (cases p)
  let ?rest = "concat (map (\<lambda>(name, t). print_token name t) toks)"
  obtain l where l: "print_token name t = l @ [0x0A]" "0x0A \<notin> set l" "length l < MAX_LINE - 1"
    using print_token_line [of name t] Cons.prems p by auto
  obtain n where n: "parse_line dict_level (print_token name t) = Token t n"
    using parse_print_token [of name t dict_level] Cons.prems p by auto
  have "file_lines (print_token name t @ ?rest) = print_token name t # file_lines ?rest"
    unfolding l(1) by (rule file_lines_line [OF l(2,3)])
  then have "load_extras_file (Some (concat (map (\<lambda>(name, t). print_token name t) (p # toks)))) dict_level (a, mn0, mx0) =
      load_extras_file (Some ?rest) dict_level (a\<lparr>extras := extras a @ [new_extra t]\<rparr>, min mn0 (length t), max mx0 (length t))"
    by (simp add: load_extras_file_def p add_line_def n)
  then show ?case
    using Cons.IH [of "a\<lparr>extras := extras a @ [new_extra t]\<rparr>" "min mn0 (length t)" "max mx0 (length t)"] Cons.prems p by simp
qed

theorem load_extras_file_roundtrip_witness:
  "\<exists>mn mx. load_extras_file (Some (print_token [0x6B] [0x00, 0x22, 0x5C, 0xFF])) 0 (campaign_start 64, 128, 0) =
      Inr (campaign_start 64\<lparr>extras := extras (campaign_start 64) @ [new_extra [0x00, 0x22, 0x5C, 0xFF]]\<rparr>, mn, mx)"
  using load_extras_file_roundtrip [of "[([0x6B], [0x00, 0x22, 0x5C, 0xFF])]" 0 "campaign_start 64" 128 0]
  by (simp add: isalnum_def isdigit_def MAX_DICT_FILE_def)

section \<open>The list of user tokens\<close>

abbreviation by_len :: "extra_data list \<Rightarrow> bool" where
  "by_len es \<equiv> sorted (map ex_len es)"

lemma qsort_okD:
  assumes "qsort_ok qs"
  shows "mset (qs k xs) = mset xs" and "set (qs k xs) = set xs" and "length (qs k xs) = length xs"
    and "by_len (qs compare_extras_len xs)" and "sorted (map k (qs k xs))"
proof -
  show m: "mset (qs k xs) = mset xs" for k using assms by (simp add: qsort_ok_def)
  show "set (qs k xs) = set xs" using m [of k] by (rule mset_eq_setD)
  show "length (qs k xs) = length xs" using m [of k] by (rule mset_eq_length)
  show s: "sorted (map k (qs k xs))" for k using assms by (simp add: qsort_ok_def)
  show "by_len (qs compare_extras_len xs)"
    using s [of compare_extras_len] by (simp add: compare_extras_len_def [abs_def] sorted_map sorted_wrt_map)
qed

lemma distinct_map_mset: "mset xs = mset ys \<Longrightarrow> distinct (map f xs) = distinct (map f ys)"
  by (metis distinct_count_atmost_1 mset_map set_mset_mset)

text \<open>Keeping the first copy of every token.\<close>

function keep_first :: "extra_data list \<Rightarrow> extra_data list" where
  "keep_first [] = []"
| "keep_first (e # es) = e # keep_first (filter (\<lambda>x. ex_data x \<noteq> ex_data e) es)"
  by pat_completeness auto

termination
  by (relation "measure length") (auto simp: less_Suc_eq_le)

section \<open>Encoded strings\<close>

text \<open>Each byte of \<open>s\<close> becomes a character of \<open>w\<close> bytes, its value in byte \<open>k\<close>: UTF-16 for
  \<open>w = 2\<close>, UTF-32 for \<open>w = 4\<close>, little endian for \<open>k = 0\<close>.\<close>

definition widen :: "nat \<Rightarrow> nat \<Rightarrow> buf \<Rightarrow> buf" where
  "widen w k s = concat (map (\<lambda>i. (replicate w 0)[k := s ! i]) [0..<length s])"

lemma length_widen [simp]: "length (widen w k s) = length s * w"
  unfolding widen_def by (rule length_concat_map_const) simp

section \<open>Loading and adding tokens\<close>

lemma ex_data_new_extra [simp]: "ex_data (new_extra t) = t" "ex_hit_cnt (new_extra t) = 0"
  by (simp_all add: new_extra_def)

abbreviation short_tokens :: "extra_data list \<Rightarrow> bool" where
  "short_tokens es \<equiv> \<forall>e \<in> set es. ex_len e \<le> MAX_DICT_FILE"

lemma qsort_ok_sort_key: "qsort_ok sort_key"
  by (simp add: qsort_ok_def)

section \<open>The automatic dictionary\<close>

definition fold_case :: "buf \<Rightarrow> buf" where
  "fold_case s = map tolower s"

text \<open>
  The invariant of the automatic dictionary: it has room for \<open>MAX_AUTO_EXTRAS\<close> tokens of at most
  \<open>MAX_AUTO_EXTRA\<close> bytes, no two of which agree up to case; the first \<open>USE_AUTO_EXTRAS\<close> are
  sorted by size, and none of the others has been used more often than one of them.
\<close>

definition auto_wf :: "extra_data list \<Rightarrow> bool" where
  "auto_wf es \<longleftrightarrow> length es \<le> MAX_AUTO_EXTRAS \<and> (\<forall>e \<in> set es. ex_len e \<le> MAX_AUTO_EXTRA) \<and>
     distinct (map (fold_case \<circ> ex_data) es) \<and> by_len (take USE_AUTO_EXTRAS es) \<and>
     (\<forall>x \<in> set (take USE_AUTO_EXTRAS es). \<forall>y \<in> set (drop USE_AUTO_EXTRAS es). ex_hit_cnt y \<le> ex_hit_cnt x)"

lemma memcmp_nocase_iff:
  "length xs = length ys \<Longrightarrow> memcmp_nocase xs ys \<longleftrightarrow> fold_case xs \<noteq> fold_case ys"
proof (induction xs ys rule: list_induct2)
  case (Cons x xs y ys)
  have "tolower x XOR tolower y = 0 \<longleftrightarrow> tolower x = tolower y"
    by (metis xor_self_eq xor.assoc xor.left_neutral)
  with Cons show ?case by (auto simp: fold_case_def)
qed (simp add: fold_case_def)

lemma same_token_iff: "same_token mem e \<longleftrightarrow> fold_case (ex_data e) = fold_case mem"
proof -
  have "length (ex_data e) = length mem" if "fold_case (ex_data e) = fold_case mem"
    using that by (metis fold_case_def length_map)
  then show ?thesis using memcmp_nocase_iff by (auto simp: same_token_def)
qed

lemma find_auto_None: "find_auto mem es = None \<longleftrightarrow> (\<forall>e \<in> set es. fold_case (ex_data e) \<noteq> fold_case mem)"
  by (induction es) (auto simp: same_token_iff)

lemma find_auto_Some: "find_auto mem es = Some i \<Longrightarrow> i < length es \<and> fold_case (ex_data (es ! i)) = fold_case mem"
  by (induction es arbitrary: i) (auto simp: same_token_iff split: if_splits)

lemma sort_a_extras_mset: "qsort_ok qs \<Longrightarrow> mset (sort_a_extras qs es) = mset es"
proof -
  assume q: "qsort_ok qs"
  let ?es = "qs compare_auto_extras_use_d es"
  have "mset (sort_a_extras qs es) = mset (take n ?es) + mset (drop n ?es)" if "n = min USE_AUTO_EXTRAS (length ?es)" for n
    using that by (simp add: sort_a_extras_def Let_def qsort_okD(1) [OF q])
  then have "mset (sort_a_extras qs es) = mset ?es"
    by (metis append_take_drop_id mset_append)
  then show ?thesis by (simp add: qsort_okD(1) [OF q])
qed

lemma sort_a_extras_top:
  assumes "qsort_ok qs"
  shows "by_len (take USE_AUTO_EXTRAS (sort_a_extras qs es))"
    and "x \<in> set (take USE_AUTO_EXTRAS (sort_a_extras qs es)) \<Longrightarrow> y \<in> set (drop USE_AUTO_EXTRAS (sort_a_extras qs es)) \<Longrightarrow>
      ex_hit_cnt y \<le> ex_hit_cnt x"
proof -
  let ?es = "qs compare_auto_extras_use_d es" and ?n = "min USE_AUTO_EXTRAS (length (qs compare_auto_extras_use_d es))"
  let ?t = "qs compare_extras_len (take ?n ?es)"
  have s: "sort_a_extras qs es = ?t @ drop ?n ?es" by (simp add: sort_a_extras_def Let_def)
  have l: "length ?t = ?n" by (simp add: qsort_okD(3) [OF assms])
  have dn: "drop ?n ?es = drop USE_AUTO_EXTRAS ?es" by (cases "USE_AUTO_EXTRAS \<le> length ?es") auto
  have t: "take USE_AUTO_EXTRAS (sort_a_extras qs es) = ?t"
    unfolding s dn using l by (cases "USE_AUTO_EXTRAS \<le> length ?es") auto
  have d: "drop USE_AUTO_EXTRAS (sort_a_extras qs es) = drop USE_AUTO_EXTRAS ?es"
    unfolding s dn using l by (cases "USE_AUTO_EXTRAS \<le> length ?es") auto
  show "by_len (take USE_AUTO_EXTRAS (sort_a_extras qs es))"
    unfolding t by (rule qsort_okD(4) [OF assms])
  assume x: "x \<in> set (take USE_AUTO_EXTRAS (sort_a_extras qs es))"
    and y: "y \<in> set (drop USE_AUTO_EXTRAS (sort_a_extras qs es))"
  have "x \<in> set (take ?n ?es)" using x unfolding t qsort_okD(2) [OF assms] .
  moreover have "y \<in> set (drop ?n ?es)" using y unfolding d dn .
  moreover have "sorted (map compare_auto_extras_use_d (take ?n ?es @ drop ?n ?es))"
    using qsort_okD(5) [OF assms, of compare_auto_extras_use_d es] by simp
  ultimately have "compare_auto_extras_use_d x \<le> compare_auto_extras_use_d y"
    unfolding map_append sorted_append set_map by blast
  then show "ex_hit_cnt y \<le> ex_hit_cnt x" by (simp add: compare_auto_extras_use_d_def)
qed

lemma auto_wf_sort:
  assumes "qsort_ok qs" and "length es \<le> MAX_AUTO_EXTRAS" and "\<forall>e \<in> set es. ex_len e \<le> MAX_AUTO_EXTRA"
    and "distinct (map (fold_case \<circ> ex_data) es)"
  shows "auto_wf (sort_a_extras qs es)"
proof -
  note m = sort_a_extras_mset [OF assms(1), of es]
  show ?thesis
    unfolding auto_wf_def
    using assms(2,3) distinct_map_mset [OF m, of "fold_case \<circ> ex_data"] assms(4) mset_eq_length [OF m] mset_eq_setD [OF m]
      sort_a_extras_top [OF assms(1), where es = es] by simp
qed

text \<open>The list before the final sort: what \<open>maybe_add_auto\<close> does with a token it accepts.\<close>

definition auto_insert :: "nat \<Rightarrow> buf \<Rightarrow> extra_data list \<Rightarrow> extra_data list" where
  "auto_insert r mem es = (case find_auto mem es of
      Some i \<Rightarrow> es[i := (es ! i)\<lparr>ex_hit_cnt := ex_hit_cnt (es ! i) + 1\<rparr>]
    | None \<Rightarrow> if length es < MAX_AUTO_EXTRAS then es @ [new_extra mem]
        else es[MAX_AUTO_EXTRAS div 2 + r := new_extra mem])"

definition auto_rejected :: "buf \<Rightarrow> extra_data list \<Rightarrow> bool" where
  "auto_rejected mem es \<longleftrightarrow> (mem \<noteq> [] \<and> (\<forall>b \<in> set (drop 1 mem). b = mem ! 0)) \<or> length mem > MAX_AUTO_EXTRA \<or>
     (length mem = 2 \<and> builtin_16 mem) \<or> (length mem = 4 \<and> builtin_32 mem) \<or> extras_match mem es"

lemma maybe_add_auto_eq:
  "maybe_add_auto qs r mem a = (if auto_rejected mem (extras a) then a
     else a\<lparr>auto_changed := True, a_extras := sort_a_extras qs (auto_insert r mem (a_extras a))\<rparr>)"
proof -
  have flat: "(if p then x else if q then x else if s then x else if t then x else y) =
      (if p \<or> q \<or> s \<or> t then x else y)" for p q s t and x y :: afl_state
    by simp
  have upd: "a_extras (a\<lparr>auto_changed := True\<rparr>) = a_extras a" by simp
  show ?thesis
    unfolding maybe_add_auto_def auto_rejected_def auto_insert_def Let_def flat upd disj_assoc ..
qed

lemma auto_insert_props:
  assumes "auto_wf es" and "length mem \<le> MAX_AUTO_EXTRA" and "r < (MAX_AUTO_EXTRAS + 1) div 2"
  shows "length (auto_insert r mem es) \<le> MAX_AUTO_EXTRAS" and "\<forall>e \<in> set (auto_insert r mem es). ex_len e \<le> MAX_AUTO_EXTRA"
    and "distinct (map (fold_case \<circ> ex_data) (auto_insert r mem es))"
    and "\<exists>e \<in> set (auto_insert r mem es). fold_case (ex_data e) = fold_case mem"
proof -
  have wf: "length es \<le> MAX_AUTO_EXTRAS" "\<forall>e \<in> set es. ex_len e \<le> MAX_AUTO_EXTRA" "distinct (map (fold_case \<circ> ex_data) es)"
    using assms(1) by (auto simp: auto_wf_def)
  have "length (auto_insert r mem es) \<le> MAX_AUTO_EXTRAS \<and> (\<forall>e \<in> set (auto_insert r mem es). ex_len e \<le> MAX_AUTO_EXTRA) \<and>
    distinct (map (fold_case \<circ> ex_data) (auto_insert r mem es)) \<and>
    (\<exists>e \<in> set (auto_insert r mem es). fold_case (ex_data e) = fold_case mem)"
  proof (cases "find_auto mem es")
    case (Some i)
    let ?e = "(es ! i)\<lparr>ex_hit_cnt := ex_hit_cnt (es ! i) + 1\<rparr>"
    have ins: "auto_insert r mem es = es[i := ?e]" by (simp add: auto_insert_def Some)
    have i: "i < length es" "fold_case (ex_data (es ! i)) = fold_case mem" using find_auto_Some [OF Some] by auto
    have "map (fold_case \<circ> ex_data) (es[i := ?e]) = map (fold_case \<circ> ex_data) es"
      using i(1) by (simp add: map_update) (metis (mono_tags, lifting) comp_apply list_update_id nth_map)
    moreover have "\<forall>e \<in> set (es[i := ?e]). ex_len e \<le> MAX_AUTO_EXTRA"
    proof
      fix e assume "e \<in> set (es[i := ?e])"
      then have "e \<in> insert ?e (set es)" using set_update_subset_insert by (rule subsetD [rotated])
      then show "ex_len e \<le> MAX_AUTO_EXTRA" using wf(2) i(1) by auto
    qed
    moreover have "?e \<in> set (es[i := ?e])" using i(1) by (simp add: set_update_memI)
    ultimately show ?thesis
      unfolding ins using wf i(2) by (intro conjI bexI [of _ ?e]) simp_all
  next
    case None
    have fresh: "\<forall>e \<in> set es. fold_case (ex_data e) \<noteq> fold_case mem" using None by (simp add: find_auto_None)
    show ?thesis
    proof (cases "length es < MAX_AUTO_EXTRAS")
      case True
      then show ?thesis using wf fresh assms(2) by (auto simp: auto_insert_def None)
    next
      case False
      let ?i = "MAX_AUTO_EXTRAS div 2 + r"
      have i: "?i < length es" using False assms(3) by (simp add: MAX_AUTO_EXTRAS_def USE_AUTO_EXTRAS_def)
      have ins: "auto_insert r mem es = es[?i := new_extra mem]" using False by (simp add: auto_insert_def None)
      have "distinct (map (fold_case \<circ> ex_data) (es[?i := new_extra mem]))"
      proof -
        have "fold_case mem \<notin> set (map (fold_case \<circ> ex_data) es)" using fresh by auto
        then show ?thesis using wf(3) by (simp add: map_update distinct_list_update)
      qed
      moreover have "\<forall>e \<in> set (es[?i := new_extra mem]). ex_len e \<le> MAX_AUTO_EXTRA"
      proof
        fix e assume "e \<in> set (es[?i := new_extra mem])"
        then have "e \<in> insert (new_extra mem) (set es)" using set_update_subset_insert by (rule subsetD [rotated])
        then show "ex_len e \<le> MAX_AUTO_EXTRA" using wf(2) assms(2) by auto
      qed
      moreover have "new_extra mem \<in> set (es[?i := new_extra mem])" using i by (rule set_update_memI)
      ultimately show ?thesis
        unfolding ins using wf(1) by (intro conjI bexI [of _ "new_extra mem"]) simp_all
    qed
  qed
  then show "length (auto_insert r mem es) \<le> MAX_AUTO_EXTRAS" "\<forall>e \<in> set (auto_insert r mem es). ex_len e \<le> MAX_AUTO_EXTRA"
    "distinct (map (fold_case \<circ> ex_data) (auto_insert r mem es))"
    "\<exists>e \<in> set (auto_insert r mem es). fold_case (ex_data e) = fold_case mem" by blast+
qed

lemma maybe_add_auto_keeps:
  assumes "qsort_ok qs" and "auto_wf (a_extras a)" and "r < (MAX_AUTO_EXTRAS + 1) div 2"
  shows "auto_wf (a_extras (maybe_add_auto qs r mem a))"
proof (cases "auto_rejected mem (extras a)")
  case True
  then show ?thesis using assms(2) by (simp add: maybe_add_auto_eq)
next
  case False
  then have "length mem \<le> MAX_AUTO_EXTRA" by (auto simp: auto_rejected_def)
  note p = auto_insert_props [OF assms(2) this assms(3)]
  show ?thesis using False auto_wf_sort [OF assms(1) p(1-3)] by (simp add: maybe_add_auto_eq)
qed

text \<open>C16. \<open>maybe_add_auto\<close> keeps the invariant of the automatic dictionary. A token it does not reject is
  in the dictionary afterwards, up to case; where it was there already, no token is lost and only its
  use count grows.\<close>

theorem maybe_add_auto_wf:
  assumes "qsort_ok qs" and "auto_wf (a_extras a)" and "r < (MAX_AUTO_EXTRAS + 1) div 2"
  shows "auto_wf (a_extras (maybe_add_auto qs r mem a)) \<and>
    (if auto_rejected mem (extras a) then maybe_add_auto qs r mem a = a
     else auto_changed (maybe_add_auto qs r mem a) \<and>
       (\<exists>e \<in> set (a_extras (maybe_add_auto qs r mem a)). fold_case (ex_data e) = fold_case mem) \<and>
       (length (a_extras a) < MAX_AUTO_EXTRAS \<longrightarrow>
          ex_data ` set (a_extras a) \<subseteq> ex_data ` set (a_extras (maybe_add_auto qs r mem a))))"
proof (cases "auto_rejected mem (extras a)")
  case True
  then show ?thesis using assms(2) by (simp add: maybe_add_auto_eq)
next
  case False
  then have "length mem \<le> MAX_AUTO_EXTRA" by (auto simp: auto_rejected_def)
  note p = auto_insert_props [OF assms(2) this assms(3)]
  have s: "set (sort_a_extras qs es) = set es" for es
    using sort_a_extras_mset [OF assms(1)] by (rule mset_eq_setD)
  have "ex_data ` set (a_extras a) \<subseteq> ex_data ` set (auto_insert r mem (a_extras a))" if "length (a_extras a) < MAX_AUTO_EXTRAS"
  proof (cases "find_auto mem (a_extras a)")
    case None
    then show ?thesis using that by (auto simp: auto_insert_def)
  next
    case (Some i)
    let ?es = "a_extras a"
    have i: "i < length ?es" using find_auto_Some [OF Some] by simp
    have "map ex_data (?es[i := (?es ! i)\<lparr>ex_hit_cnt := ex_hit_cnt (?es ! i) + 1\<rparr>]) = map ex_data ?es"
      using i by (simp add: map_update) (metis list_update_id nth_map)
    then have "ex_data ` set (?es[i := (?es ! i)\<lparr>ex_hit_cnt := ex_hit_cnt (?es ! i) + 1\<rparr>]) = ex_data ` set ?es"
      by (metis list.set_map)
    then show ?thesis by (simp add: auto_insert_def Some)
  qed
  then show ?thesis using False p(4) maybe_add_auto_keeps [OF assms, of mem] by (simp add: maybe_add_auto_eq s)
qed

lemma auto_wf_init: "auto_wf (a_extras (campaign_start n))"
  by (simp add: campaign_start_eq auto_wf_def)

theorem maybe_add_auto_wf_witness:
  "\<exists>e \<in> set (a_extras (maybe_add_auto sort_key 0 [1, 2, 3] (campaign_start 64))). fold_case (ex_data e) = [1, 2, 3]"
proof -
  have "\<not> auto_rejected [1, 2, 3] (extras (campaign_start 64))"
    by (simp add: auto_rejected_def campaign_start_eq extras_match_def MAX_AUTO_EXTRA_def)
  moreover have "fold_case [1, 2, 3] = [1, 2, 3]" by code_simp
  ultimately show ?thesis
    using maybe_add_auto_wf [OF qsort_ok_sort_key auto_wf_init, of 0 "[1, 2, 3]" 64]
    by (simp add: MAX_AUTO_EXTRAS_def USE_AUTO_EXTRAS_def)
qed

end
