(* ===== verification/Detstage.thy ===== *)
theory Detstage
  imports Extras Queue Rng
begin

unbundle bit_operations_syntax

text \<open>
  The deterministic stages of \<open>fuzz_one_original\<close> (\<open>src/afl-fuzz-one.c\<close>): walking bit and byte
  flips with the collection of dictionary tokens, arithmetics, interesting values, and the overwriting
  and inserting of dictionary tokens. Every stage edits \<open>out_buf\<close> in place, submits it, and undoes
  the edit.

  The state is a record of the buffers and counters of the function, the fuzzer state, and a value
  \<open>d_env\<close> for the world outside (target, clock, random numbers). What the stages call is a record
  \<open>host\<close>: \<open>common_fuzz_stuff\<close> (its result is whether to abandon the entry), \<open>get_cur_time\<close>,
  \<open>rand_below\<close>, XXH3 and \<open>qsort\<close>. A \<open>goto\<close> out of the stages is an \<open>Inl\<close> value.
  \<open>stage_name\<close>, \<open>stage_short\<close>, \<open>stage_cur_byte\<close>, \<open>stage_cur_val\<close> and
  \<open>stage_val_type\<close> only label the status screen and the names of saved files and are left out; the
  dictionaries are read once per inner loop, since \<open>common_fuzz_stuff\<close> does not change them. The
  statistics \<open>blocks_eff_select\<close> and \<open>blocks_eff_total\<close> are left out.
\<close>

section \<open>State and host\<close>

datatype stage =
    STAGE_FLIP1 | STAGE_FLIP2 | STAGE_FLIP4 | STAGE_FLIP8 | STAGE_FLIP16 | STAGE_FLIP32
  | STAGE_ARITH8 | STAGE_ARITH16 | STAGE_ARITH32 | STAGE_INTEREST8 | STAGE_INTEREST16 | STAGE_INTEREST32
  | STAGE_EXTRAS_UO | STAGE_EXTRAS_UI | STAGE_EXTRAS_AO | STAGE_EXTRAS_AI | STAGE_HAVOC | STAGE_SPLICE | STAGE_PYTHON
  | STAGE_CUSTOM_MUTATOR | STAGE_COLORIZATION | STAGE_ITS | STAGE_INF | STAGE_QUICK

datatype det_exit = ABANDON_ENTRY | CUSTOM_MUTATOR_STAGE | DET_FATAL fatal

record 'e det =
  d_out :: buf
  d_ex_tmp :: buf
  d_afl :: afl_state
  d_env :: 'e
  d_stage_cur :: u32
  d_stage_max :: u32
  d_hit_cnt :: u64
  d_stage_finds :: "stage \<Rightarrow> u64"
  d_stage_cycles :: "stage \<Rightarrow> u64"
  d_base_cksum :: u64
  d_prev_cksum :: u64
  d_collect :: buf
  d_a_len :: nat

record 'e host =
  h_fuzz :: "buf \<Rightarrow> afl_state \<times> 'e \<Rightarrow> bool \<times> afl_state \<times> 'e"
  get_cur_time :: "'e \<Rightarrow> u64 \<times> 'e"
  h_rand_below :: "nat \<Rightarrow> 'e \<Rightarrow> nat \<times> 'e"
  h_xxh3 :: "buf \<Rightarrow> u64"
  h_qsort :: qsort_fun

type_synonym 'e outcome = "det_exit \<times> 'e det + 'e det"

definition MAX_EFF_TIMEOUT :: u64 where "MAX_EFF_TIMEOUT = 600000"
definition MAX_DET_TIMEOUT :: u64 where "MAX_DET_TIMEOUT = 900000"

definition is_det_timeout :: "u64 \<Rightarrow> u64 \<Rightarrow> bool \<Rightarrow> bool" where
  "is_det_timeout now cur_ms is_flip \<longleftrightarrow>
     (if is_flip then now - cur_ms > MAX_EFF_TIMEOUT else now - cur_ms > MAX_DET_TIMEOUT)"

section \<open>What the stages share\<close>

text \<open>\<open>if (h_fuzz(afl, buf, len)) goto abandon_entry;\<close>\<close>

definition submit :: "'e host \<Rightarrow> buf \<Rightarrow> 'e det \<Rightarrow> 'e outcome" where
  "submit h mem d = (let (bail, a, e) = h_fuzz h mem (d_afl d, d_env d); d = d\<lparr>d_afl := a, d_env := e\<rparr>
     in if bail then Inl (ABANDON_ENTRY, d) else Inr d)"

text \<open>
  \<open>if (!bitmap_read(skip_eff_map, pos)) continue;
  if (is_det_timeout(before_det_time, 0)) goto custom_mutator_stage;\<close>
\<close>

definition at_pos :: "'e host \<Rightarrow> u64 \<Rightarrow> buf \<Rightarrow> nat \<Rightarrow> ('e det \<Rightarrow> 'e outcome) \<Rightarrow> 'e det \<Rightarrow> 'e outcome" where
  "at_pos h t0 eff pos body d =
    (if bitmap_read eff pos = 0 then Inr d
     else let (now, e) = get_cur_time h (d_env d); d = d\<lparr>d_env := e\<rparr>
       in if is_det_timeout now t0 False then Inl (CUSTOM_MUTATOR_STAGE, d) else body d)"

definition set_out :: "(buf \<Rightarrow> buf) \<Rightarrow> 'e det \<Rightarrow> 'e det" where
  "set_out f d = d\<lparr>d_out := f (d_out d)\<rparr>"

text \<open>The two branches every arithmetic and interesting-value step has: edit, submit and count it,
  or take one off \<open>stage_max\<close>.\<close>

definition attempt :: "'e host \<Rightarrow> bool \<Rightarrow> (buf \<Rightarrow> buf) \<Rightarrow> 'e det \<Rightarrow> 'e outcome" where
  "attempt h ok f d =
    (if ok then let d = set_out f d
       in bind_err (submit h (d_out d) d) (\<lambda>d. Inr (d\<lparr>d_stage_cur := d_stage_cur d + 1\<rparr>))
     else Inr (d\<lparr>d_stage_max := d_stage_max d - 1\<rparr>))"

definition begin_stage :: "u32 \<Rightarrow> 'e det \<Rightarrow> 'e det" where
  "begin_stage n d = d\<lparr>d_stage_cur := 0, d_stage_max := n\<rparr>"

definition hit_count :: "'e det \<Rightarrow> u64" where
  "hit_count d = of_nat (queued_items (d_afl d) + saved_crashes (d_afl d))"

definition end_stage :: "stage \<Rightarrow> 'e det \<Rightarrow> 'e det" where
  "end_stage st d =
    d\<lparr>d_stage_finds := (d_stage_finds d)(st := d_stage_finds d st + (hit_count d - d_hit_cnt d)),
      d_stage_cycles := (d_stage_cycles d)(st := d_stage_cycles d st + ucast (d_stage_max d)),
      d_hit_cnt := hit_count d\<rparr>"

definition FLIP_BIT :: "nat \<Rightarrow> buf \<Rightarrow> buf" where
  "FLIP_BIT b ar = ar[b div 8 := (ar ! (b div 8)) XOR drop_bit (b mod 8) 128]"

definition get16 :: "nat \<Rightarrow> buf \<Rightarrow> u16" where
  "get16 i ar = le_word (take 2 (drop i ar))"

definition put16 :: "nat \<Rightarrow> u16 \<Rightarrow> buf \<Rightarrow> buf" where
  "put16 i v ar = take i ar @ le_bytes 2 v @ drop (i + 2) ar"

definition get32 :: "nat \<Rightarrow> buf \<Rightarrow> u32" where
  "get32 i ar = le_word (take 4 (drop i ar))"

definition put32 :: "nat \<Rightarrow> u32 \<Rightarrow> buf \<Rightarrow> buf" where
  "put32 i v ar = take i ar @ le_bytes 4 v @ drop (i + 4) ar"

section \<open>Bit flips\<close>

definition cksum_of :: "'e host \<Rightarrow> 'e det \<Rightarrow> u64" where
  "cksum_of h d = hash64 (h_xxh3 h) (take (map_size (fsrv (d_afl d))) (trace (d_afl d))) HASH_CONST"

text \<open>\<open>maybe_add_auto\<close> draws a random number only to evict a token from a full list.\<close>

definition add_auto :: "'e host \<Rightarrow> 'e det \<Rightarrow> 'e det" where
  "add_auto h d =
    (if MIN_AUTO_EXTRA \<le> d_a_len d \<and> d_a_len d \<le> MAX_AUTO_EXTRA then
       let mem = take (d_a_len d) (d_collect d); a = d_afl d;
           (r, e) = (if auto_rejected mem (extras a) \<or> find_auto mem (a_extras a) \<noteq> None \<or> length (a_extras a) < MAX_AUTO_EXTRAS
              then (0, d_env d) else h_rand_below h ((MAX_AUTO_EXTRAS + 1) div 2) (d_env d))
       in d\<lparr>d_afl := maybe_add_auto (h_qsort h) r mem a, d_env := e\<rparr>
     else d)"

definition collect_byte :: "nat \<Rightarrow> 'e det \<Rightarrow> 'e det" where
  "collect_byte pos d =
    d\<lparr>d_collect := (if d_a_len d < MAX_AUTO_EXTRA then d_collect d @ [d_out d ! pos] else d_collect d),
      d_a_len := d_a_len d + 1\<rparr>"

text \<open>After the flip of the least significant bit of a byte: the collection of a token.\<close>

definition collect_token :: "'e host \<Rightarrow> u64 \<Rightarrow> nat \<Rightarrow> 'e det \<Rightarrow> 'e det" where
  "collect_token h base_cksum cur d =
    (if \<not> non_instrumented_mode (d_afl d) \<and> cur mod 8 = 7 then
       let cksum = cksum_of h d;
           d = (if cur + 1 = unat (d_stage_max d) \<and> cksum = d_prev_cksum d
              then add_auto h (collect_byte (cur div 8) d)
              else if cksum \<noteq> d_prev_cksum d
              then (add_auto h d)\<lparr>d_a_len := 0, d_collect := [], d_prev_cksum := cksum\<rparr>
              else d)
       in if cksum \<noteq> base_cksum then collect_byte (cur div 8) d else d
     else d)"

definition flip1_step :: "'e host \<Rightarrow> u64 \<Rightarrow> buf \<Rightarrow> u64 \<Rightarrow> nat \<Rightarrow> 'e det \<Rightarrow> 'e outcome" where
  "flip1_step h t0 eff base_cksum cur d =
    at_pos h t0 eff (cur div 8) (\<lambda>d.
      let d = set_out (FLIP_BIT cur) d
      in bind_err (submit h (d_out d) d) (\<lambda>d.
        Inr (collect_token h base_cksum cur (set_out (FLIP_BIT cur) d)))) (d\<lparr>d_stage_cur := of_nat cur\<rparr>)"

text \<open>The clean run first, for the checksum; then one bit after the other.\<close>

definition flip1 :: "'e host \<Rightarrow> u64 \<Rightarrow> buf \<Rightarrow> 'e det \<Rightarrow> 'e outcome" where
  "flip1 h t0 eff d =
    (let n = 8 * length (d_out d);
         d = (begin_stage (of_nat n) d)\<lparr>d_hit_cnt := hit_count d, d_collect := [], d_a_len := 0\<rparr>
     in bind_err (submit h (d_out d) d) (\<lambda>d.
          let base_cksum = cksum_of h d; d = d\<lparr>d_prev_cksum := base_cksum, d_base_cksum := base_cksum\<rparr>
          in bind_err (for_each (flip1_step h t0 eff base_cksum) [0..<n] d) (\<lambda>d. Inr (end_stage STAGE_FLIP1 d))))"

text \<open>Several adjacent bits: flip them all, submit, flip them back.\<close>

definition flip_bits :: "nat \<Rightarrow> nat \<Rightarrow> buf \<Rightarrow> buf" where
  "flip_bits k cur ar = fold FLIP_BIT [cur..<cur + k] ar"

definition flip_step :: "'e host \<Rightarrow> u64 \<Rightarrow> buf \<Rightarrow> nat \<Rightarrow> nat \<Rightarrow> 'e det \<Rightarrow> 'e outcome" where
  "flip_step h t0 eff k cur d =
    at_pos h t0 eff (cur div 8) (\<lambda>d.
      let d = set_out (flip_bits k cur) d
      in bind_err (submit h (d_out d) d) (\<lambda>d. Inr (set_out (flip_bits k cur) d))) (d\<lparr>d_stage_cur := of_nat cur\<rparr>)"

definition flip2 :: "'e host \<Rightarrow> u64 \<Rightarrow> buf \<Rightarrow> 'e det \<Rightarrow> 'e outcome" where
  "flip2 h t0 eff d =
    (let n = 8 * length (d_out d) - 1
     in bind_err (for_each (flip_step h t0 eff 2) [0..<n] (begin_stage (of_nat n) d)) (\<lambda>d. Inr (end_stage STAGE_FLIP2 d)))"

definition flip4 :: "'e host \<Rightarrow> u64 \<Rightarrow> buf \<Rightarrow> 'e det \<Rightarrow> 'e outcome" where
  "flip4 h t0 eff d =
    (let n = 8 * length (d_out d) - 3
     in bind_err (for_each (flip_step h t0 eff 4) [0..<n] (begin_stage (of_nat n) d)) (\<lambda>d. Inr (end_stage STAGE_FLIP4 d)))"

definition xor8 :: "nat \<Rightarrow> buf \<Rightarrow> buf" where
  "xor8 i ar = ar[i := (ar ! i) XOR 0xFF]"

definition flip8_step :: "'e host \<Rightarrow> u64 \<Rightarrow> buf \<Rightarrow> nat \<Rightarrow> 'e det \<Rightarrow> 'e outcome" where
  "flip8_step h t0 eff i d =
    at_pos h t0 eff i (\<lambda>d.
      let d = set_out (xor8 i) d
      in bind_err (submit h (d_out d) d) (\<lambda>d. Inr (set_out (xor8 i) d))) (d\<lparr>d_stage_cur := of_nat i\<rparr>)"

definition flip8 :: "'e host \<Rightarrow> u64 \<Rightarrow> buf \<Rightarrow> 'e det \<Rightarrow> 'e outcome" where
  "flip8 h t0 eff d =
    (let n = length (d_out d)
     in bind_err (for_each (flip8_step h t0 eff) [0..<n] ((begin_stage (of_nat n) d)\<lparr>d_prev_cksum := d_base_cksum d\<rparr>))
          (\<lambda>d. Inr (end_stage STAGE_FLIP8 d)))"

definition flip16_step :: "'e host \<Rightarrow> u64 \<Rightarrow> buf \<Rightarrow> nat \<Rightarrow> 'e det \<Rightarrow> 'e outcome" where
  "flip16_step h t0 eff i d =
    at_pos h t0 eff i (\<lambda>d.
      let d = set_out (\<lambda>ar. put16 i (get16 i ar XOR 0xFFFF) ar) d
      in bind_err (submit h (d_out d) d) (\<lambda>d.
        Inr (set_out (\<lambda>ar. put16 i (get16 i ar XOR 0xFFFF) ar) (d\<lparr>d_stage_cur := d_stage_cur d + 1\<rparr>)))) d"

definition flip16 :: "'e host \<Rightarrow> u64 \<Rightarrow> buf \<Rightarrow> 'e det \<Rightarrow> 'e outcome" where
  "flip16 h t0 eff d =
    (let n = length (d_out d) - 1
     in bind_err (for_each (flip16_step h t0 eff) [0..<n] (begin_stage (of_nat n) d)) (\<lambda>d. Inr (end_stage STAGE_FLIP16 d)))"

definition flip32_step :: "'e host \<Rightarrow> u64 \<Rightarrow> buf \<Rightarrow> nat \<Rightarrow> 'e det \<Rightarrow> 'e outcome" where
  "flip32_step h t0 eff i d =
    at_pos h t0 eff i (\<lambda>d.
      let d = set_out (\<lambda>ar. put32 i (get32 i ar XOR 0xFFFFFFFF) ar) d
      in bind_err (submit h (d_out d) d) (\<lambda>d.
        Inr (set_out (\<lambda>ar. put32 i (get32 i ar XOR 0xFFFFFFFF) ar) (d\<lparr>d_stage_cur := d_stage_cur d + 1\<rparr>)))) d"

definition flip32 :: "'e host \<Rightarrow> u64 \<Rightarrow> buf \<Rightarrow> 'e det \<Rightarrow> 'e outcome" where
  "flip32 h t0 eff d =
    (let n = length (d_out d) - 3
     in bind_err (for_each (flip32_step h t0 eff) [0..<n] (begin_stage (of_nat n) d)) (\<lambda>d. Inr (end_stage STAGE_FLIP32 d)))"

section \<open>Arithmetics\<close>

definition no_flip :: "u32 \<Rightarrow> bool" where
  "no_flip r \<longleftrightarrow> could_be_bitflip r = Some False"

text \<open>One value of the counter \<open>j\<close> at offset \<open>i\<close>.\<close>

definition arith8_try :: "'e host \<Rightarrow> nat \<Rightarrow> u8 \<Rightarrow> nat \<Rightarrow> 'e det \<Rightarrow> 'e outcome" where
  "arith8_try h i orig j d =
    bind_err (attempt h (no_flip (ucast (orig XOR (orig + of_nat j)))) (\<lambda>ar. ar[i := orig + of_nat j]) d) (\<lambda>d.
    bind_err (attempt h (no_flip (ucast (orig XOR (orig - of_nat j)))) (\<lambda>ar. ar[i := orig - of_nat j]) d) (\<lambda>d.
    Inr (set_out (\<lambda>ar. ar[i := orig]) d)))"

definition arith8_step :: "'e host \<Rightarrow> u64 \<Rightarrow> buf \<Rightarrow> nat \<Rightarrow> 'e det \<Rightarrow> 'e outcome" where
  "arith8_step h t0 eff i d =
    (let orig = d_out d ! i in at_pos h t0 eff i (for_each (arith8_try h i orig) [1..<ARITH_MAX + 1]) d)"

definition arith8 :: "'e host \<Rightarrow> u64 \<Rightarrow> buf \<Rightarrow> 'e det \<Rightarrow> 'e outcome" where
  "arith8 h t0 eff d =
    (let n = length (d_out d)
     in bind_err (for_each (arith8_step h t0 eff) [0..<n] (begin_stage (2 * of_nat n * of_nat ARITH_MAX) d))
          (\<lambda>d. Inr (end_stage STAGE_ARITH8 d)))"

definition arith16_try :: "'e host \<Rightarrow> nat \<Rightarrow> u16 \<Rightarrow> nat \<Rightarrow> 'e det \<Rightarrow> 'e outcome" where
  "arith16_try h i orig j d =
    (let r1 = orig XOR (orig + of_nat j); r2 = orig XOR (orig - of_nat j);
         r3 = orig XOR SWAP16 (SWAP16 orig + of_nat j); r4 = orig XOR SWAP16 (SWAP16 orig - of_nat j)
     in bind_err (attempt h (unat (orig AND 0xff) + j > 0xff \<and> no_flip (ucast r1)) (put16 i (orig + of_nat j)) d) (\<lambda>d.
        bind_err (attempt h (unat (orig AND 0xff) < j \<and> no_flip (ucast r2)) (put16 i (orig - of_nat j)) d) (\<lambda>d.
        bind_err (attempt h (unat (drop_bit 8 orig) + j > 0xff \<and> no_flip (ucast r3)) (put16 i (SWAP16 (SWAP16 orig + of_nat j))) d) (\<lambda>d.
        bind_err (attempt h (unat (drop_bit 8 orig) < j \<and> no_flip (ucast r4)) (put16 i (SWAP16 (SWAP16 orig - of_nat j))) d) (\<lambda>d.
        Inr (set_out (put16 i orig) d))))))"

definition arith16_step :: "'e host \<Rightarrow> u64 \<Rightarrow> buf \<Rightarrow> nat \<Rightarrow> 'e det \<Rightarrow> 'e outcome" where
  "arith16_step h t0 eff i d =
    (let orig = get16 i (d_out d) in at_pos h t0 eff i (for_each (arith16_try h i orig) [1..<ARITH_MAX + 1]) d)"

definition arith16 :: "'e host \<Rightarrow> u64 \<Rightarrow> buf \<Rightarrow> 'e det \<Rightarrow> 'e outcome" where
  "arith16 h t0 eff d =
    (let n = length (d_out d) - 1
     in bind_err (for_each (arith16_step h t0 eff) [0..<n] (begin_stage (4 * of_nat n * of_nat ARITH_MAX) d))
          (\<lambda>d. Inr (end_stage STAGE_ARITH16 d)))"

definition arith32_try :: "'e host \<Rightarrow> nat \<Rightarrow> u32 \<Rightarrow> nat \<Rightarrow> 'e det \<Rightarrow> 'e outcome" where
  "arith32_try h i orig j d =
    (let r1 = orig XOR (orig + of_nat j); r2 = orig XOR (orig - of_nat j);
         r3 = orig XOR SWAP32 (SWAP32 orig + of_nat j); r4 = orig XOR SWAP32 (SWAP32 orig - of_nat j)
     in bind_err (attempt h (unat (orig AND 0xffff) + j > 0xffff \<and> no_flip r1) (put32 i (orig + of_nat j)) d) (\<lambda>d.
        bind_err (attempt h (unat (orig AND 0xffff) < j \<and> no_flip r2) (put32 i (orig - of_nat j)) d) (\<lambda>d.
        bind_err (attempt h (unat (SWAP32 orig AND 0xffff) + j > 0xffff \<and> no_flip r3) (put32 i (SWAP32 (SWAP32 orig + of_nat j))) d) (\<lambda>d.
        bind_err (attempt h (unat (SWAP32 orig AND 0xffff) < j \<and> no_flip r4) (put32 i (SWAP32 (SWAP32 orig - of_nat j))) d) (\<lambda>d.
        Inr (set_out (put32 i orig) d))))))"

definition arith32_step :: "'e host \<Rightarrow> u64 \<Rightarrow> buf \<Rightarrow> nat \<Rightarrow> 'e det \<Rightarrow> 'e outcome" where
  "arith32_step h t0 eff i d =
    (let orig = get32 i (d_out d) in at_pos h t0 eff i (for_each (arith32_try h i orig) [1..<ARITH_MAX + 1]) d)"

definition arith32 :: "'e host \<Rightarrow> u64 \<Rightarrow> buf \<Rightarrow> 'e det \<Rightarrow> 'e outcome" where
  "arith32 h t0 eff d =
    (let n = length (d_out d) - 3
     in bind_err (for_each (arith32_step h t0 eff) [0..<n] (begin_stage (4 * of_nat n * of_nat ARITH_MAX) d))
          (\<lambda>d. Inr (end_stage STAGE_ARITH32 d)))"

section \<open>Interesting values\<close>

definition interest8_try :: "'e host \<Rightarrow> nat \<Rightarrow> u8 \<Rightarrow> int \<Rightarrow> 'e det \<Rightarrow> 'e outcome" where
  "interest8_try h i orig v d =
    (if \<not> no_flip (ucast (orig XOR word_of_int v)) \<or> could_be_arith (ucast orig) (ucast (word_of_int v :: u8)) 1
     then Inr (d\<lparr>d_stage_max := d_stage_max d - 1\<rparr>)
     else let d = set_out (\<lambda>ar. ar[i := word_of_int v]) d
       in bind_err (submit h (d_out d) d) (\<lambda>d.
            let d = set_out (\<lambda>ar. ar[i := orig]) d in Inr (d\<lparr>d_stage_cur := d_stage_cur d + 1\<rparr>)))"

definition interest8_step :: "'e host \<Rightarrow> u64 \<Rightarrow> buf \<Rightarrow> nat \<Rightarrow> 'e det \<Rightarrow> 'e outcome" where
  "interest8_step h t0 eff i d =
    (let orig = d_out d ! i in at_pos h t0 eff i (for_each (interest8_try h i orig) interesting_8) d)"

definition interest8 :: "'e host \<Rightarrow> u64 \<Rightarrow> buf \<Rightarrow> 'e det \<Rightarrow> 'e outcome" where
  "interest8 h t0 eff d =
    (let n = length (d_out d)
     in bind_err (for_each (interest8_step h t0 eff) [0..<n] (begin_stage (of_nat (n * length interesting_8)) d))
          (\<lambda>d. Inr (end_stage STAGE_INTEREST8 d)))"

definition interest16_try :: "'e host \<Rightarrow> nat \<Rightarrow> u16 \<Rightarrow> int \<Rightarrow> 'e det \<Rightarrow> 'e outcome" where
  "interest16_try h i orig v d =
    (let le = (word_of_int v :: u16); be = SWAP16 le
     in bind_err (attempt h (no_flip (ucast (orig XOR le)) \<and> \<not> could_be_arith (ucast orig) (ucast le) 2 \<and>
          \<not> could_be_interest (ucast orig) (ucast le) 2 False) (put16 i le) d) (\<lambda>d.
        attempt h (le \<noteq> be \<and> no_flip (ucast (orig XOR be)) \<and> \<not> could_be_arith (ucast orig) (ucast be) 2 \<and>
          \<not> could_be_interest (ucast orig) (ucast be) 2 True) (put16 i be) d))"

definition interest16_step :: "'e host \<Rightarrow> u64 \<Rightarrow> buf \<Rightarrow> nat \<Rightarrow> 'e det \<Rightarrow> 'e outcome" where
  "interest16_step h t0 eff i d =
    (let orig = get16 i (d_out d)
     in at_pos h t0 eff i (\<lambda>d. bind_err (for_each (interest16_try h i orig) interesting_16 d) (\<lambda>d.
          Inr (set_out (put16 i orig) d))) d)"

definition interest16 :: "'e host \<Rightarrow> u64 \<Rightarrow> buf \<Rightarrow> 'e det \<Rightarrow> 'e outcome" where
  "interest16 h t0 eff d =
    (let n = length (d_out d) - 1
     in bind_err (for_each (interest16_step h t0 eff) [0..<n] (begin_stage (of_nat (2 * n * length interesting_16)) d))
          (\<lambda>d. Inr (end_stage STAGE_INTEREST16 d)))"

definition interest32_try :: "'e host \<Rightarrow> nat \<Rightarrow> u32 \<Rightarrow> int \<Rightarrow> 'e det \<Rightarrow> 'e outcome" where
  "interest32_try h i orig v d =
    (let le = (word_of_int v :: u32); be = SWAP32 le
     in bind_err (attempt h (no_flip (orig XOR le) \<and> \<not> could_be_arith orig le 4 \<and> \<not> could_be_interest orig le 4 False)
          (put32 i le) d) (\<lambda>d.
        attempt h (le \<noteq> be \<and> no_flip (orig XOR be) \<and> \<not> could_be_arith orig be 4 \<and> \<not> could_be_interest orig be 4 True)
          (put32 i be) d))"

definition interest32_step :: "'e host \<Rightarrow> u64 \<Rightarrow> buf \<Rightarrow> nat \<Rightarrow> 'e det \<Rightarrow> 'e outcome" where
  "interest32_step h t0 eff i d =
    (let orig = get32 i (d_out d)
     in at_pos h t0 eff i (\<lambda>d. bind_err (for_each (interest32_try h i orig) interesting_32 d) (\<lambda>d.
          Inr (set_out (put32 i orig) d))) d)"

definition interest32 :: "'e host \<Rightarrow> u64 \<Rightarrow> buf \<Rightarrow> 'e det \<Rightarrow> 'e outcome" where
  "interest32 h t0 eff d =
    (let n = length (d_out d) - 3
     in bind_err (for_each (interest32_step h t0 eff) [0..<n] (begin_stage (of_nat (2 * n * length interesting_32)) d))
          (\<lambda>d. Inr (end_stage STAGE_INTEREST32 d)))"

section \<open>Dictionary tokens\<close>

text \<open>\<open>memcpy(ar + i, t, |t|)\<close>\<close>

definition put_bytes :: "nat \<Rightarrow> buf \<Rightarrow> buf \<Rightarrow> buf" where
  "put_bytes i t ar = take i ar @ t @ drop (i + length t) ar"

text \<open>One token written over the input at \<open>i\<close>; the second component of the state is \<open>last_len\<close>.
  User tokens are skipped at random where there are more than \<open>max_det_extras\<close> of them.\<close>

definition overwrite :: "'e host \<Rightarrow> nat \<Rightarrow> buf \<Rightarrow> bool \<Rightarrow> 'e det \<times> nat \<Rightarrow> (det_exit \<times> 'e det) + ('e det \<times> nat)" where
  "overwrite h i t skip = (\<lambda>(d, last_len).
    if skip \<or> length t > length (d_out d) - i \<or> t = take (length t) (drop i (d_out d))
    then Inr (d\<lparr>d_stage_max := d_stage_max d - 1\<rparr>, last_len)
    else let d = set_out (put_bytes i t) d
      in bind_err (submit h (d_out d) d) (\<lambda>d. Inr (d\<lparr>d_stage_cur := d_stage_cur d + 1\<rparr>, length t)))"

definition user_over_try :: "'e host \<Rightarrow> nat \<Rightarrow> nat \<Rightarrow> buf \<Rightarrow> 'e det \<times> nat \<Rightarrow> (det_exit \<times> 'e det) + ('e det \<times> nat)" where
  "user_over_try h cnt i t = (\<lambda>(d, last_len).
    if cnt > max_det_extras (d_afl d)
    then let (r, e) = h_rand_below h cnt (d_env d)
      in overwrite h i t (r \<ge> max_det_extras (d_afl d)) (d\<lparr>d_env := e\<rparr>, last_len)
    else overwrite h i t False (d, last_len))"

text \<open>\<open>memcpy(out_buf + i, in_buf + i, last_len)\<close>\<close>

definition restore :: "buf \<Rightarrow> nat \<Rightarrow> 'e det \<times> nat \<Rightarrow> 'e outcome" where
  "restore in_buf i = (\<lambda>(d, last_len). Inr (set_out (put_bytes i (take last_len (drop i in_buf))) d))"

definition user_over_step :: "'e host \<Rightarrow> u64 \<Rightarrow> buf \<Rightarrow> buf \<Rightarrow> nat \<Rightarrow> 'e det \<Rightarrow> 'e outcome" where
  "user_over_step h t0 eff in_buf i =
    at_pos h t0 eff i (\<lambda>d. let ts = map ex_data (extras (d_afl d))
      in bind_err (for_each (user_over_try h (length ts) i) ts (d, 0)) (restore in_buf i))"

definition user_over :: "'e host \<Rightarrow> u64 \<Rightarrow> buf \<Rightarrow> buf \<Rightarrow> 'e det \<Rightarrow> 'e outcome" where
  "user_over h t0 eff in_buf d =
    (let n = length (d_out d)
     in bind_err (for_each (user_over_step h t0 eff in_buf) [0..<n]
          (begin_stage (of_nat (length (extras (d_afl d)) * n)) d)) (\<lambda>d. Inr (end_stage STAGE_EXTRAS_UO d)))"

text \<open>
  One token inserted at \<open>i\<close>: \<open>ex_tmp\<close> holds the bytes before \<open>i\<close>, the token and the tail are
  copied behind them.
\<close>

definition insert_try :: "'e host \<Rightarrow> nat \<Rightarrow> buf \<Rightarrow> 'e det \<Rightarrow> 'e outcome" where
  "insert_try h i t d =
    (let len = length (d_out d) in
     if len + length t > MAX_FILE then Inr (d\<lparr>d_stage_max := d_stage_max d - 1\<rparr>)
     else let ex = put_bytes (i + length t) (drop i (d_out d)) (put_bytes i t (d_ex_tmp d))
       in bind_err (submit h (take (len + length t) ex) (d\<lparr>d_ex_tmp := ex\<rparr>)) (\<lambda>d.
            Inr (d\<lparr>d_stage_cur := d_stage_cur d + 1\<rparr>)))"

text \<open>
  \<open>ex_tmp[i] = out_buf[i]\<close>. In the last round, \<open>i = len\<close>, the code reads and writes one byte past
  the input, which nothing uses afterwards.
\<close>

definition copy_head :: "nat \<Rightarrow> 'e det \<Rightarrow> 'e det" where
  "copy_head i d = (if i < length (d_out d) then d\<lparr>d_ex_tmp := (d_ex_tmp d)[i := d_out d ! i]\<rparr> else d)"

definition insert_step :: "'e host \<Rightarrow> u64 \<Rightarrow> buf \<Rightarrow> ('e det \<Rightarrow> buf list) \<Rightarrow> nat \<Rightarrow> 'e det \<Rightarrow> 'e outcome" where
  "insert_step h t0 eff toks i d =
    at_pos h t0 eff (i mod length (d_out d)) (\<lambda>d.
      bind_err (for_each (insert_try h i) (toks d) d) (\<lambda>d. Inr (copy_head i d))) d"

definition user_insert :: "'e host \<Rightarrow> u64 \<Rightarrow> buf \<Rightarrow> 'e det \<Rightarrow> 'e outcome" where
  "user_insert h t0 eff d =
    (let n = length (d_out d); toks = (\<lambda>d. map ex_data (extras (d_afl d)))
     in bind_err (for_each (insert_step h t0 eff toks) [0..<n + 1]
          (begin_stage (of_nat (length (extras (d_afl d)) * (n + 1))) d)) (\<lambda>d. Inr (end_stage STAGE_EXTRAS_UI d)))"

definition auto_over_step :: "'e host \<Rightarrow> u64 \<Rightarrow> buf \<Rightarrow> buf \<Rightarrow> nat \<Rightarrow> 'e det \<Rightarrow> 'e outcome" where
  "auto_over_step h t0 eff in_buf i =
    at_pos h t0 eff i (\<lambda>d. let ts = map ex_data (take USE_AUTO_EXTRAS (a_extras (d_afl d)))
      in bind_err (for_each (\<lambda>t. overwrite h i t False) ts (d, 0)) (restore in_buf i))"

definition auto_over :: "'e host \<Rightarrow> u64 \<Rightarrow> buf \<Rightarrow> buf \<Rightarrow> 'e det \<Rightarrow> 'e outcome" where
  "auto_over h t0 eff in_buf d =
    (let n = length (d_out d)
     in bind_err (for_each (auto_over_step h t0 eff in_buf) [0..<n]
          (begin_stage (of_nat (min (length (a_extras (d_afl d))) USE_AUTO_EXTRAS * n)) d)) (\<lambda>d. Inr (end_stage STAGE_EXTRAS_AO d)))"

definition auto_insert_stage :: "'e host \<Rightarrow> u64 \<Rightarrow> buf \<Rightarrow> 'e det \<Rightarrow> 'e outcome" where
  "auto_insert_stage h t0 eff d =
    (let n = length (d_out d); toks = (\<lambda>d. map ex_data (a_extras (d_afl d)))
     in bind_err (for_each (insert_step h t0 eff toks) [0..<n + 1]
          (begin_stage (of_nat (length (a_extras (d_afl d)) * (n + 1))) d)) (\<lambda>d. Inr (end_stage STAGE_EXTRAS_AI d)))"

section \<open>The deterministic part of \<open>fuzz_one_original\<close>\<close>

definition run_if :: "bool \<Rightarrow> ('e det \<Rightarrow> 'e outcome) \<Rightarrow> 'e det \<Rightarrow> 'e outcome" where
  "run_if b f d = (if b then f d else Inr d)"

definition bitflip_stages :: "'e host \<Rightarrow> u64 \<Rightarrow> buf \<Rightarrow> 'e det \<Rightarrow> 'e outcome" where
  "bitflip_stages h t0 eff d =
    (let len = length (d_out d)
     in bind_err (flip1 h t0 eff d) (\<lambda>d. bind_err (flip2 h t0 eff d) (\<lambda>d. bind_err (flip4 h t0 eff d) (\<lambda>d.
        bind_err (flip8 h t0 eff d) (\<lambda>d. bind_err (run_if (len \<ge> 2) (flip16 h t0 eff) d) (\<lambda>d.
        run_if (len \<ge> 4) (flip32 h t0 eff) d))))))"

definition arith_stages :: "'e host \<Rightarrow> u64 \<Rightarrow> buf \<Rightarrow> 'e det \<Rightarrow> 'e outcome" where
  "arith_stages h t0 eff d =
    (let len = length (d_out d)
     in run_if (\<not> no_arith (d_afl d)) (\<lambda>d.
        bind_err (arith8 h t0 eff d) (\<lambda>d. bind_err (run_if (len \<ge> 2) (arith16 h t0 eff) d) (\<lambda>d.
        run_if (len \<ge> 4) (arith32 h t0 eff) d))) d)"

definition interest_stages :: "'e host \<Rightarrow> u64 \<Rightarrow> buf \<Rightarrow> 'e det \<Rightarrow> 'e outcome" where
  "interest_stages h t0 eff d =
    (let len = length (d_out d)
     in bind_err (interest8 h t0 eff d) (\<lambda>d.
        run_if (\<not> no_arith (d_afl d) \<and> len \<ge> 2) (\<lambda>d.
          bind_err (interest16 h t0 eff d) (\<lambda>d. run_if (len \<ge> 4) (interest32 h t0 eff) d)) d))"

definition extras_stages :: "'e host \<Rightarrow> u64 \<Rightarrow> buf \<Rightarrow> buf \<Rightarrow> 'e det \<Rightarrow> 'e outcome" where
  "extras_stages h t0 eff in_buf d =
    bind_err (run_if (extras (d_afl d) \<noteq> []) (\<lambda>d. bind_err (user_over h t0 eff in_buf d) (user_insert h t0 eff)) d) (\<lambda>d.
    run_if (a_extras (d_afl d) \<noteq> []) (\<lambda>d. bind_err (auto_over h t0 eff in_buf d) (auto_insert_stage h t0 eff)) d)"

text \<open>All of them for the queue entry \<open>q\<close>, whose input is \<open>in_buf\<close>; at the end the entry is marked.\<close>

definition det_stages :: "'e host \<Rightarrow> bool \<Rightarrow> nat \<Rightarrow> u64 \<Rightarrow> buf \<Rightarrow> buf \<Rightarrow> 'e det \<Rightarrow> 'e outcome" where
  "det_stages h create_ok q t0 eff in_buf d =
    bind_err (bitflip_stages h t0 eff d) (\<lambda>d.
    bind_err (arith_stages h t0 eff d) (\<lambda>d.
    bind_err (interest_stages h t0 eff d) (\<lambda>d.
    bind_err (extras_stages h t0 eff in_buf d) (\<lambda>d.
      if q_passed_det (entry (d_afl d) q) then Inr d
      else case mark_as_det_done create_ok (d_afl d) q of
          Inl f \<Rightarrow> Inl (DET_FATAL f, d)
        | Inr a \<Rightarrow> Inr (d\<lparr>d_afl := a\<rparr>)))))"

section \<open>Every stage restores the buffer\<close>

text \<open>What the stages rely on: \<open>common_fuzz_stuff\<close> leaves the dictionaries alone, \<open>qsort\<close> sorts,
  and a random number is below its bound.\<close>

definition host_ok :: "'e host \<Rightarrow> bool" where
  "host_ok h \<longleftrightarrow> qsort_ok (h_qsort h) \<and> (\<forall>n e. 0 < n \<longrightarrow> fst (h_rand_below h n e) < n) \<and>
     (\<forall>mem a e. let (_, a', _) = h_fuzz h mem (a, e) in extras a' = extras a \<and> a_extras a' = a_extras a)"

definition dicts_ok :: "'e det \<Rightarrow> bool" where
  "dicts_ok d \<longleftrightarrow> by_len (extras (d_afl d)) \<and> auto_wf (a_extras (d_afl d))"

text \<open>
  The buffer differs from \<open>x\<close> at most in the \<open>w\<close> bytes at \<open>i\<close>; \<open>clean\<close> is the case without
  a difference.
\<close>

definition window :: "buf \<Rightarrow> nat \<Rightarrow> nat \<Rightarrow> 'e det \<Rightarrow> bool" where
  "window x i w d \<longleftrightarrow> length (d_out d) = length x \<and> take i (d_out d) = take i x \<and> drop (i + w) (d_out d) = drop (i + w) x \<and> dicts_ok d"

definition clean :: "buf \<Rightarrow> 'e det \<Rightarrow> bool" where
  "clean x d \<longleftrightarrow> d_out d = x \<and> dicts_ok d"

text \<open>
  An outcome that satisfies \<open>R\<close> where the code goes on, and \<open>S\<close> where it jumps to the custom
  mutators; an abandoned entry has no further use for its buffer.
\<close>

definition ends :: "('e det \<Rightarrow> bool) \<Rightarrow> ('s \<Rightarrow> bool) \<Rightarrow> (det_exit \<times> 'e det) + 's \<Rightarrow> bool" where
  "ends S R m \<longleftrightarrow> (case m of Inr s \<Rightarrow> R s | Inl (x, d) \<Rightarrow> x = CUSTOM_MUTATOR_STAGE \<longrightarrow> S d)"

named_theorems ends_rules

lemma ends_Inr [simp]: "ends S R (Inr s) = R s"
  by (simp add: ends_def)

lemma ends_bind [ends_rules]:
  "ends S R m \<Longrightarrow> (\<And>s. R s \<Longrightarrow> ends S T (f s)) \<Longrightarrow> ends S T (bind_err m f)"
  by (cases m) (auto simp: ends_def split: prod.splits)

lemma ends_for_each:
  assumes "\<And>i s. i \<in> set is \<Longrightarrow> R s \<Longrightarrow> ends S R (f i s)" and "R s"
  shows "ends S R (for_each f is s)"
  using assms
proof (induction "is" arbitrary: s)
  case (Cons i "is")
  have "ends S R (bind_err (f i s) (for_each f is))"
    by (rule ends_bind [where R = R]) (use Cons in auto)
  then show ?case by simp
qed simp

lemma clean_window: "clean x d \<Longrightarrow> window x i w d"
  by (simp add: clean_def window_def)

lemma window_0: "window x i 0 d \<longleftrightarrow> clean x d"
proof
  assume w: "window x i 0 d"
  then have "d_out d = x"
    by (metis add.right_neutral append_take_drop_id window_def)
  with w show "clean x d" by (simp add: clean_def window_def)
qed (rule clean_window)

text \<open>The predicates only look at the buffer and the dictionaries.\<close>

lemma frame_simps [simp]:
  "window x i w (d\<lparr>d_stage_cur := c\<rparr>) = window x i w d" "window x i w (d\<lparr>d_stage_max := m\<rparr>) = window x i w d"
  "clean x (d\<lparr>d_stage_cur := c\<rparr>) = clean x d" "clean x (d\<lparr>d_stage_max := m\<rparr>) = clean x d"
  "clean x (d\<lparr>d_env := e\<rparr>) = clean x d" "window x i w (d\<lparr>d_env := e\<rparr>) = window x i w d"
  "clean x (d\<lparr>d_ex_tmp := b\<rparr>) = clean x d" "clean x (d\<lparr>d_prev_cksum := k\<rparr>) = clean x d"
  "clean x (d\<lparr>d_base_cksum := k\<rparr>) = clean x d" "clean x (d\<lparr>d_hit_cnt := hc\<rparr>) = clean x d"
  "clean x (d\<lparr>d_collect := b\<rparr>) = clean x d" "clean x (d\<lparr>d_a_len := n\<rparr>) = clean x d"
  "clean x (begin_stage mx d) = clean x d" "clean x (end_stage st d) = clean x d"
  by (simp_all add: window_def clean_def dicts_ok_def begin_stage_def end_stage_def)

lemma ends_submit_window:
  assumes "host_ok h" and "window x i w d"
  shows "ends S (window x i w) (submit h mem d)"
proof -
  obtain b a e where c: "h_fuzz h mem (d_afl d, d_env d) = (b, a, e)" by (cases "h_fuzz h mem (d_afl d, d_env d)")
  have "case h_fuzz h mem (d_afl d, d_env d) of (_, a', _) \<Rightarrow> extras a' = extras (d_afl d) \<and> a_extras a' = a_extras (d_afl d)"
    using assms(1) by (simp add: host_ok_def Let_def)
  then have "extras a = extras (d_afl d)" "a_extras a = a_extras (d_afl d)" by (simp_all add: c)
  with assms(2) show ?thesis
    by (simp add: submit_def c Let_def ends_def window_def dicts_ok_def)
qed

lemma ends_submit_clean: "host_ok h \<Longrightarrow> clean x d \<Longrightarrow> ends S (clean x) (submit h mem d)"
  using ends_submit_window [where i = 0 and w = 0] unfolding window_0 .

lemma ends_at_pos:
  assumes "clean x d" and "\<And>d. clean x d \<Longrightarrow> ends (clean x) (clean x) (body d)"
  shows "ends (clean x) (clean x) (at_pos h t0 eff pos body d)"
proof (cases "bitmap_read eff pos = 0")
  case True
  then show ?thesis using assms(1) by (simp add: at_pos_def)
next
  case False
  obtain n e where t: "get_cur_time h (d_env d) = (n, e)" by fastforce
  have c: "clean x (d\<lparr>d_env := e\<rparr>)" using assms(1) by simp
  show ?thesis
    using False assms(2) [OF c] c by (auto simp: at_pos_def t Let_def ends_def)
qed

text \<open>Edits inside a window, and the edit that closes it.\<close>

definition local_edit :: "nat \<Rightarrow> nat \<Rightarrow> (buf \<Rightarrow> buf) \<Rightarrow> bool" where
  "local_edit i w f \<longleftrightarrow> (\<forall>x. i + w \<le> length x \<longrightarrow>
     length (f x) = length x \<and> take i (f x) = take i x \<and> drop (i + w) (f x) = drop (i + w) x)"

lemma window_set_out:
  "local_edit i w f \<Longrightarrow> i + w \<le> length x \<Longrightarrow> window x i w d \<Longrightarrow> window x i w (set_out f d)"
  by (simp add: window_def set_out_def local_edit_def dicts_ok_def)

lemma ends_attempt:
  assumes "host_ok h" and "local_edit i w f" and "i + w \<le> length x" and "window x i w d"
  shows "ends S (window x i w) (attempt h ok f d)"
proof (cases ok)
  case True
  have "ends S (window x i w) (bind_err (submit h mem (set_out f d)) (\<lambda>d. Inr (d\<lparr>d_stage_cur := d_stage_cur d + 1\<rparr>)))" for mem
    by (rule ends_bind [OF ends_submit_window [OF assms(1) window_set_out [OF assms(2-4)]]]) simp
  with True show ?thesis by (simp add: attempt_def Let_def)
qed (use assms(4) in \<open>simp add: attempt_def\<close>)

lemma put_bytes_props:
  assumes "i + length t \<le> length ar"
  shows "length (put_bytes i t ar) = length ar" "take i (put_bytes i t ar) = take i ar"
    "drop (i + length t) (put_bytes i t ar) = drop (i + length t) ar"
    "take (length t) (drop i (put_bytes i t ar)) = t"
  using assms by (auto simp: put_bytes_def)

lemma put16_bytes: "put16 i v = put_bytes i (le_bytes 2 v)"
  by (simp add: fun_eq_iff put16_def put_bytes_def)

lemma put32_bytes: "put32 i v = put_bytes i (le_bytes 4 v)"
  by (simp add: fun_eq_iff put32_def put_bytes_def)

lemma update_bytes: "i < length ar \<Longrightarrow> ar[i := v] = put_bytes i [v] ar"
  by (simp add: put_bytes_def upd_conv_take_nth_drop)

lemma local_edit_put_bytes [simp]: "w = length t \<Longrightarrow> local_edit i w (put_bytes i t)"
  by (simp add: local_edit_def put_bytes_props)

lemma local_edit_put [simp]:
  "local_edit i 2 (put16 i v)" "local_edit i 4 (put32 i u)" "local_edit i 1 (\<lambda>ar. ar[i := c])"
  "local_edit i (Suc 0) (\<lambda>ar. ar[i := c])"
proof -
  show "local_edit i 2 (put16 i v)" "local_edit i 4 (put32 i u)"
    unfolding put16_bytes put32_bytes by simp_all
  show "local_edit i 1 (\<lambda>ar. ar[i := c])" "local_edit i (Suc 0) (\<lambda>ar. ar[i := c])" by (simp_all add: local_edit_def)
qed

text \<open>Writing back the original bytes closes the window.\<close>

lemma window_close:
  assumes "window x i w d" and "i + w \<le> length x" and "t = take w (drop i x)"
  shows "clean x (set_out (put_bytes i t) d)"
proof -
  have l: "length t = w" using assms(2,3) by simp
  have d: "length (d_out d) = length x" "take i (d_out d) = take i x" "drop (i + w) (d_out d) = drop (i + w) x"
    using assms(1) by (simp_all add: window_def)
  have "put_bytes i t (d_out d) = take i x @ take w (drop i x) @ drop (i + w) x"
    using d l assms(3) by (simp add: put_bytes_def)
  also have "\<dots> = x" by (metis append_take_drop_id drop_drop add.commute)
  finally show ?thesis using assms(1) by (simp add: clean_def window_def set_out_def dicts_ok_def)
qed

lemma get_put_bytes:
  "i + 2 \<le> length x \<Longrightarrow> le_bytes 2 (get16 i x) = take 2 (drop i x)"
  "i + 4 \<le> length x \<Longrightarrow> le_bytes 4 (get32 i x) = take 4 (drop i x)"
  by (simp_all add: get16_def get32_def)

lemma window_close_word:
  "window x i 2 d \<Longrightarrow> i + 2 \<le> length x \<Longrightarrow> clean x (set_out (put16 i (get16 i x)) d)"
  "window x i 4 d \<Longrightarrow> i + 4 \<le> length x \<Longrightarrow> clean x (set_out (put32 i (get32 i x)) d)"
  "window x i 1 d \<Longrightarrow> i < length x \<Longrightarrow> clean x (set_out (\<lambda>ar. ar[i := x ! i]) d)"
proof -
  show "window x i 2 d \<Longrightarrow> i + 2 \<le> length x \<Longrightarrow> clean x (set_out (put16 i (get16 i x)) d)"
    unfolding put16_bytes by (rule window_close) (simp_all add: get_put_bytes)
  show "window x i 4 d \<Longrightarrow> i + 4 \<le> length x \<Longrightarrow> clean x (set_out (put32 i (get32 i x)) d)"
    unfolding put32_bytes by (rule window_close) (simp_all add: get_put_bytes)
  assume w: "window x i 1 d" "i < length x"
  have "clean x (set_out (put_bytes i [x ! i]) d)"
    by (rule window_close [OF w(1)]) (use w(2) in \<open>simp_all add: take_Suc_conv_app_nth hd_drop_conv_nth take_Suc\<close>)
  moreover have "put_bytes i [x ! i] (d_out d) = (d_out d)[i := x ! i]"
    using w by (subst update_bytes) (simp_all add: window_def)
  ultimately show "clean x (set_out (\<lambda>ar. ar[i := x ! i]) d)" by (simp add: set_out_def)
qed

lemma clean_set_out: "clean x d \<Longrightarrow> clean (f x) (set_out f d)"
  by (simp add: clean_def set_out_def dicts_ok_def)

lemma ends_stage:
  assumes "\<And>i d. i \<in> set is \<Longrightarrow> clean x d \<Longrightarrow> ends (clean x) (clean x) (step i d)" and "clean x d"
  shows "ends (clean x) (clean x) (bind_err (for_each step is d) (\<lambda>d. Inr (end_stage st d)))"
  by (rule ends_bind [where R = "clean x"], rule ends_for_each) (use assms in simp_all)

text \<open>Edit, submit, undo.\<close>

lemma ends_toggle:
  assumes "host_ok h" and "clean x d" and "f (f x) = x" and "\<And>d. clean x d \<Longrightarrow> clean x (g d)"
  shows "ends (clean x) (clean x) (let d = set_out f d in bind_err (submit h (d_out d) d) (\<lambda>d. Inr (g (set_out f d))))"
  unfolding Let_def
proof (rule ends_bind [OF ends_submit_clean [OF assms(1) clean_set_out [OF assms(2)]]])
  fix d' :: "'a det" assume "clean (f x) d'"
  then have "clean x (set_out f d')" using clean_set_out [of "f x" d' f] assms(3) by simp
  then show "ends (clean x) (clean x) (Inr (g (set_out f d')))" using assms(4) by simp
qed

lemma xor_cancel: "(a XOR b) XOR b = (a :: 'a::len word)"
  by (metis xor.assoc xor_self_eq xor.right_neutral)

lemma FLIP_BIT_twice [simp]: "b div 8 < length x \<Longrightarrow> FLIP_BIT b (FLIP_BIT b x) = x"
  by (simp add: FLIP_BIT_def xor_cancel)

lemma length_FLIP_BIT [simp]: "length (FLIP_BIT b x) = length x"
  by (simp add: FLIP_BIT_def)

lemma FLIP_BIT_commute: "FLIP_BIT b (FLIP_BIT c x) = FLIP_BIT c (FLIP_BIT b x)"
proof (cases "b div 8 = c div 8")
  case True
  then show ?thesis
    by (cases "c div 8 < length x") (simp_all add: FLIP_BIT_def xor.assoc xor.commute xor.left_commute not_less list_update_beyond)
next
  case False
  then show ?thesis by (simp add: FLIP_BIT_def list_update_swap)
qed

lemma length_fold_FLIP: "length (fold FLIP_BIT bs x) = length x"
  by (induction bs arbitrary: x) simp_all

lemma fold_FLIP_move: "fold FLIP_BIT bs (FLIP_BIT b x) = FLIP_BIT b (fold FLIP_BIT bs x)"
proof (induction bs arbitrary: x)
  case (Cons c bs)
  show ?case unfolding fold_simps comp_apply FLIP_BIT_commute [of c b] by (rule Cons.IH)
qed simp

lemma fold_FLIP_twice:
  "\<forall>b \<in> set bs. b div 8 < length x \<Longrightarrow> fold FLIP_BIT bs (fold FLIP_BIT bs x) = x"
  by (induction bs arbitrary: x) (simp_all add: fold_FLIP_move length_fold_FLIP)

lemma flip_bits_twice: "cur + k \<le> 8 * length x \<Longrightarrow> flip_bits k cur (flip_bits k cur x) = x"
  unfolding flip_bits_def by (rule fold_FLIP_twice) auto

lemma xor8_twice: "i < length x \<Longrightarrow> xor8 i (xor8 i x) = x"
  by (simp add: xor8_def xor_cancel)

lemma get_put [simp]:
  "i + 2 \<le> length x \<Longrightarrow> get16 i (put16 i v x) = v" "i + 4 \<le> length x \<Longrightarrow> get32 i (put32 i u x) = u"
  "i + 2 \<le> length x \<Longrightarrow> put16 i v (put16 i w x) = put16 i v x" "i + 4 \<le> length x \<Longrightarrow> put32 i u (put32 i t x) = put32 i u x"
  "i + 2 \<le> length x \<Longrightarrow> put16 i (get16 i x) x = x" "i + 4 \<le> length x \<Longrightarrow> put32 i (get32 i x) x = x"
proof -
  have g: "i + n \<le> length x \<Longrightarrow> length t = n \<Longrightarrow> take n (drop i (put_bytes i t x)) = t" for n t
    using put_bytes_props(4) by metis
  have p: "i + n \<le> length x \<Longrightarrow> length t = n \<Longrightarrow> length s = n \<Longrightarrow> put_bytes i t (put_bytes i s x) = put_bytes i t x" for n t s
    using put_bytes_props(2,3) [of i s x] by (simp add: put_bytes_def [of i t])
  have r: "i + n \<le> length x \<Longrightarrow> put_bytes i (take n (drop i x)) x = x" for n
    unfolding put_bytes_def by simp (metis append_take_drop_id drop_drop add.commute)
  show "i + 2 \<le> length x \<Longrightarrow> get16 i (put16 i v x) = v" using g [of 2 "le_bytes 2 v"] by (simp add: get16_def put16_bytes)
  show "i + 4 \<le> length x \<Longrightarrow> get32 i (put32 i u x) = u" using g [of 4 "le_bytes 4 u"] by (simp add: get32_def put32_bytes)
  show "i + 2 \<le> length x \<Longrightarrow> put16 i v (put16 i w x) = put16 i v x" using p [of 2] by (simp add: put16_bytes)
  show "i + 4 \<le> length x \<Longrightarrow> put32 i u (put32 i t x) = put32 i u x" using p [of 4] by (simp add: put32_bytes)
  show "i + 2 \<le> length x \<Longrightarrow> put16 i (get16 i x) x = x" using r [of 2] by (simp add: put16_bytes get_put_bytes)
  show "i + 4 \<le> length x \<Longrightarrow> put32 i (get32 i x) x = x" using r [of 4] by (simp add: put32_bytes get_put_bytes)
qed

lemma word_toggle:
  "i + 2 \<le> length x \<Longrightarrow> put16 i (get16 i (put16 i (get16 i x XOR m) x) XOR m) (put16 i (get16 i x XOR m) x) = x"
  "i + 4 \<le> length x \<Longrightarrow> put32 i (get32 i (put32 i (get32 i x XOR n) x) XOR n) (put32 i (get32 i x XOR n) x) = x"
  by (simp_all add: xor_cancel)

text \<open>Collecting tokens keeps the automatic dictionary in order.\<close>

lemma extras_maybe_add_auto [simp]: "extras (maybe_add_auto qs r mem a) = extras a"
  by (simp add: maybe_add_auto_eq)

lemma clean_add_auto:
  assumes "host_ok h" and "clean x d"
  shows "clean x (add_auto h d)"
proof -
  let ?n = "(MAX_AUTO_EXTRAS + 1) div 2"
  have n: "0 < ?n" by (simp add: MAX_AUTO_EXTRAS_def USE_AUTO_EXTRAS_def)
  have q: "qsort_ok (h_qsort h)" and r: "fst (h_rand_below h ?n e) < ?n" for e
    using assms(1) n by (simp_all add: host_ok_def)
  have w: "auto_wf (a_extras (d_afl d))" using assms(2) by (simp add: clean_def dicts_ok_def)
  have m: "auto_wf (a_extras (maybe_add_auto (h_qsort h) k mem (d_afl d)))" if "k < ?n" for k mem
    using maybe_add_auto_keeps [OF q w that] .
  show ?thesis
  proof (cases "MIN_AUTO_EXTRA \<le> d_a_len d \<and> d_a_len d \<le> MAX_AUTO_EXTRA")
    case True
    let ?mem = "take (d_a_len d) (d_collect d)"
    let ?c = "auto_rejected ?mem (extras (d_afl d)) \<or> find_auto ?mem (a_extras (d_afl d)) \<noteq> None \<or>
        length (a_extras (d_afl d)) < MAX_AUTO_EXTRAS"
    obtain k e where ke: "(if ?c then (0, d_env d) else h_rand_below h ?n (d_env d)) = (k, e)" by (meson surj_pair)
    have "k < ?n"
    proof (cases ?c)
      case True
      then show ?thesis using ke n by auto
    next
      case False
      then show ?thesis using ke r [of "d_env d"] by (metis fst_conv)
    qed
    moreover have "add_auto h d = d\<lparr>d_afl := maybe_add_auto (h_qsort h) k ?mem (d_afl d), d_env := e\<rparr>"
      unfolding add_auto_def Let_def ke using True by simp
    ultimately show ?thesis using assms(2) m by (simp add: clean_def dicts_ok_def)
  qed (use assms(2) in \<open>auto simp: add_auto_def\<close>)
qed

lemma clean_collect_byte [simp]: "clean x (collect_byte p d) = clean x d"
  by (simp add: collect_byte_def clean_def dicts_ok_def)

lemma clean_collect_token:
  assumes "host_ok h" and "clean x d"
  shows "clean x (collect_token h b cur d)"
proof -
  have "clean x (add_auto h (collect_byte p d))" "clean x (add_auto h d)" for p
    using clean_add_auto [OF assms(1)] assms(2) by simp_all
  then show ?thesis using assms(2) by (simp add: collect_token_def Let_def)
qed

lemma ends_flip1:
  assumes "host_ok h" and "clean x d"
  shows "ends (clean x) (clean x) (flip1 h t0 eff d)"
proof -
  have out: "d_out d = x" using assms(2) by (simp add: clean_def)
  have st: "ends (clean x) (clean x) (flip1_step h t0 eff b cur d)" if "clean x d" "cur < 8 * length x" for b cur d
    unfolding flip1_step_def
    by (rule ends_at_pos, use that in simp, rule ends_toggle [OF assms(1)])
      (use that clean_collect_token [OF assms(1)] in auto)
  show ?thesis
    unfolding flip1_def Let_def
    by (rule ends_bind [OF ends_submit_clean [OF assms(1)]], use assms(2) in simp, rule ends_stage)
      (use st out in \<open>simp_all\<close>)
qed

lemma ends_flip_step:
  assumes "host_ok h" and "clean x d" and "cur + k \<le> 8 * length x"
  shows "ends (clean x) (clean x) (flip_step h t0 eff k cur d)"
  unfolding flip_step_def
  by (rule ends_at_pos, use assms(2) in simp, rule ends_toggle [OF assms(1), where g = "\<lambda>d. d"])
    (use assms flip_bits_twice in auto)

lemma ends_flips:
  assumes "host_ok h" and "clean x d"
  shows "ends (clean x) (clean x) (flip2 h t0 eff d)" "ends (clean x) (clean x) (flip4 h t0 eff d)"
    "ends (clean x) (clean x) (flip8 h t0 eff d)"
    "ends (clean x) (clean x) (flip16 h t0 eff d)" "ends (clean x) (clean x) (flip32 h t0 eff d)"
proof -
  have out: "d_out d = x" using assms(2) by (simp add: clean_def)
  show "ends (clean x) (clean x) (flip2 h t0 eff d)" "ends (clean x) (clean x) (flip4 h t0 eff d)"
    unfolding flip2_def flip4_def Let_def out
    by (rule ends_stage, rule ends_flip_step [OF assms(1)]; use assms(2) in simp)+
  show "ends (clean x) (clean x) (flip8 h t0 eff d)"
    unfolding flip8_def flip8_step_def Let_def out
    by (rule ends_stage, rule ends_at_pos, simp, rule ends_toggle [OF assms(1), where g = "\<lambda>d. d", unfolded Let_def])
      (use assms(2) xor8_twice in auto)
  have g: "clean x d \<Longrightarrow> clean x (d\<lparr>d_stage_cur := d_stage_cur d + 1\<rparr>)" for d :: "'a det" by simp
  have cur: "set_out f (d\<lparr>d_stage_cur := d_stage_cur d + 1\<rparr>) = (set_out f d)\<lparr>d_stage_cur := d_stage_cur (set_out f d) + 1\<rparr>" for f and d :: "'a det"
    by (simp add: set_out_def)
  show "ends (clean x) (clean x) (flip16 h t0 eff d)"
    unfolding flip16_def flip16_step_def Let_def out cur
    by (rule ends_stage, rule ends_at_pos, simp, rule ends_toggle [OF assms(1), unfolded Let_def, OF _ _ g])
      (use assms(2) word_toggle(1) in auto)
  show "ends (clean x) (clean x) (flip32 h t0 eff d)"
    unfolding flip32_def flip32_step_def Let_def out cur
    by (rule ends_stage, rule ends_at_pos, simp, rule ends_toggle [OF assms(1), unfolded Let_def, OF _ _ g])
      (use assms(2) word_toggle(2) in auto)
qed

text \<open>A position of an arithmetic or interesting-value stage: tries inside a window, closed at the end.\<close>

lemma ends_tries:
  assumes "clean x d" and "\<And>v d. window x i w d \<Longrightarrow> ends (clean x) (window x i w) (f v d)"
    and "\<And>d. window x i w d \<Longrightarrow> clean x (g d)"
  shows "ends (clean x) (clean x) (bind_err (for_each f vs d) (\<lambda>d. Inr (g d)))"
  by (rule ends_bind [where R = "window x i w"], rule ends_for_each)
    (use assms clean_window in auto)

lemma ends_tries_clean:
  assumes "clean x d" and "\<And>v d. clean x d \<Longrightarrow> ends (clean x) (clean x) (f v d)"
  shows "ends (clean x) (clean x) (for_each f vs d)"
  by (rule ends_for_each) (use assms in auto)

lemma ends_arith8_try:
  assumes "host_ok h" and "clean x d" and "i < length x"
  shows "ends (clean x) (clean x) (arith8_try h i (x ! i) j d)"
  unfolding arith8_try_def
  by (intro ends_bind [where R = "window x i 1"] ends_attempt [OF assms(1)])
    (use assms clean_window window_close_word(3) in auto)

lemma ends_arith16_try:
  assumes "host_ok h" and "clean x d" and "i + 2 \<le> length x"
  shows "ends (clean x) (clean x) (arith16_try h i (get16 i x) j d)"
  unfolding arith16_try_def Let_def
  by (intro ends_bind [where R = "window x i 2"] ends_attempt [OF assms(1)])
    (use assms clean_window window_close_word(1) in auto)

lemma ends_arith32_try:
  assumes "host_ok h" and "clean x d" and "i + 4 \<le> length x"
  shows "ends (clean x) (clean x) (arith32_try h i (get32 i x) j d)"
  unfolding arith32_try_def Let_def
  by (intro ends_bind [where R = "window x i 4"] ends_attempt [OF assms(1)])
    (use assms clean_window window_close_word(2) in auto)

lemma ends_arith:
  assumes "host_ok h" and "clean x d"
  shows "ends (clean x) (clean x) (arith8 h t0 eff d)" "ends (clean x) (clean x) (arith16 h t0 eff d)"
    "ends (clean x) (clean x) (arith32 h t0 eff d)"
proof -
  have out: "clean x d \<Longrightarrow> d_out d = x" for d :: "'a det" by (simp add: clean_def)
  show "ends (clean x) (clean x) (arith8 h t0 eff d)"
    unfolding arith8_def arith8_step_def Let_def
    by (rule ends_stage, rule ends_at_pos, assumption, rule ends_tries_clean)
      (use assms out ends_arith8_try [OF assms(1)] in auto)
  show "ends (clean x) (clean x) (arith16 h t0 eff d)"
    unfolding arith16_def arith16_step_def Let_def
    by (rule ends_stage, rule ends_at_pos, assumption, rule ends_tries_clean)
      (use assms out ends_arith16_try [OF assms(1)] in auto)
  show "ends (clean x) (clean x) (arith32 h t0 eff d)"
    unfolding arith32_def arith32_step_def Let_def
    by (rule ends_stage, rule ends_at_pos, assumption, rule ends_tries_clean)
      (use assms out ends_arith32_try [OF assms(1)] in auto)
qed

lemma ends_interest8_try:
  assumes "host_ok h" and "clean x d" and "i < length x"
  shows "ends (clean x) (clean x) (interest8_try h i (x ! i) v d)"
proof -
  have w: "window x i 1 (set_out (\<lambda>ar. ar[i := word_of_int v]) d)"
    by (rule window_set_out) (use assms clean_window in auto)
  have "ends (clean x) (clean x) (bind_err (submit h mem (set_out (\<lambda>ar. ar[i := word_of_int v]) d)) (\<lambda>d.
      let d = set_out (\<lambda>ar. ar[i := x ! i]) d in Inr (d\<lparr>d_stage_cur := d_stage_cur d + 1\<rparr>)))" for mem
    by (rule ends_bind [OF ends_submit_window [OF assms(1) w]]) (simp add: Let_def window_close_word(3) assms(3))
  then show ?thesis using assms(2) by (simp add: interest8_try_def Let_def)
qed

lemma ends_interest:
  assumes "host_ok h" and "clean x d"
  shows "ends (clean x) (clean x) (interest8 h t0 eff d)" "ends (clean x) (clean x) (interest16 h t0 eff d)"
    "ends (clean x) (clean x) (interest32 h t0 eff d)"
proof -
  have out: "clean x d \<Longrightarrow> d_out d = x" for d :: "'a det" by (simp add: clean_def)
  show "ends (clean x) (clean x) (interest8 h t0 eff d)"
    unfolding interest8_def interest8_step_def Let_def
    by (rule ends_stage, rule ends_at_pos, assumption, rule ends_tries_clean)
      (use assms out ends_interest8_try [OF assms(1)] in auto)
  have t16: "ends (clean x) (window x i 2) (interest16_try h i orig v d)" if "window x i 2 d" "i + 2 \<le> length x" for i orig v d
    unfolding interest16_try_def Let_def
    by (intro ends_bind [where R = "window x i 2"] ends_attempt [OF assms(1)]) (use that in auto)
  have t32: "ends (clean x) (window x i 4) (interest32_try h i orig v d)" if "window x i 4 d" "i + 4 \<le> length x" for i orig v d
    unfolding interest32_try_def Let_def
    by (intro ends_bind [where R = "window x i 4"] ends_attempt [OF assms(1)]) (use that in auto)
  have p16: "ends (clean x) (clean x) (bind_err (for_each (interest16_try h i (get16 i x)) vs d) (\<lambda>d. Inr (set_out (put16 i (get16 i x)) d)))"
    if "clean x d" "i + 2 \<le> length x" for i vs d
    by (rule ends_tries [where w = 2 and i = i]) (use that t16 window_close_word(1) in auto)
  show "ends (clean x) (clean x) (interest16 h t0 eff d)"
    unfolding interest16_def interest16_step_def Let_def
    by (rule ends_stage, rule ends_at_pos, assumption) (use assms out p16 in auto)
  have p32: "ends (clean x) (clean x) (bind_err (for_each (interest32_try h i (get32 i x)) vs d) (\<lambda>d. Inr (set_out (put32 i (get32 i x)) d)))"
    if "clean x d" "i + 4 \<le> length x" for i vs d
    by (rule ends_tries [where w = 4 and i = i]) (use that t32 window_close_word(2) in auto)
  show "ends (clean x) (clean x) (interest32 h t0 eff d)"
    unfolding interest32_def interest32_step_def Let_def
    by (rule ends_stage, rule ends_at_pos, assumption) (use assms out p32 in auto)
qed

text \<open>
  Tokens written over the input one after the other, from short to long: the last one that was written
  covers all of them, so that \<open>last_len\<close> bytes restore the buffer.
\<close>

lemma window_mono: "window x i v d \<Longrightarrow> v \<le> w \<Longrightarrow> window x i w d"
  unfolding window_def by (metis add_le_cancel_left drop_drop le_add_diff_inverse2)

lemma ends_overwrite:
  assumes "host_ok h" and "window x i l d" and "l \<le> length t" and "i + l \<le> length x"
  shows "ends (clean x) (\<lambda>(d, l'). window x i l' d \<and> (l' = l \<or> l' = length t) \<and> i + l' \<le> length x) (overwrite h i t sk (d, l))"
proof (cases "sk \<or> length t > length (d_out d) - i \<or> t = take (length t) (drop i (d_out d))")
  case True
  then show ?thesis using assms by (auto simp: overwrite_def)
next
  case False
  then have l: "i + length t \<le> length x" using assms(2,4) by (auto simp: window_def)
  have w: "window x i (length t) (set_out (put_bytes i t) d)"
    by (rule window_set_out) (use l window_mono [OF assms(2,3)] in auto)
  have "ends (clean x) (\<lambda>(d, l'). window x i l' d \<and> (l' = l \<or> l' = length t) \<and> i + l' \<le> length x)
     (bind_err (submit h mem (set_out (put_bytes i t) d)) (\<lambda>d. Inr (d\<lparr>d_stage_cur := d_stage_cur d + 1\<rparr>, length t)))" for mem
    by (rule ends_bind [OF ends_submit_window [OF assms(1) w]]) (use l in simp)
  with False show ?thesis by (auto simp: overwrite_def Let_def)
qed

lemma ends_user_over_try:
  assumes "host_ok h" and "window x i l d" and "l \<le> length t" and "i + l \<le> length x"
  shows "ends (clean x) (\<lambda>(d, l'). window x i l' d \<and> (l' = l \<or> l' = length t) \<and> i + l' \<le> length x) (user_over_try h n i t (d, l))"
proof -
  obtain r e where r: "h_rand_below h n (d_env d) = (r, e)" by fastforce
  have "window x i l (d\<lparr>d_env := e\<rparr>)" using assms(2) by simp
  then show ?thesis
    using ends_overwrite [OF assms(1) _ assms(3,4)] assms(2) by (simp add: user_over_try_def r)
qed

lemma ends_over_loop:
  assumes "\<And>t l d. t \<in> set ts \<Longrightarrow> window x i l d \<Longrightarrow> l \<le> length t \<Longrightarrow> i + l \<le> length x \<Longrightarrow>
      ends (clean x) (\<lambda>(d, l'). window x i l' d \<and> (l' = l \<or> l' = length t) \<and> i + l' \<le> length x) (f t (d, l))"
    and "sorted (map length ts)" and "\<forall>t \<in> set ts. l \<le> length t" and "window x i l d" and "i + l \<le> length x"
  shows "ends (clean x) (\<lambda>(d, l'). window x i l' d \<and> i + l' \<le> length x) (for_each f ts (d, l))"
  using assms
proof (induction ts arbitrary: d l)
  case (Cons t ts)
  have 1: "ends (clean x) (\<lambda>(d, l'). window x i l' d \<and> (l' = l \<or> l' = length t) \<and> i + l' \<le> length x) (f t (d, l))"
    by (rule Cons.prems(1)) (use Cons.prems in auto)
  have 2: "ends (clean x) (\<lambda>(d, l'). window x i l' d \<and> i + l' \<le> length x) (for_each f ts (d', l'))"
    if "window x i l' d'" "l' = l \<or> l' = length t" "i + l' \<le> length x" for d' l'
    by (rule Cons.IH) (use Cons.prems that in auto)
  show ?case
    by (simp, rule ends_bind [OF 1]) (use 2 in auto)
qed simp

lemma ends_restore:
  assumes "window x i l d" and "i + l \<le> length x"
  shows "ends (clean x) (clean x) (restore x i (d, l))"
  using window_close [OF assms(1,2)] by (simp add: restore_def)

lemma ends_user_over:
  assumes "host_ok h" and "clean x d"
  shows "ends (clean x) (clean x) (user_over h t0 eff x d)"
proof -
  have "ends (clean x) (clean x) (bind_err (for_each (user_over_try h n i) (map ex_data (extras (d_afl d))) (d, 0)) (restore x i))"
    if "clean x d" "i < length x" for d n i
  proof (rule ends_bind [OF ends_over_loop [where i = i and x = x]])
    show "sorted (map length (map ex_data (extras (d_afl d))))"
      using that by (simp add: clean_def dicts_ok_def comp_def)
  qed (use that ends_user_over_try [OF assms(1)] ends_restore clean_window in auto)
  moreover have "d_out d = x" using assms(2) by (simp add: clean_def)
  ultimately show ?thesis
    unfolding user_over_def user_over_step_def Let_def
    by (intro ends_stage ends_at_pos) (use assms in auto)
qed

lemma ends_auto_over:
  assumes "host_ok h" and "clean x d"
  shows "ends (clean x) (clean x) (auto_over h t0 eff x d)"
proof -
  have "ends (clean x) (clean x) (bind_err (for_each (\<lambda>t. overwrite h i t False) (map ex_data (take USE_AUTO_EXTRAS (a_extras (d_afl d)))) (d, 0)) (restore x i))"
    if "clean x d" "i < length x" for d i
  proof (rule ends_bind [OF ends_over_loop [where i = i and x = x]])
    show "sorted (map length (map ex_data (take USE_AUTO_EXTRAS (a_extras (d_afl d)))))"
      using that by (simp add: clean_def dicts_ok_def auto_wf_def comp_def)
  qed (use that ends_overwrite [OF assms(1)] ends_restore clean_window in auto)
  moreover have "d_out d = x" using assms(2) by (simp add: clean_def)
  ultimately show ?thesis
    unfolding auto_over_def auto_over_step_def Let_def
    by (intro ends_stage ends_at_pos) (use assms in auto)
qed

lemma clean_copy_head [simp]: "clean x (copy_head i d) = clean x d"
  by (simp add: copy_head_def)

lemma ends_insert_try:
  assumes "host_ok h" and "clean x d"
  shows "ends (clean x) (clean x) (insert_try h i t d)"
proof -
  have "ends (clean x) (clean x) (bind_err (submit h mem (d\<lparr>d_ex_tmp := ex\<rparr>)) (\<lambda>d. Inr (d\<lparr>d_stage_cur := d_stage_cur d + 1\<rparr>)))" for mem ex
    by (rule ends_bind [OF ends_submit_clean [OF assms(1)]]) (use assms(2) in simp_all)
  then show ?thesis using assms(2) by (simp add: insert_try_def Let_def)
qed

lemma ends_insert_step:
  assumes "host_ok h" and "clean x d"
  shows "ends (clean x) (clean x) (insert_step h t0 eff toks i d)"
  unfolding insert_step_def
  by (intro ends_at_pos ends_bind [where R = "clean x"] ends_tries_clean ends_insert_try [OF assms(1)])
    (use assms(2) in simp_all)

lemma ends_inserts:
  assumes "host_ok h" and "clean x d"
  shows "ends (clean x) (clean x) (user_insert h t0 eff d)" "ends (clean x) (clean x) (auto_insert_stage h t0 eff d)"
  unfolding user_insert_def auto_insert_stage_def Let_def
  by (intro ends_stage ends_insert_step [OF assms(1)]; use assms(2) in simp)+

lemma ends_run_if: "clean x d \<Longrightarrow> (clean x d \<Longrightarrow> ends (clean x) (clean x) (f d)) \<Longrightarrow> ends (clean x) (clean x) (run_if b f d)"
  by (simp add: run_if_def)

lemmas ends_stages = ends_flip1 ends_flips ends_arith ends_interest ends_user_over ends_auto_over ends_inserts

lemma ends_stage_groups:
  assumes "host_ok h" and "clean x d"
  shows "ends (clean x) (clean x) (bitflip_stages h t0 eff d)" "ends (clean x) (clean x) (arith_stages h t0 eff d)"
    "ends (clean x) (clean x) (interest_stages h t0 eff d)" "ends (clean x) (clean x) (extras_stages h t0 eff x d)"
proof -
  note st = ends_stages [OF assms(1)]
  show "ends (clean x) (clean x) (bitflip_stages h t0 eff d)"
    unfolding bitflip_stages_def Let_def
    by (intro ends_bind [where R = "clean x"] ends_run_if st assms(2))
  show "ends (clean x) (clean x) (arith_stages h t0 eff d)"
    unfolding arith_stages_def Let_def
    by (intro ends_bind [where R = "clean x"] ends_run_if st assms(2))
  show "ends (clean x) (clean x) (interest_stages h t0 eff d)"
    unfolding interest_stages_def Let_def
    by (intro ends_bind [where R = "clean x"] ends_run_if st assms(2))
  show "ends (clean x) (clean x) (extras_stages h t0 eff x d)"
    unfolding extras_stages_def
    by (intro ends_bind [where R = "clean x"] ends_run_if st assms(2))
qed

lemma dicts_upd_entry [simp]: "extras (upd_entry q f a) = extras a" "a_extras (upd_entry q f a) = a_extras a"
  by (simp_all add: upd_entry_def)

lemma ends_det_stages:
  assumes "host_ok h" and "clean x d"
  shows "ends (clean x) (clean x) (det_stages h ok q t0 eff x d)"
  unfolding det_stages_def
  by (intro ends_bind [where R = "clean x"] ends_stage_groups [OF assms(1)] assms(2))
    (auto simp: mark_as_det_done_def clean_def dicts_ok_def ends_def)

text \<open>C5. Whatever the target does, wherever the clock runs out and whichever bytes the effector map
  selects: when the deterministic stages are done, and also when they time out and the havoc stage
  takes over, \<open>out_buf\<close> holds the original input again. The dictionaries are then still sorted the way
  the restoring of overwritten tokens needs it.\<close>

theorem det_stages_restore:
  assumes "host_ok h" and "d_out d = in_buf" and "by_len (extras (d_afl d))" and "auto_wf (a_extras (d_afl d))"
    and "det_stages h create_ok q t0 eff in_buf d = Inr d' \<or>
         det_stages h create_ok q t0 eff in_buf d = Inl (CUSTOM_MUTATOR_STAGE, d')"
  shows "d_out d' = in_buf \<and> by_len (extras (d_afl d')) \<and> auto_wf (a_extras (d_afl d'))"
proof -
  have "clean in_buf d" using assms(2-4) by (simp add: clean_def dicts_ok_def)
  from ends_det_stages [OF assms(1) this, of create_ok q t0 eff] assms(5)
  have "clean in_buf d'" by (auto simp: ends_def)
  then show ?thesis by (simp add: clean_def dicts_ok_def)
qed

section \<open>Which inputs the stages submit\<close>

text \<open>
  A host that records the submitted inputs, never asks to abandon the entry and whose clock stands
  still.
\<close>

definition log_host :: "u64 \<Rightarrow> buf list host" where
  "log_host t0 = \<lparr>h_fuzz = (\<lambda>mem (a, e). (False, a, e @ [mem])), get_cur_time = (\<lambda>e. (t0, e)),
     h_rand_below = (\<lambda>n e. (0, e)), h_xxh3 = (\<lambda>_. 0), h_qsort = sort_key\<rparr>"

















lemma no_arith_maybe_add_auto [simp]: "no_arith (maybe_add_auto qs r mem a) = no_arith a"
  by (simp add: maybe_add_auto_eq)

lemma d_out_simps [simp]:
  "d_out (collect_byte p d) = d_out d" "d_env (collect_byte p d) = d_env d"
  "d_out (add_auto h d) = d_out d" "d_env (add_auto (log_host t0) d1) = d_env d1"
  "no_arith (d_afl (collect_byte p d)) = no_arith (d_afl d)" "no_arith (d_afl (add_auto h d)) = no_arith (d_afl d)"
  by (simp_all add: collect_byte_def add_auto_def log_host_def Let_def split: prod.split)







definition opt :: "bool \<Rightarrow> 'a \<Rightarrow> 'a list" where
  "opt b v = (if b then [v] else [])"

lemma map_opt [simp]: "map f (opt b v) = opt b (f v)"
  by (simp add: opt_def)

lemma set_opt [simp]: "u \<in> set (opt b v) \<longleftrightarrow> b \<and> u = v"
  by (auto simp: opt_def)











lemma put_if [simp]:
  "i + 2 \<le> length x \<Longrightarrow> put16 i v (if b then put16 i w x else y) = (if b then put16 i v x else put16 i v y)"
  "i + 4 \<le> length x \<Longrightarrow> put32 i u (if b then put32 i t x else y) = (if b then put32 i u x else put32 i u y)"
  by simp_all







section \<open>No byte value is lost to the redundancy filters\<close>

lemma ones_0 [simp]: "ones 0 s = 0"
  by (simp add: ones_def)













text \<open>The state in which the stages start.\<close>

definition det_start :: "buf \<Rightarrow> buf \<Rightarrow> afl_state \<Rightarrow> 'e \<Rightarrow> 'e det" where
  "det_start x ex a e = \<lparr>d_out = x, d_ex_tmp = ex, d_afl = a, d_env = e, d_stage_cur = 0, d_stage_max = 0, d_hit_cnt = 0,
     d_stage_finds = (\<lambda>_. 0), d_stage_cycles = (\<lambda>_. 0), d_base_cksum = 0, d_prev_cksum = 0, d_collect = [], d_a_len = 0\<rparr>"

lemma det_start_simps [simp]:
  "d_out (det_start x ex a e) = x" "d_env (det_start x ex a e) = e" "d_afl (det_start x ex a e) = a" "d_ex_tmp (det_start x ex a e) = ex"
  by (simp_all add: det_start_def)

lemma init_simps [simp]: "\<not> no_arith (campaign_start n)" "extras (campaign_start n) = []" "a_extras (campaign_start n) = []"
  by (simp_all add: campaign_start_eq)


section \<open>Values the filters do lose\<close>

section \<open>Inserting tokens\<close>

text \<open>A target that accepts every input, and a clock on which each reading is 500 seconds later.\<close>

definition slow_host :: "nat host" where
  "slow_host = \<lparr>h_fuzz = (\<lambda>mem s. (False, s)), get_cur_time = (\<lambda>e. (of_nat e * 500000, Suc e)),
     h_rand_below = (\<lambda>n e. (0, e)), h_xxh3 = (\<lambda>_. 0), h_qsort = sort_key\<rparr>"

lemma slow_host_ok: "host_ok slow_host"
  by (simp add: host_ok_def slow_host_def qsort_ok_sort_key)

lemma slow_run:
  "\<exists>d'. det_stages slow_host True 0 0 [1] [0x41] (det_start [0x41] [] (campaign_start 64) 0) = Inl (CUSTOM_MUTATOR_STAGE, d')"
proof -
  have "\<exists>d'. flip1 slow_host 0 [1] (det_start [0x41] [] (campaign_start 64) 0) = Inl (CUSTOM_MUTATOR_STAGE, d')"
    by (simp add: flip1_def flip1_step_def at_pos_def submit_def slow_host_def upt_rec Let_def begin_stage_def set_out_def
        det_start_def bitmap_read_def is_det_timeout_def MAX_DET_TIMEOUT_def collect_token_def)
  then show ?thesis by (auto simp: det_stages_def bitflip_stages_def Let_def)
qed
text \<open>The clock runs out after two bits were flipped; the input is back in the buffer.\<close>

theorem det_stages_restore_witness:
  "\<exists>d'. det_stages slow_host True 0 0 [1] [0x41] (det_start [0x41] [] (campaign_start 64) 0) = Inl (CUSTOM_MUTATOR_STAGE, d') \<and>
     d_out d' = [0x41]"
proof -
  obtain d' where d': "det_stages slow_host True 0 0 [1] [0x41] (det_start [0x41] [] (campaign_start 64) 0) = Inl (CUSTOM_MUTATOR_STAGE, d')"
    using slow_run by blast
  have "d_out d' = [0x41]"
    using det_stages_restore [OF slow_host_ok _ _ _ disjI2 [OF d']] by (simp add: auto_wf_def)
  then show ?thesis using d' by blast
qed

end
