(* ===== verification/Havoc.thy ===== *)
theory Havoc
  imports Randmonad Detstage
begin

unbundle bit_operations_syntax

text \<open>
  The random mutations: the switch of the havoc stage in \<open>fuzz_one_original\<close> (\<open>src/afl-fuzz-one.c\<close>)
  and \<open>choose_block_len\<close> with the tables of \<open>include/afl-mutations.h\<close>. A buffer is the list of its
  \<open>temp_len\<close> bytes; every access is checked against it, so that the absence of \<open>Out_of_bounds\<close> is
  memory safety. The scratch buffers are reallocated to the size needed; allocation does not fail.
  \<open>tc\<close> gives the contents of a queue entry (\<open>queue_testcase_get\<close>). There are no custom mutators.
\<close>

section \<open>The mutations and their tables\<close>

datatype mutation =
    MUT_FLIPBIT | MUT_INTERESTING8 | MUT_INTERESTING16 | MUT_INTERESTING16BE | MUT_INTERESTING32 | MUT_INTERESTING32BE
  | MUT_ARITH8_sub | MUT_ARITH8 | MUT_ARITH16_sub | MUT_ARITH16BE_sub | MUT_ARITH16 | MUT_ARITH16BE | MUT_ARITH32_sub | MUT_ARITH32BE_sub
  | MUT_ARITH32 | MUT_ARITH32BE | MUT_RAND8 | MUT_CLONE_COPY | MUT_CLONE_FIXED | MUT_OVERWRITE_COPY | MUT_OVERWRITE_FIXED
  | MUT_BYTEADD | MUT_BYTESUB | MUT_FLIP8 | MUT_SWITCH | MUT_DEL | MUT_SHUFFLE | MUT_DELONE | MUT_INSERTONE | MUT_ASCIINUM
  | MUT_INSERTASCIINUM | MUT_EXTRA_OVERWRITE | MUT_EXTRA_INSERT | MUT_AUTO_EXTRA_OVERWRITE | MUT_AUTO_EXTRA_INSERT
  | MUT_SPLICE_OVERWRITE | MUT_SPLICE_INSERT

text \<open>The tables repeat each mutation as often as its weight.\<close>

definition runs :: "(mutation \<times> nat) list \<Rightarrow> mutation list" where
  "runs ps = concat (map (\<lambda>(m, n). replicate n m) ps)"

definition text_array :: "mutation list" where
  "text_array = runs [
     (MUT_FLIPBIT, 8), (MUT_INTERESTING8, 4), (MUT_INTERESTING16, 2), (MUT_INTERESTING16BE, 2), (MUT_INTERESTING32, 2),
     (MUT_INTERESTING32BE, 2), (MUT_ARITH8_sub, 6), (MUT_ARITH8, 6), (MUT_ARITH16_sub, 5), (MUT_ARITH16BE_sub, 5), (MUT_ARITH16, 5),
     (MUT_ARITH16BE, 5), (MUT_ARITH32_sub, 5), (MUT_ARITH32BE_sub, 5), (MUT_ARITH32, 5), (MUT_ARITH32BE, 5), (MUT_RAND8, 8),
     (MUT_CLONE_COPY, 16), (MUT_CLONE_FIXED, 8), (MUT_OVERWRITE_COPY, 10), (MUT_OVERWRITE_FIXED, 5), (MUT_BYTEADD, 5),
     (MUT_BYTESUB, 5), (MUT_FLIP8, 4), (MUT_SWITCH, 7), (MUT_DEL, 10), (MUT_EXTRA_OVERWRITE, 7), (MUT_EXTRA_INSERT, 9),
     (MUT_AUTO_EXTRA_OVERWRITE, 4), (MUT_AUTO_EXTRA_INSERT, 5), (MUT_SPLICE_OVERWRITE, 12), (MUT_SPLICE_INSERT, 13)]"

definition binary_array :: "mutation list" where
  "binary_array = runs [
     (MUT_FLIPBIT, 11), (MUT_INTERESTING8, 9), (MUT_INTERESTING16, 6), (MUT_INTERESTING16BE, 6), (MUT_INTERESTING32, 6),
     (MUT_INTERESTING32BE, 6), (MUT_ARITH8_sub, 9), (MUT_ARITH8, 10), (MUT_ARITH16_sub, 6), (MUT_ARITH16BE_sub, 6), (MUT_ARITH16, 6),
     (MUT_ARITH16BE, 6), (MUT_ARITH32_sub, 6), (MUT_ARITH32BE_sub, 6), (MUT_ARITH32, 6), (MUT_ARITH32BE, 6), (MUT_RAND8, 9),
     (MUT_CLONE_COPY, 14), (MUT_CLONE_FIXED, 7), (MUT_OVERWRITE_COPY, 10), (MUT_OVERWRITE_FIXED, 5), (MUT_BYTEADD, 6),
     (MUT_BYTESUB, 6), (MUT_FLIP8, 4), (MUT_SWITCH, 6), (MUT_DEL, 9), (MUT_EXTRA_OVERWRITE, 10), (MUT_EXTRA_INSERT, 12),
     (MUT_AUTO_EXTRA_OVERWRITE, 9), (MUT_AUTO_EXTRA_INSERT, 11), (MUT_SPLICE_OVERWRITE, 13), (MUT_SPLICE_INSERT, 14)]"

definition mutation_strategy_exploration_text :: "mutation list" where
  "mutation_strategy_exploration_text = runs [
     (MUT_FLIPBIT, 6), (MUT_INTERESTING8, 5), (MUT_INTERESTING16, 5), (MUT_INTERESTING16BE, 5), (MUT_INTERESTING32, 5),
     (MUT_INTERESTING32BE, 5), (MUT_ARITH8_sub, 6), (MUT_ARITH8, 6), (MUT_ARITH16_sub, 6), (MUT_ARITH16BE_sub, 6), (MUT_ARITH16, 6),
     (MUT_ARITH16BE, 6), (MUT_ARITH32_sub, 6), (MUT_ARITH32BE_sub, 6), (MUT_ARITH32, 6), (MUT_ARITH32BE, 6), (MUT_RAND8, 6),
     (MUT_CLONE_COPY, 13), (MUT_CLONE_FIXED, 10), (MUT_OVERWRITE_COPY, 9), (MUT_OVERWRITE_FIXED, 8), (MUT_BYTEADD, 6),
     (MUT_BYTESUB, 6), (MUT_FLIP8, 8), (MUT_SWITCH, 8), (MUT_DEL, 7), (MUT_SHUFFLE, 8), (MUT_DELONE, 7), (MUT_INSERTONE, 6),
     (MUT_ASCIINUM, 8), (MUT_INSERTASCIINUM, 8), (MUT_EXTRA_OVERWRITE, 8), (MUT_EXTRA_INSERT, 8),
     (MUT_AUTO_EXTRA_OVERWRITE, 6), (MUT_AUTO_EXTRA_INSERT, 6), (MUT_SPLICE_OVERWRITE, 9), (MUT_SPLICE_INSERT, 10)]"

definition mutation_strategy_exploration_binary :: "mutation list" where
  "mutation_strategy_exploration_binary = runs [
     (MUT_FLIPBIT, 7), (MUT_INTERESTING8, 6), (MUT_INTERESTING16, 6), (MUT_INTERESTING16BE, 6), (MUT_INTERESTING32, 6),
     (MUT_INTERESTING32BE, 6), (MUT_ARITH8_sub, 7), (MUT_ARITH8, 7), (MUT_ARITH16_sub, 6), (MUT_ARITH16BE_sub, 6), (MUT_ARITH16, 6),
     (MUT_ARITH16BE, 6), (MUT_ARITH32_sub, 6), (MUT_ARITH32BE_sub, 6), (MUT_ARITH32, 7), (MUT_ARITH32BE, 6), (MUT_RAND8, 6),
     (MUT_CLONE_COPY, 14), (MUT_CLONE_FIXED, 9), (MUT_OVERWRITE_COPY, 9), (MUT_OVERWRITE_FIXED, 7), (MUT_BYTEADD, 7),
     (MUT_BYTESUB, 7), (MUT_FLIP8, 10), (MUT_SWITCH, 7), (MUT_DEL, 6), (MUT_SHUFFLE, 6), (MUT_DELONE, 6), (MUT_INSERTONE, 6),
     (MUT_ASCIINUM, 6), (MUT_INSERTASCIINUM, 6), (MUT_EXTRA_OVERWRITE, 7), (MUT_EXTRA_INSERT, 7),
     (MUT_AUTO_EXTRA_OVERWRITE, 6), (MUT_AUTO_EXTRA_INSERT, 6), (MUT_SPLICE_OVERWRITE, 8), (MUT_SPLICE_INSERT, 10)]"

definition mutation_strategy_exploitation_text :: "mutation list" where
  "mutation_strategy_exploitation_text = runs [
     (MUT_FLIPBIT, 7), (MUT_INTERESTING8, 7), (MUT_INTERESTING16, 7), (MUT_INTERESTING16BE, 7), (MUT_INTERESTING32, 8),
     (MUT_INTERESTING32BE, 8), (MUT_ARITH8_sub, 6), (MUT_ARITH8, 7), (MUT_ARITH16_sub, 6), (MUT_ARITH16BE_sub, 7), (MUT_ARITH16, 7),
     (MUT_ARITH16BE, 7), (MUT_ARITH32_sub, 6), (MUT_ARITH32BE_sub, 6), (MUT_ARITH32, 6), (MUT_ARITH32BE, 7), (MUT_RAND8, 7),
     (MUT_CLONE_COPY, 9), (MUT_CLONE_FIXED, 8), (MUT_OVERWRITE_COPY, 6), (MUT_OVERWRITE_FIXED, 6), (MUT_BYTEADD, 7),
     (MUT_BYTESUB, 6), (MUT_FLIP8, 9), (MUT_SWITCH, 7), (MUT_DEL, 6), (MUT_SHUFFLE, 7), (MUT_DELONE, 5), (MUT_INSERTONE, 6),
     (MUT_ASCIINUM, 6), (MUT_INSERTASCIINUM, 8), (MUT_EXTRA_OVERWRITE, 7), (MUT_EXTRA_INSERT, 7),
     (MUT_AUTO_EXTRA_OVERWRITE, 7), (MUT_AUTO_EXTRA_INSERT, 7), (MUT_SPLICE_OVERWRITE, 7), (MUT_SPLICE_INSERT, 9)]"

definition mutation_strategy_exploitation_binary :: "mutation list" where
  "mutation_strategy_exploitation_binary = runs [
     (MUT_FLIPBIT, 7), (MUT_INTERESTING8, 7), (MUT_INTERESTING16, 7), (MUT_INTERESTING16BE, 7), (MUT_INTERESTING32, 8),
     (MUT_INTERESTING32BE, 8), (MUT_ARITH8_sub, 6), (MUT_ARITH8, 7), (MUT_ARITH16_sub, 6), (MUT_ARITH16BE_sub, 7), (MUT_ARITH16, 7),
     (MUT_ARITH16BE, 7), (MUT_ARITH32_sub, 6), (MUT_ARITH32BE_sub, 7), (MUT_ARITH32, 7), (MUT_ARITH32BE, 7), (MUT_RAND8, 7),
     (MUT_CLONE_COPY, 9), (MUT_CLONE_FIXED, 8), (MUT_OVERWRITE_COPY, 6), (MUT_OVERWRITE_FIXED, 6), (MUT_BYTEADD, 7),
     (MUT_BYTESUB, 6), (MUT_FLIP8, 10), (MUT_SWITCH, 7), (MUT_DEL, 6), (MUT_SHUFFLE, 6), (MUT_DELONE, 5), (MUT_INSERTONE, 6),
     (MUT_ASCIINUM, 5), (MUT_INSERTASCIINUM, 7), (MUT_EXTRA_OVERWRITE, 7), (MUT_EXTRA_INSERT, 7),
     (MUT_AUTO_EXTRA_OVERWRITE, 7), (MUT_AUTO_EXTRA_INSERT, 7), (MUT_SPLICE_OVERWRITE, 7), (MUT_SPLICE_INSERT, 9)]"

section \<open>Access to the buffer\<close>

definition poke :: "nat \<Rightarrow> (u8 \<Rightarrow> u8) \<Rightarrow> buf \<Rightarrow> ('r, buf) rnd" where
  "poke i f x = (if i < length x then ret (x[i := f (x ! i)]) else stopped Out_of_bounds)"

definition poke16 :: "nat \<Rightarrow> (u16 \<Rightarrow> u16) \<Rightarrow> buf \<Rightarrow> ('r, buf) rnd" where
  "poke16 i f x = (if i + 2 \<le> length x then ret (put16 i (f (get16 i x)) x) else stopped Out_of_bounds)"

definition poke32 :: "nat \<Rightarrow> (u32 \<Rightarrow> u32) \<Rightarrow> buf \<Rightarrow> ('r, buf) rnd" where
  "poke32 i f x = (if i + 4 \<le> length x then ret (put32 i (f (get32 i x)) x) else stopped Out_of_bounds)"

definition peek :: "nat \<Rightarrow> buf \<Rightarrow> ('r, u8) rnd" where
  "peek i x = (if i < length x then ret (x ! i) else stopped Out_of_bounds)"

text \<open>\<open>memcpy\<close> out of the buffer and into it.\<close>

definition read_at :: "nat \<Rightarrow> nat \<Rightarrow> buf \<Rightarrow> ('r, buf) rnd" where
  "read_at i n x = (if i + n \<le> length x then ret (take n (drop i x)) else stopped Out_of_bounds)"

definition write_at :: "nat \<Rightarrow> buf \<Rightarrow> buf \<Rightarrow> ('r, buf) rnd" where
  "write_at i t x = (if i + length t \<le> length x then ret (put_bytes i t x) else stopped Out_of_bounds)"

text \<open>Head, inserted part and tail in a new buffer: the bytes from \<open>i\<close> to \<open>j\<close> give way to \<open>t\<close>.\<close>

definition rebuild :: "nat \<Rightarrow> nat \<Rightarrow> buf \<Rightarrow> buf \<Rightarrow> ('r, buf) rnd" where
  "rebuild i j t x = (if i \<le> j \<and> j \<le> length x then ret (take i x @ t @ drop j x) else stopped Out_of_bounds)"

section \<open>Mutations\<close>

definition HAVOC_BLK_SMALL :: nat where "HAVOC_BLK_SMALL = 32"
definition HAVOC_BLK_MEDIUM :: nat where "HAVOC_BLK_MEDIUM = 128"
definition HAVOC_BLK_LARGE :: nat where "HAVOC_BLK_LARGE = 1500"
definition HAVOC_BLK_XL :: nat where "HAVOC_BLK_XL = 32768"

definition block_between :: "'r rsrc \<Rightarrow> nat \<Rightarrow> nat \<Rightarrow> nat \<Rightarrow> ('r, nat) rnd" where
  "block_between rs limit min_value max_value =
    (let min_value = (if min_value \<ge> limit then 1 else min_value)
     in and_then (draw rs (min max_value limit + 1 - min_value)) (\<lambda>n. ret (min_value + n)))"

definition choose_block_len :: "'r rsrc \<Rightarrow> afl_state \<Rightarrow> nat \<Rightarrow> ('r, nat) rnd" where
  "choose_block_len rs a limit =
    (let rlim = (if run_over10m a then min (queue_cycle a) 3 else 1)
     in and_then (draw rs rlim) (\<lambda>c.
        if c = 0 then block_between rs limit 1 HAVOC_BLK_SMALL
        else if c = 1 then block_between rs limit HAVOC_BLK_SMALL HAVOC_BLK_MEDIUM
        else and_then (draw rs 10) (\<lambda>d.
          if d \<noteq> 0 then block_between rs limit HAVOC_BLK_MEDIUM HAVOC_BLK_LARGE
          else block_between rs limit HAVOC_BLK_LARGE HAVOC_BLK_XL)))"

definition mut_flipbit :: "'r rsrc \<Rightarrow> buf \<Rightarrow> ('r, buf) rnd" where
  "mut_flipbit rs x =
    and_then (draw rs 8) (\<lambda>bit. and_then (draw rs (length x)) (\<lambda>off. poke off (\<lambda>b. b XOR push_bit bit 1) x))"

definition mut_interesting8 :: "'r rsrc \<Rightarrow> buf \<Rightarrow> ('r, buf) rnd" where
  "mut_interesting8 rs x =
    and_then (draw rs (length interesting_8)) (\<lambda>item. and_then (draw rs (length x)) (\<lambda>off.
      poke off (\<lambda>_. word_of_int (interesting_8 ! item)) x))"

text \<open>\<open>be\<close> selects the big-endian variant.\<close>

definition mut_interesting16 :: "'r rsrc \<Rightarrow> bool \<Rightarrow> buf \<Rightarrow> ('r, buf) rnd" where
  "mut_interesting16 rs be x =
    (if length x < 2 then ret x
     else and_then (draw rs (length interesting_16)) (\<lambda>item. and_then (draw rs (length x - 1)) (\<lambda>off.
       let v = word_of_int (interesting_16 ! item) in poke16 off (\<lambda>_. if be then SWAP16 v else v) x)))"

definition mut_interesting32 :: "'r rsrc \<Rightarrow> bool \<Rightarrow> buf \<Rightarrow> ('r, buf) rnd" where
  "mut_interesting32 rs be x =
    (if length x < 4 then ret x
     else and_then (draw rs (length interesting_32)) (\<lambda>item. and_then (draw rs (length x - 3)) (\<lambda>off.
       let v = word_of_int (interesting_32 ! item) in poke32 off (\<lambda>_. if be then SWAP32 v else v) x)))"

text \<open>\<open>f v item\<close> is \<open>v + item\<close> or \<open>v - item\<close>.\<close>

definition mut_arith8 :: "'r rsrc \<Rightarrow> (u8 \<Rightarrow> u8 \<Rightarrow> u8) \<Rightarrow> buf \<Rightarrow> ('r, buf) rnd" where
  "mut_arith8 rs f x =
    and_then (draw rs ARITH_MAX) (\<lambda>item. and_then (draw rs (length x)) (\<lambda>off.
      poke off (\<lambda>b. f b (of_nat (1 + item))) x))"

definition mut_arith16 :: "'r rsrc \<Rightarrow> (u16 \<Rightarrow> u16 \<Rightarrow> u16) \<Rightarrow> buf \<Rightarrow> ('r, buf) rnd" where
  "mut_arith16 rs f x =
    (if length x < 2 then ret x
     else and_then (draw rs (length x - 1)) (\<lambda>pos. and_then (draw rs ARITH_MAX) (\<lambda>item.
       poke16 pos (\<lambda>v. f v (of_nat (1 + item))) x)))"

definition mut_arith16be :: "'r rsrc \<Rightarrow> (u16 \<Rightarrow> u16 \<Rightarrow> u16) \<Rightarrow> buf \<Rightarrow> ('r, buf) rnd" where
  "mut_arith16be rs f x =
    (if length x < 2 then ret x
     else and_then (draw rs (length x - 1)) (\<lambda>pos. and_then (draw rs ARITH_MAX) (\<lambda>num.
       poke16 pos (\<lambda>v. SWAP16 (f (SWAP16 v) (of_nat (1 + num)))) x)))"

definition mut_arith32 :: "'r rsrc \<Rightarrow> (u32 \<Rightarrow> u32 \<Rightarrow> u32) \<Rightarrow> buf \<Rightarrow> ('r, buf) rnd" where
  "mut_arith32 rs f x =
    (if length x < 4 then ret x
     else and_then (draw rs (length x - 3)) (\<lambda>pos. and_then (draw rs ARITH_MAX) (\<lambda>item.
       poke32 pos (\<lambda>v. f v (of_nat (1 + item))) x)))"

definition mut_arith32be :: "'r rsrc \<Rightarrow> (u32 \<Rightarrow> u32 \<Rightarrow> u32) \<Rightarrow> buf \<Rightarrow> ('r, buf) rnd" where
  "mut_arith32be rs f x =
    (if length x < 4 then ret x
     else and_then (draw rs (length x - 3)) (\<lambda>pos. and_then (draw rs ARITH_MAX) (\<lambda>num.
       poke32 pos (\<lambda>v. SWAP32 (f (SWAP32 v) (of_nat (1 + num)))) x)))"

definition mut_rand8 :: "'r rsrc \<Rightarrow> buf \<Rightarrow> ('r, buf) rnd" where
  "mut_rand8 rs x =
    and_then (draw rs (length x)) (\<lambda>pos. and_then (draw rs 255) (\<lambda>item. poke pos (\<lambda>b. b XOR of_nat (1 + item)) x))"

definition mut_clone_copy :: "'r rsrc \<Rightarrow> afl_state \<Rightarrow> nat \<Rightarrow> buf \<Rightarrow> ('r, buf) rnd" where
  "mut_clone_copy rs a max_len x =
    (if length x + HAVOC_BLK_XL < max_len then
       and_then (choose_block_len rs a (length x)) (\<lambda>clone_len.
       and_then (draw rs (length x - clone_len + 1)) (\<lambda>clone_from.
       and_then (draw rs (length x)) (\<lambda>clone_to.
       and_then (read_at clone_from clone_len x) (\<lambda>t. rebuild clone_to clone_to t x))))
     else if length x < 8 then ret x
     else stopped Retry)"

text \<open>A constant for a block at \<open>pos\<close>: a random byte, or the one in front of it.\<close>

definition fixed_byte :: "'r rsrc \<Rightarrow> nat \<Rightarrow> buf \<Rightarrow> ('r, u8) rnd" where
  "fixed_byte rs pos x =
    and_then (draw rs 2) (\<lambda>strat.
      if strat \<noteq> 0 then and_then (draw rs 256) (\<lambda>b. ret (of_nat b))
      else peek (if pos \<noteq> 0 then pos - 1 else 0) x)"

definition mut_clone_fixed :: "'r rsrc \<Rightarrow> afl_state \<Rightarrow> nat \<Rightarrow> buf \<Rightarrow> ('r, buf) rnd" where
  "mut_clone_fixed rs a max_len x =
    (if length x + HAVOC_BLK_XL < max_len then
       and_then (choose_block_len rs a HAVOC_BLK_XL) (\<lambda>clone_len.
       and_then (draw rs (length x)) (\<lambda>clone_to.
       and_then (fixed_byte rs clone_to x) (\<lambda>item. rebuild clone_to clone_to (replicate clone_len item) x)))
     else if length x < 8 then ret x
     else stopped Retry)"

definition mut_overwrite_copy :: "'r rsrc \<Rightarrow> afl_state \<Rightarrow> buf \<Rightarrow> ('r, buf) rnd" where
  "mut_overwrite_copy rs a x =
    (if length x < 2 then ret x
     else and_then (choose_block_len rs a (length x - 1)) (\<lambda>copy_len.
       and_then (redraw (and_then (draw rs (length x - copy_len + 1)) (\<lambda>copy_from.
            and_then (draw rs (length x - copy_len + 1)) (\<lambda>copy_to. ret (copy_from, copy_to)))) (\<lambda>(f, t). f = t))
         (\<lambda>(copy_from, copy_to). and_then (read_at copy_from copy_len x) (\<lambda>t. write_at copy_to t x))))"

definition mut_overwrite_fixed :: "'r rsrc \<Rightarrow> afl_state \<Rightarrow> buf \<Rightarrow> ('r, buf) rnd" where
  "mut_overwrite_fixed rs a x =
    (if length x < 2 then ret x
     else and_then (choose_block_len rs a (length x - 1)) (\<lambda>copy_len.
       and_then (draw rs (length x - copy_len + 1)) (\<lambda>copy_to.
       and_then (fixed_byte rs copy_to x) (\<lambda>item. write_at copy_to (replicate copy_len item) x))))"

definition mut_byte :: "'r rsrc \<Rightarrow> (u8 \<Rightarrow> u8) \<Rightarrow> buf \<Rightarrow> ('r, buf) rnd" where
  "mut_byte rs f x = and_then (draw rs (length x)) (\<lambda>off. poke off f x)"

definition mut_switch :: "'r rsrc \<Rightarrow> afl_state \<Rightarrow> buf \<Rightarrow> ('r, buf) rnd" where
  "mut_switch rs a x =
    (if length x < 4 then ret x
     else and_then (draw rs (length x)) (\<lambda>switch_from.
       and_then (redraw (draw rs (length x)) (\<lambda>switch_to. switch_from = switch_to)) (\<lambda>switch_to.
       let (switch_len, to_end) = (if switch_from < switch_to
             then (switch_to - switch_from, length x - switch_to) else (switch_from - switch_to, length x - switch_from))
       in and_then (choose_block_len rs a (min switch_len to_end)) (\<lambda>switch_len.
          and_then (read_at switch_from switch_len x) (\<lambda>backup.
          and_then (read_at switch_to switch_len x) (\<lambda>other.
          and_then (write_at switch_from other x) (\<lambda>x. write_at switch_to backup x)))))))"

definition mut_del :: "'r rsrc \<Rightarrow> afl_state \<Rightarrow> buf \<Rightarrow> ('r, buf) rnd" where
  "mut_del rs a x =
    (if length x < 2 then ret x
     else and_then (choose_block_len rs a (length x - 1)) (\<lambda>del_len.
       and_then (draw rs (length x - del_len + 1)) (\<lambda>del_from. rebuild del_from (del_from + del_len) [] x)))"

definition shuffle_step :: "'r rsrc \<Rightarrow> nat \<Rightarrow> nat \<Rightarrow> buf \<Rightarrow> ('r, buf) rnd" where
  "shuffle_step rs off i x =
    and_then (redraw (draw rs (i + 1)) (\<lambda>j. i = j)) (\<lambda>j.
    and_then (peek (off + i) x) (\<lambda>temp. and_then (peek (off + j) x) (\<lambda>b.
    and_then (poke (off + i) (\<lambda>_. b) x) (poke (off + j) (\<lambda>_. temp)))))"

definition mut_shuffle :: "'r rsrc \<Rightarrow> afl_state \<Rightarrow> buf \<Rightarrow> ('r, buf) rnd" where
  "mut_shuffle rs a x =
    (if length x < 4 then ret x
     else and_then (choose_block_len rs a (length x - 1)) (\<lambda>len.
       and_then (draw rs (length x - len + 1)) (\<lambda>off. each (shuffle_step rs off) (rev [1..<len]) x)))"

definition mut_delone :: "'r rsrc \<Rightarrow> buf \<Rightarrow> ('r, buf) rnd" where
  "mut_delone rs x =
    (if length x < 2 then ret x
     else and_then (draw rs (length x - 1 + 1)) (\<lambda>del_from. rebuild del_from (del_from + 1) [] x))"

definition mut_insertone :: "'r rsrc \<Rightarrow> buf \<Rightarrow> ('r, buf) rnd" where
  "mut_insertone rs x =
    (if length x < 2 then ret x
     else and_then (draw rs (length x)) (\<lambda>clone_to.
       and_then (fixed_byte rs clone_to x) (\<lambda>item. rebuild clone_to clone_to [item] x)))"

section \<open>Numbers in decimal\<close>

fun dec_nat :: "nat \<Rightarrow> buf" where
  "dec_nat n = (if n < 10 then [0x30 + of_nat n] else dec_nat (n div 10) @ [0x30 + of_nat (n mod 10)])"

declare dec_nat.simps [simp del]

definition dec :: "int \<Rightarrow> buf" where
  "dec v = (if v < 0 then 0x2D # dec_nat (nat (- v)) else dec_nat (nat v))"

definition s64_ok :: "int \<Rightarrow> bool" where
  "s64_ok v \<longleftrightarrow> - (2 ^ 63) \<le> v \<and> v < 2 ^ 63"

text \<open>A signed 64-bit result; its overflow is undefined in C.\<close>

definition s64 :: "int \<Rightarrow> ('r, int) rnd" where
  "s64 v = (if s64_ok v then ret v else stopped Overflow)"

text \<open>The first digit at or after \<open>off\<close>, then the first one before \<open>off\<close>.\<close>

definition find_number :: "nat \<Rightarrow> buf \<Rightarrow> nat option" where
  "find_number off x =
    (let p = off + length (takeWhile (\<lambda>c. \<not> isdigit c) (drop off x)) in
     if p \<noteq> length x then Some p
     else let cnt = length (takeWhile (\<lambda>c. \<not> isdigit c) (take off x)) in if cnt = off then None else Some cnt)"

definition number_end :: "nat \<Rightarrow> buf \<Rightarrow> nat" where
  "number_end off x = off + 1 + length (takeWhile isdigit (drop (off + 1) x))"

text \<open>\<open>val = (val * 10) + out_buf[i] - '0'\<close>\<close>

definition read_digit :: "u8 \<Rightarrow> int \<Rightarrow> ('r, int) rnd" where
  "read_digit c val = and_then (s64 (val * 10)) (\<lambda>v. and_then (s64 (v + uint c)) (\<lambda>v. s64 (v - 0x30)))"

definition read_number :: "nat \<Rightarrow> nat \<Rightarrow> buf \<Rightarrow> ('r, int) rnd" where
  "read_number off off2 x =
    and_then (each read_digit (take (off2 - (off + 1)) (drop (off + 1) x)) (uint (x ! off) - 0x30)) (\<lambda>val.
      ret (if off \<noteq> 0 \<and> x ! (off - 1) = 0x2D then - val else val))"

text \<open>\<open>val /= 2\<close> rounds towards zero.\<close>

definition halve :: "int \<Rightarrow> int" where
  "halve v = (if v < 0 then - ((- v) div 2) else v div 2)"

definition change_number :: "'r rsrc \<Rightarrow> nat \<Rightarrow> int \<Rightarrow> ('r, int) rnd" where
  "change_number rs strat val =
    (if strat = 0 then s64 (val + 1)
     else if strat = 1 then s64 (val - 1)
     else if strat = 2 then s64 (val * 2)
     else if strat = 3 then ret (halve val)
     else if strat = 4 then
       (if val \<noteq> 0 \<and> uint (word_of_int val :: u64) < 0x19999999
        then and_then (draw64 rs) (\<lambda>n. ret (sint (n mod (word_of_int val * 10))))
        else and_then (draw rs 256) (\<lambda>n. ret (int n)))
     else if strat = 5 then and_then (draw rs 256) (\<lambda>n. s64 (val + int n))
     else if strat = 6 then and_then (draw rs 256) (\<lambda>n. s64 (val - int n))
     else ret (NOT val))"

definition mut_asciinum :: "'r rsrc \<Rightarrow> buf \<Rightarrow> ('r, buf) rnd" where
  "mut_asciinum rs x =
    (if length x < 4 then ret x
     else and_then (draw rs (length x)) (\<lambda>off.
       case find_number off x of
         None \<Rightarrow> if length x < 8 then ret x else stopped Retry
       | Some off \<Rightarrow>
           let off2 = number_end off x in
           and_then (read_number off off2 x) (\<lambda>val.
           and_then (draw rs 8) (\<lambda>strat.
           and_then (change_number rs strat val) (\<lambda>val.
           let t = take 19 (dec val) in
           if off2 - off = length t then write_at off t x else rebuild off off2 t x)))))"

text \<open>\<open>memcpy(out_buf + pos, buf, len)\<close> from a stack buffer of which only the digits and the final
  zero are written.\<close>

definition mut_insertasciinum :: "'r rsrc \<Rightarrow> buf \<Rightarrow> ('r, buf) rnd" where
  "mut_insertasciinum rs x =
    and_then (draw rs 8) (\<lambda>n. and_then (draw rs (length x)) (\<lambda>pos.
      let len = 1 + n in
      if length x < pos + len then (if length x < 8 then ret x else stopped Retry)
      else and_then (draw64 rs) (\<lambda>val.
        let t = take 19 (dec_nat (unat val)) @ [0]
        in if length t < len then stopped Uninit else write_at pos (take len t) x)))"

section \<open>Dictionary tokens and splicing\<close>

definition mut_token_over :: "'r rsrc \<Rightarrow> buf list \<Rightarrow> buf \<Rightarrow> ('r, buf) rnd" where
  "mut_token_over rs ts x =
    (if ts = [] then stopped Retry
     else and_then (draw rs (length ts)) (\<lambda>use.
       let t = ts ! use in
       if length t > length x then stopped Retry
       else and_then (draw rs (length x - length t + 1)) (\<lambda>pos. write_at pos t x)))"

definition mut_token_insert :: "'r rsrc \<Rightarrow> (nat \<Rightarrow> bool) \<Rightarrow> buf list \<Rightarrow> buf \<Rightarrow> ('r, buf) rnd" where
  "mut_token_insert rs too_long ts x =
    (if ts = [] then stopped Retry
     else and_then (draw rs (length ts)) (\<lambda>use.
       let t = ts ! use in
       if too_long (length x + length t) then stopped Retry
       else and_then (draw rs (length x + 1)) (\<lambda>pos. rebuild pos pos t x)))"

definition pick_target :: "'r rsrc \<Rightarrow> afl_state \<Rightarrow> ('r, nat) rnd" where
  "pick_target rs a = redraw (draw rs (queued_items a)) (\<lambda>tid. tid = current_entry a \<or> q_len (queue_buf a ! tid) < 4)"

definition mut_splice_overwrite :: "'r rsrc \<Rightarrow> afl_state \<Rightarrow> (nat \<Rightarrow> buf) \<Rightarrow> buf \<Rightarrow> ('r, buf) rnd" where
  "mut_splice_overwrite rs a tc x =
    (if ready_for_splicing_count a \<le> 1 then stopped Retry
     else and_then (pick_target rs a) (\<lambda>tid.
       let new_len = q_len (queue_buf a ! tid) in
       and_then (choose_block_len rs a (new_len - 1)) (\<lambda>n.
       let copy_len = (if n > length x then length x else n) in
       and_then (draw rs (new_len - copy_len + 1)) (\<lambda>copy_from.
       and_then (draw rs (length x - copy_len + 1)) (\<lambda>copy_to.
       and_then (read_at copy_from copy_len (tc tid)) (\<lambda>t. write_at copy_to t x))))))"

definition mut_splice_insert :: "'r rsrc \<Rightarrow> afl_state \<Rightarrow> (nat \<Rightarrow> buf) \<Rightarrow> buf \<Rightarrow> ('r, buf) rnd" where
  "mut_splice_insert rs a tc x =
    (if ready_for_splicing_count a \<le> 1 then stopped Retry
     else if length x + HAVOC_BLK_XL \<ge> MAX_FILE then stopped Retry
     else and_then (pick_target rs a) (\<lambda>tid.
       let new_len = q_len (queue_buf a ! tid) in
       and_then (choose_block_len rs a new_len) (\<lambda>clone_len.
       and_then (draw rs (new_len - clone_len + 1)) (\<lambda>clone_from.
       and_then (draw rs (length x + 1)) (\<lambda>clone_to.
       and_then (read_at clone_from clone_len (tc tid)) (\<lambda>t. rebuild clone_to clone_to t x))))))"

section \<open>One step of the havoc stage\<close>

definition havoc_op :: "'r rsrc \<Rightarrow> afl_state \<Rightarrow> (nat \<Rightarrow> buf) \<Rightarrow> mutation \<Rightarrow> buf \<Rightarrow> ('r, buf) rnd" where
  "havoc_op rs a tc m x = (case m of
      MUT_FLIPBIT \<Rightarrow> mut_flipbit rs x
    | MUT_INTERESTING8 \<Rightarrow> mut_interesting8 rs x
    | MUT_INTERESTING16 \<Rightarrow> mut_interesting16 rs False x
    | MUT_INTERESTING16BE \<Rightarrow> mut_interesting16 rs True x
    | MUT_INTERESTING32 \<Rightarrow> mut_interesting32 rs False x
    | MUT_INTERESTING32BE \<Rightarrow> mut_interesting32 rs True x
    | MUT_ARITH8_sub \<Rightarrow> mut_arith8 rs (-) x
    | MUT_ARITH8 \<Rightarrow> mut_arith8 rs (+) x
    | MUT_ARITH16_sub \<Rightarrow> mut_arith16 rs (-) x
    | MUT_ARITH16BE_sub \<Rightarrow> mut_arith16be rs (-) x
    | MUT_ARITH16 \<Rightarrow> mut_arith16 rs (+) x
    | MUT_ARITH16BE \<Rightarrow> mut_arith16be rs (+) x
    | MUT_ARITH32_sub \<Rightarrow> mut_arith32 rs (-) x
    | MUT_ARITH32BE_sub \<Rightarrow> mut_arith32be rs (-) x
    | MUT_ARITH32 \<Rightarrow> mut_arith32 rs (+) x
    | MUT_ARITH32BE \<Rightarrow> mut_arith32be rs (+) x
    | MUT_RAND8 \<Rightarrow> mut_rand8 rs x
    | MUT_OVERWRITE_FIXED \<Rightarrow> mut_overwrite_fixed rs a x
    | MUT_BYTEADD \<Rightarrow> mut_byte rs (\<lambda>b. b + 1) x
    | MUT_BYTESUB \<Rightarrow> mut_byte rs (\<lambda>b. b - 1) x
    | MUT_FLIP8 \<Rightarrow> mut_byte rs (\<lambda>b. b XOR 0xff) x
    | MUT_SWITCH \<Rightarrow> mut_switch rs a x
    | MUT_DEL \<Rightarrow> mut_del rs a x
    | MUT_SHUFFLE \<Rightarrow> mut_shuffle rs a x
    | MUT_DELONE \<Rightarrow> mut_delone rs x
    | MUT_CLONE_COPY \<Rightarrow> mut_clone_copy rs a MAX_FILE x
    | MUT_CLONE_FIXED \<Rightarrow> mut_clone_fixed rs a MAX_FILE x
    | MUT_OVERWRITE_COPY \<Rightarrow> mut_overwrite_copy rs a x
    | MUT_INSERTONE \<Rightarrow> mut_insertone rs x
    | MUT_ASCIINUM \<Rightarrow> mut_asciinum rs x
    | MUT_INSERTASCIINUM \<Rightarrow> mut_insertasciinum rs x
    | MUT_EXTRA_OVERWRITE \<Rightarrow> mut_token_over rs (map ex_data (extras a)) x
    | MUT_EXTRA_INSERT \<Rightarrow> mut_token_insert rs (\<lambda>n. n \<ge> MAX_FILE) (map ex_data (extras a)) x
    | MUT_AUTO_EXTRA_OVERWRITE \<Rightarrow> mut_token_over rs (map ex_data (a_extras a)) x
    | MUT_AUTO_EXTRA_INSERT \<Rightarrow> mut_token_insert rs (\<lambda>n. n \<ge> MAX_FILE) (map ex_data (a_extras a)) x
    | MUT_SPLICE_OVERWRITE \<Rightarrow> mut_splice_overwrite rs a tc x
    | MUT_SPLICE_INSERT \<Rightarrow> mut_splice_insert rs a tc x)"

definition havoc_step :: "'r rsrc \<Rightarrow> afl_state \<Rightarrow> (nat \<Rightarrow> buf) \<Rightarrow> mutation list \<Rightarrow> buf \<Rightarrow> ('r, buf) rnd" where
  "havoc_step rs a tc arr x = retrying (and_then (draw rs (length arr)) (\<lambda>r. havoc_op rs a tc (arr ! r) x))"

text \<open>The table for the input and fuzzing mode.\<close>

definition mutation_array :: "afl_state \<Rightarrow> mutation list" where
  "mutation_array a =
    (if input_mode a = 2
     then if fuzz_mode a = 0 then mutation_strategy_exploration_binary else mutation_strategy_exploitation_binary
     else if fuzz_mode a = 0 then binary_array else text_array)"

text \<open>\<open>use_stacking\<close> mutations on top of each other.\<close>

definition havoc_stack :: "'r rsrc \<Rightarrow> afl_state \<Rightarrow> (nat \<Rightarrow> buf) \<Rightarrow> nat \<Rightarrow> buf \<Rightarrow> ('r, buf) rnd" where
  "havoc_stack rs a tc use_stacking x = each (\<lambda>_. havoc_step rs a tc (mutation_array a)) [0..<use_stacking] x"

section \<open>The primitives are safe in bounds\<close>

lemma length_put [simp]:
  "i + 2 \<le> length x \<Longrightarrow> length (put16 i v x) = length x" "i + 4 \<le> length x \<Longrightarrow> length (put32 i w x) = length x"
  by (auto simp: put16_bytes put32_bytes put_bytes_def)

lemma safe_poke [safe_rules]: "i < length x \<Longrightarrow> P (x[i := f (x ! i)]) \<Longrightarrow> safe A P (poke i f x)"
  by (simp add: poke_def safe_ret)

lemma safe_poke16 [safe_rules]: "i + 2 \<le> length x \<Longrightarrow> P (put16 i (f (get16 i x)) x) \<Longrightarrow> safe A P (poke16 i f x)"
  by (simp add: poke16_def safe_ret)

lemma safe_poke32 [safe_rules]: "i + 4 \<le> length x \<Longrightarrow> P (put32 i (f (get32 i x)) x) \<Longrightarrow> safe A P (poke32 i f x)"
  by (simp add: poke32_def safe_ret)

lemma safe_peek_then: "i < length x \<Longrightarrow> safe A P (f (x ! i)) \<Longrightarrow> safe A P (and_then (peek i x) f)"
  by (rule safe_and_then [of A "\<lambda>v. v = x ! i"]) (auto simp: peek_def safe_ret)

lemma safe_read_then: "i + n \<le> length x \<Longrightarrow> safe A P (f (take n (drop i x))) \<Longrightarrow> safe A P (and_then (read_at i n x) f)"
  by (rule safe_and_then [of A "\<lambda>v. v = take n (drop i x)"]) (auto simp: read_at_def safe_ret)

lemma safe_write [safe_rules]: "i + length t \<le> length x \<Longrightarrow> P (put_bytes i t x) \<Longrightarrow> safe A P (write_at i t x)"
  by (simp add: write_at_def safe_ret)

lemma safe_rebuild [safe_rules]:
  "i \<le> j \<Longrightarrow> j \<le> length x \<Longrightarrow> P (take i x @ t @ drop j x) \<Longrightarrow> safe A P (rebuild i j t x)"
  by (simp add: rebuild_def safe_ret)

lemma length_put_bytes [simp]: "i + length t \<le> length x \<Longrightarrow> length (put_bytes i t x) = length x"
  by (simp add: put_bytes_def)

context random_source
begin

lemma safe_block_between:
  assumes "No_return \<in> A" and "1 \<le> mn" and "mn \<le> mx"
  shows "safe A (\<lambda>n. 1 \<le> n \<and> n \<le> max 1 limit \<and> n \<le> mx) (block_between rs limit mn mx)"
  unfolding block_between_def Let_def
  by (rule safe_draw_then [OF assms(1)], rule safe_ret) (use assms in \<open>auto simp: max_def min_def split: if_splits\<close>)

lemma safe_choose_block_len:
  assumes "No_return \<in> A"
  shows "safe A (\<lambda>n. 1 \<le> n \<and> n \<le> max 1 limit \<and> n \<le> HAVOC_BLK_XL) (choose_block_len rs a limit)"
proof -
  have b: "safe A (\<lambda>n. 1 \<le> n \<and> n \<le> max 1 limit \<and> n \<le> HAVOC_BLK_XL) (block_between rs limit mn mx)"
    if "1 \<le> mn" "mn \<le> mx" "mx \<le> HAVOC_BLK_XL" for mn mx
    by (rule safe_mono [OF safe_block_between [OF assms that(1,2)]]) (use that(3) in auto)
  show ?thesis
    unfolding choose_block_len_def Let_def
    by (intro safe_draw_then [OF assms] safe_if b)
      (simp_all add: HAVOC_BLK_SMALL_def HAVOC_BLK_MEDIUM_def HAVOC_BLK_LARGE_def HAVOC_BLK_XL_def)
qed

text \<open>The length of a block as a bound for the rest of the computation.\<close>

lemma safe_block_then:
  assumes "No_return \<in> A" and "1 \<le> limit"
    and "\<And>n. 1 \<le> n \<Longrightarrow> n \<le> limit \<Longrightarrow> n \<le> HAVOC_BLK_XL \<Longrightarrow> safe A P (f n)"
  shows "safe A P (and_then (choose_block_len rs a limit) f)"
  by (rule safe_and_then [OF safe_choose_block_len [OF assms(1)]]) (use assms(2,3) in auto)

lemma safe_fixed_byte_then:
  assumes "No_return \<in> A" and "x \<noteq> []" and "pos \<le> length x" and "\<And>b. safe A P (f b)"
  shows "safe A P (and_then (fixed_byte rs pos x) f)"
  unfolding fixed_byte_def
  by (rule safe_and_then [of A "\<lambda>_. True"])
    (use assms in \<open>auto simp: peek_def intro!: safe_draw_then safe_ret\<close>)

lemma safe_redraw_then:
  assumes "No_return \<in> A" and "\<And>v. v < max 1 n \<Longrightarrow> \<not> bad v \<Longrightarrow> safe A P (f v)"
  shows "safe A P (and_then (redraw (draw rs n) bad) f)"
  by (rule safe_and_then [OF safe_redraw [OF safe_draw [where P = "\<lambda>v. v < max 1 n"]]]) (use assms in auto)

section \<open>Every mutation stays in bounds\<close>

lemma safe_same_length:
  assumes "No_return \<in> A" and "x \<noteq> []"
  shows "safe A (\<lambda>y. length y = length x) (mut_flipbit rs x)"
    and "safe A (\<lambda>y. length y = length x) (mut_interesting8 rs x)"
    and "safe A (\<lambda>y. length y = length x) (mut_interesting16 rs be x)"
    and "safe A (\<lambda>y. length y = length x) (mut_interesting32 rs be x)"
    and "safe A (\<lambda>y. length y = length x) (mut_arith8 rs f8 x)"
    and "safe A (\<lambda>y. length y = length x) (mut_arith16 rs f16 x)"
    and "safe A (\<lambda>y. length y = length x) (mut_arith16be rs f16 x)"
    and "safe A (\<lambda>y. length y = length x) (mut_arith32 rs f32 x)"
    and "safe A (\<lambda>y. length y = length x) (mut_arith32be rs f32 x)"
    and "safe A (\<lambda>y. length y = length x) (mut_rand8 rs x)"
    and "safe A (\<lambda>y. length y = length x) (mut_byte rs g x)"
    and "safe A (\<lambda>y. length y = length x) (mut_overwrite_fixed rs a x)"
proof -
  have l: "1 \<le> length x" using assms(2) by (simp add: Suc_le_eq)
  note r = safe_draw_then [OF assms(1)] safe_if safe_ret safe_poke safe_poke16 safe_poke32
  show "safe A (\<lambda>y. length y = length x) (mut_flipbit rs x)" "safe A (\<lambda>y. length y = length x) (mut_interesting8 rs x)"
    "safe A (\<lambda>y. length y = length x) (mut_interesting16 rs be x)" "safe A (\<lambda>y. length y = length x) (mut_interesting32 rs be x)"
    unfolding mut_flipbit_def mut_interesting8_def mut_interesting16_def mut_interesting32_def Let_def
    by (intro r; use l in force)+
  show "safe A (\<lambda>y. length y = length x) (mut_arith8 rs f8 x)" "safe A (\<lambda>y. length y = length x) (mut_arith16 rs f16 x)"
    "safe A (\<lambda>y. length y = length x) (mut_arith16be rs f16 x)"
    unfolding mut_arith8_def mut_arith16_def mut_arith16be_def by (intro r; use l in force)+
  show "safe A (\<lambda>y. length y = length x) (mut_arith32 rs f32 x)" "safe A (\<lambda>y. length y = length x) (mut_arith32be rs f32 x)"
    "safe A (\<lambda>y. length y = length x) (mut_rand8 rs x)" "safe A (\<lambda>y. length y = length x) (mut_byte rs g x)"
    unfolding mut_arith32_def mut_arith32be_def mut_rand8_def mut_byte_def by (intro r; use l in force)+
  show "safe A (\<lambda>y. length y = length x) (mut_overwrite_fixed rs a x)"
    unfolding mut_overwrite_fixed_def
    by (intro r safe_block_then [OF assms(1)] safe_fixed_byte_then [OF assms] safe_write) (use l in auto)
qed

lemma safe_overwrite_copy:
  assumes "No_return \<in> A"
  shows "safe A (\<lambda>y. length y = length x) (mut_overwrite_copy rs a x)"
proof -
  have "safe A (\<lambda>(f, t). f \<le> length x - n \<and> t \<le> length x - n)
      (and_then (draw rs (length x - n + 1)) (\<lambda>f. and_then (draw rs (length x - n + 1)) (\<lambda>t. ret (f, t))))" for n
    by (intro safe_draw_then [OF assms] safe_ret) auto
  note rd = safe_and_then [OF safe_redraw [OF this assms]]
  show ?thesis
    unfolding mut_overwrite_copy_def
    by (intro safe_if safe_ret safe_block_then [OF assms] rd)
      (auto intro!: safe_read_then safe_write)
qed

lemma safe_del:
  assumes "No_return \<in> A" and "x \<noteq> []"
  shows "safe A (\<lambda>y. y \<noteq> [] \<and> length y \<le> length x) (mut_del rs a x)"
    and "safe A (\<lambda>y. y \<noteq> [] \<and> length y \<le> length x) (mut_delone rs x)"
proof -
  have ne: "take i x @ drop (i + n) x \<noteq> []" if "2 \<le> length x" "n \<le> length x - 1" "i < max 1 (length x - n + 1)" for i n
  proof -
    have "length (take i x @ drop (i + n) x) = length x - n" using that by simp
    with that(1,2) show ?thesis by auto
  qed
  show "safe A (\<lambda>y. y \<noteq> [] \<and> length y \<le> length x) (mut_del rs a x)"
    unfolding mut_del_def
    by (intro safe_if safe_ret safe_block_then [OF assms(1)] safe_draw_then [OF assms(1)] safe_rebuild)
      (use assms(2) ne in auto)
  show "safe A (\<lambda>y. y \<noteq> [] \<and> length y \<le> length x) (mut_delone rs x)"
    unfolding mut_delone_def
    by (intro safe_if safe_ret safe_draw_then [OF assms(1)] safe_rebuild)
      (use assms(2) ne [of 1] in auto)
qed

end

section \<open>Shuffling and switching\<close>

text \<open>Outside the block from \<open>off\<close> to \<open>off + n\<close> nothing changes, inside the bytes are permuted.\<close>

definition permutes_block :: "nat \<Rightarrow> nat \<Rightarrow> buf \<Rightarrow> buf \<Rightarrow> bool" where
  "permutes_block off n x y \<longleftrightarrow> length y = length x \<and> mset y = mset x \<and> take off y = take off x \<and> drop (off + n) y = drop (off + n) x"

context random_source
begin

lemma safe_shuffle_step:
  assumes "No_return \<in> A" and "permutes_block off n x y" and "off + n \<le> length x" and "0 < i" and "i < n"
  shows "safe A (permutes_block off n x) (shuffle_step rs off i y)"
proof -
  have len: "length y = length x" using assms(2) by (simp add: permutes_block_def)
  have p: "permutes_block off n x (y[off + i := y ! (off + j), off + j := y ! (off + i)])" if "j \<le> i" for j
  proof -
    have "mset (y[off + i := y ! (off + j), off + j := y ! (off + i)]) = mset y"
      by (rule mset_swap) (use that assms(3,5) len in auto)
    then show ?thesis using assms(2,5) that by (simp add: permutes_block_def)
  qed
  show ?thesis
    unfolding shuffle_step_def
    by (intro safe_redraw_then [OF assms(1)] safe_peek_then,
        use assms(3,5) len in simp, use assms(3,5) len in simp,
        rule safe_and_then [of _ "\<lambda>z. z = y[off + i := y ! (off + v)]" for v], rule safe_poke)
      (use assms(3,5) len in \<open>auto intro!: safe_poke p\<close>)
qed

lemma safe_shuffle:
  assumes "No_return \<in> A"
  shows "safe A (\<lambda>y. \<exists>off n. off + n \<le> length x \<and> permutes_block off n x y) (mut_shuffle rs a x)"
proof -
  have "safe A (permutes_block off n x) (each (shuffle_step rs off) (rev [1..<n]) x)" if "off + n \<le> length x" for off n
    by (rule safe_each) (use that in \<open>auto intro!: safe_shuffle_step [OF assms] simp: permutes_block_def\<close>)
  then have e: "safe A (\<lambda>y. \<exists>off n. off + n \<le> length x \<and> permutes_block off n x y) (each (shuffle_step rs off) (rev [1..<n]) x)"
    if "off + n \<le> length x" for off n
    by (rule safe_mono) (use that in auto)
  show ?thesis
    unfolding mut_shuffle_def
    by (intro safe_if safe_ret safe_block_then [OF assms] safe_draw_then [OF assms] e)
      (auto simp: permutes_block_def intro!: exI [of _ 0])
qed

end

text \<open>Two disjoint blocks of \<open>n\<close> bytes change places.\<close>

lemma put_bytes_app: "length t = length b \<Longrightarrow> put_bytes (length p) t (p @ b @ r) = p @ t @ r"
  by (simp add: put_bytes_def)

lemma split_blocks:
  assumes "i + n \<le> j" and "j + n \<le> length x"
  obtains p b m c q where "x = p @ b @ m @ c @ q" "length p = i" "length b = n" "length c = n" "length (p @ b @ m) = j"
proof
  let ?m = "take (j - (i + n)) (drop (i + n) x)"
  have "drop (i + n) x = ?m @ drop (j - (i + n)) (drop (i + n) x)" by (rule append_take_drop_id [symmetric])
  also have "drop (j - (i + n)) (drop (i + n) x) = drop j x" using assms(1) by simp
  finally have "drop (i + n) x = ?m @ take n (drop j x) @ drop (j + n) x" by (metis append_take_drop_id drop_drop add.commute)
  then show "x = take i x @ take n (drop i x) @ ?m @ take n (drop j x) @ drop (j + n) x"
    by (metis append_take_drop_id drop_drop add.commute)
qed (use assms in auto)

definition switches :: "nat \<Rightarrow> buf \<Rightarrow> buf \<Rightarrow> bool" where
  "switches n x y \<longleftrightarrow> (\<exists>p b m c q. length b = n \<and> length c = n \<and> x = p @ b @ m @ c @ q \<and> y = p @ c @ m @ b @ q)"

lemma switch_blocks:
  assumes "i + n \<le> j" and "j + n \<le> length x"
  shows "switches n x (put_bytes j (take n (drop i x)) (put_bytes i (take n (drop j x)) x))"
    and "switches n x (put_bytes i (take n (drop j x)) (put_bytes j (take n (drop i x)) x))"
proof -
  obtain p b m c q where x: "x = p @ b @ m @ c @ q" "length p = i" "length b = n" "length c = n" "length (p @ b @ m) = j"
    using split_blocks [OF assms] .
  have r: "take n (drop i x) = b" "take n (drop j x) = c" using x by auto
  have 1: "put_bytes i c (p @ b @ m @ c @ q) = p @ c @ m @ c @ q" "put_bytes i c (p @ b @ m @ b @ q) = p @ c @ m @ b @ q"
    using put_bytes_app [of c b p] x by auto
  have 2: "put_bytes j b (p @ c @ m @ c @ q) = p @ c @ m @ b @ q" "put_bytes j b (p @ b @ m @ c @ q) = p @ b @ m @ b @ q"
    using put_bytes_app [of b c "p @ c @ m"] put_bytes_app [of b c "p @ b @ m"] x by auto
  show "switches n x (put_bytes j (take n (drop i x)) (put_bytes i (take n (drop j x)) x))"
    "switches n x (put_bytes i (take n (drop j x)) (put_bytes j (take n (drop i x)) x))"
    unfolding r switches_def using x(1,3,4) 1 2 by metis+
qed

context random_source
begin

lemma safe_switch:
  assumes "No_return \<in> A"
  shows "safe A (\<lambda>y. y = x \<or> (\<exists>n. 0 < n \<and> switches n x y)) (mut_switch rs a x)"
proof -
  have w: "safe A (\<lambda>y. y = x \<or> (\<exists>n. 0 < n \<and> switches n x y))
      (and_then (read_at i n x) (\<lambda>b. and_then (read_at j n x) (\<lambda>c. and_then (write_at i c x) (write_at j b))))"
    if "0 < n" "i + n \<le> j \<and> j + n \<le> length x \<or> j + n \<le> i \<and> i + n \<le> length x" for i j n
  proof -
    have b: "i + n \<le> length x" "j + n \<le> length x" using that(2) by auto
    have "switches n x (put_bytes j (take n (drop i x)) (put_bytes i (take n (drop j x)) x))"
      using that(2) switch_blocks by metis
    then have "safe A (\<lambda>y. y = x \<or> (\<exists>n. 0 < n \<and> switches n x y)) (write_at j (take n (drop i x)) (put_bytes i (take n (drop j x)) x))"
      by (intro safe_write) (use b that(1) in auto)
    with b show ?thesis
      by (intro safe_read_then safe_and_then [of A "\<lambda>z. z = put_bytes i (take n (drop j x)) x"]) (auto simp: write_at_def intro: safe_ret)
  qed
  show ?thesis
    unfolding mut_switch_def Let_def case_prod_unfold
    by (intro safe_if safe_ret safe_draw_then [OF assms] safe_redraw_then [OF assms] safe_block_then [OF assms] w) (auto split: if_splits)
qed

end

section \<open>Growing mutations\<close>

lemma length_dec_nat: "0 < length (dec_nat n)"
  by (subst dec_nat.simps) simp

lemma dec_nonempty [simp]: "dec_nat n \<noteq> []" "dec v \<noteq> []"
  using length_dec_nat by (auto simp: dec_def)

lemma find_number_digit:
  assumes "find_number off x = Some p" and "off < length x"
  shows "p < length x" "isdigit (x ! p)"
proof -
  let ?d = "\<lambda>c. \<not> isdigit c"
  have nth: "length (takeWhile ?d xs) < length xs \<Longrightarrow> isdigit (xs ! length (takeWhile ?d xs))" for xs
    using nth_length_takeWhile by blast
  have le: "length (takeWhile ?d xs) \<le> length xs" for xs by (rule length_takeWhile_le)
  have "p < length x \<and> isdigit (x ! p)"
  proof (cases "off + length (takeWhile ?d (drop off x)) = length x")
    case True
    then have p: "p = length (takeWhile ?d (take off x))" "p \<noteq> off"
      using assms(1) by (auto simp: find_number_def Let_def split: if_splits)
    with le [of "take off x"] assms(2) have "p < off" by simp
    then show ?thesis using nth [of "take off x"] p(1) assms(2) by simp
  next
    case False
    then have p: "p = off + length (takeWhile ?d (drop off x))"
      using assms(1) by (auto simp: find_number_def Let_def)
    with False le [of "drop off x"] assms(2) have "length (takeWhile ?d (drop off x)) < length (drop off x)" by simp
    then show ?thesis using nth [of "drop off x"] p assms(2) by simp
  qed
  then show "p < length x" "isdigit (x ! p)" by auto
qed

lemma number_end_bounds: "off < length x \<Longrightarrow> off < number_end off x \<and> number_end off x \<le> length x"
  using length_takeWhile_le [of isdigit "drop (off + 1) x"] by (simp add: number_end_def)

text \<open>The bounds: not empty, and at most \<open>n\<close> bytes.\<close>

definition sized :: "nat \<Rightarrow> buf \<Rightarrow> bool" where
  "sized n y \<longleftrightarrow> y \<noteq> [] \<and> length y \<le> n"

lemma sized_rebuilt: "x \<noteq> [] \<Longrightarrow> i \<le> length x \<Longrightarrow> length x + length t \<le> n \<Longrightarrow> sized n (take i x @ t @ drop i x)"
  by (auto simp: sized_def)

lemma sized_length: "length y = length x \<Longrightarrow> x \<noteq> [] \<Longrightarrow> length x \<le> n \<Longrightarrow> sized n y"
  by (auto simp: sized_def)

lemma safe_s64: "Overflow \<in> A \<Longrightarrow> (\<And>v. P v) \<Longrightarrow> safe A P (s64 v)"
  by (simp add: s64_def safe_ret safe_stopped)

context random_source
begin

lemma safe_clone_copy:
  assumes "No_return \<in> A" and "Retry \<in> A" and "x \<noteq> []" and "length x \<le> n" and "m \<le> n"
  shows "safe A (sized n) (mut_clone_copy rs a m x)"
  unfolding mut_clone_copy_def
  by (intro safe_if safe_ret safe_stopped safe_block_then [OF assms(1)] safe_draw_then [OF assms(1)] safe_read_then
      safe_rebuild sized_rebuilt [OF assms(3)])
    (use assms in \<open>auto simp: sized_def Suc_le_eq\<close>)

lemma safe_clone_fixed:
  assumes "No_return \<in> A" and "Retry \<in> A" and "x \<noteq> []" and "length x \<le> n" and "m \<le> n"
  shows "safe A (sized n) (mut_clone_fixed rs a m x)"
  unfolding mut_clone_fixed_def
  by (intro safe_if safe_ret safe_stopped safe_block_then [OF assms(1)] safe_draw_then [OF assms(1)]
      safe_fixed_byte_then [OF assms(1,3)] safe_rebuild sized_rebuilt [OF assms(3)])
    (use assms in \<open>auto simp: sized_def HAVOC_BLK_XL_def\<close>)

lemma safe_insertone:
  assumes "No_return \<in> A" and "x \<noteq> []"
  shows "safe A (sized (length x + 1)) (mut_insertone rs x)"
  unfolding mut_insertone_def
  by (intro safe_if safe_ret safe_draw_then [OF assms(1)] safe_fixed_byte_then [OF assms] safe_rebuild sized_rebuilt)
    (use assms(2) in \<open>auto simp: sized_def\<close>)

lemma safe_change_number:
  assumes "No_return \<in> A" and "Overflow \<in> A"
  shows "safe A (\<lambda>_. True) (change_number rs strat val)"
  unfolding change_number_def
  by (intro safe_if safe_s64 [OF assms(2)] safe_draw_then [OF assms(1)] safe_ret
      safe_and_then [OF safe_draw64 [where P = "\<lambda>_. True"]]) auto

lemma safe_read_number:
  assumes "Overflow \<in> A"
  shows "safe A (\<lambda>_. True) (read_number off off2 x)"
  unfolding read_number_def
  by (intro safe_and_then [OF safe_each [where P = "\<lambda>_. True"]] safe_ret)
    (auto simp: read_digit_def intro!: safe_and_then [OF safe_s64 [OF assms, where P = "\<lambda>_. True"]] safe_s64 [OF assms])

lemma safe_asciinum:
  assumes "No_return \<in> A" and "Retry \<in> A" and "Overflow \<in> A" and "x \<noteq> []"
  shows "safe A (sized (length x + 18)) (mut_asciinum rs x)"
proof -
  have r: "sized (length x + 18) (take i x @ t @ drop j x)"
    if "t \<noteq> []" "length t \<le> 19" "i < j" "j \<le> length x" for i j t
    using that by (auto simp: sized_def)
  show ?thesis
    unfolding mut_asciinum_def Let_def
  proof (intro safe_if safe_ret safe_draw_then [OF assms(1)])
    fix off assume l: "\<not> length x < 4" and "off < max 1 (length x)"
    then have off: "off < length x" by simp
    show "safe A (sized (length x + 18)) (case find_number off x of
         None \<Rightarrow> if length x < 8 then ret x else stopped Retry
       | Some off \<Rightarrow> and_then (read_number off (number_end off x) x) (\<lambda>val. and_then (draw rs 8) (\<lambda>strat.
           and_then (change_number rs strat val) (\<lambda>val.
           if number_end off x - off = length (take 19 (dec val)) then write_at off (take 19 (dec val)) x
           else rebuild off (number_end off x) (take 19 (dec val)) x))))"
    proof (cases "find_number off x")
      case None
      then show ?thesis using assms(2,4) by (auto intro!: safe_if safe_ret safe_stopped simp: sized_def)
    next
      case (Some p)
      note p = find_number_digit(1) [OF Some off]
      note e = number_end_bounds [OF p]
      have "safe A (sized (length x + 18)) (if number_end p x - p = length (take 19 (dec val)) then write_at p (take 19 (dec val)) x
           else rebuild p (number_end p x) (take 19 (dec val)) x)" for val
      proof (intro safe_if safe_write safe_rebuild r)
        assume "number_end p x - p = length (take 19 (dec val))"
        with e show b: "p + length (take 19 (dec val)) \<le> length x" by linarith
        show "sized (length x + 18) (put_bytes p (take 19 (dec val)) x)"
          by (rule sized_length [OF length_put_bytes [OF b] assms(4)]) simp
      qed (use e in auto)
      then show ?thesis
        unfolding Some option.case
        by (intro safe_and_then [OF safe_read_number [OF assms(3)]] safe_draw_then [OF assms(1)]
            safe_and_then [OF safe_change_number [OF assms(1,3)]])
    qed
  qed (use assms(4) in \<open>auto simp: sized_def\<close>)
qed

lemma safe_insertasciinum:
  assumes "No_return \<in> A" and "Retry \<in> A" and "Uninit \<in> A"
  shows "safe A (\<lambda>y. length y = length x) (mut_insertasciinum rs x)"
  unfolding mut_insertasciinum_def Let_def
  by (intro safe_if safe_ret safe_stopped safe_draw_then [OF assms(1)] safe_and_then [OF safe_draw64 [where P = "\<lambda>_. True"]] safe_write)
    (use assms in auto)

lemma safe_token_over:
  assumes "No_return \<in> A" and "Retry \<in> A"
  shows "safe A (\<lambda>y. length y = length x) (mut_token_over rs ts x)"
  unfolding mut_token_over_def Let_def
  by (intro safe_if safe_stopped safe_draw_then [OF assms(1)] safe_write) (use assms in auto)

lemma safe_token_insert:
  assumes "No_return \<in> A" and "Retry \<in> A" and "x \<noteq> []" and "\<And>k. \<not> f k \<Longrightarrow> k \<le> n"
  shows "safe A (sized n) (mut_token_insert rs f ts x)"
  unfolding mut_token_insert_def Let_def
  by (intro safe_if safe_stopped safe_draw_then [OF assms(1)] safe_rebuild sized_rebuilt) (use assms in auto)

end

lemma and_then_ret [simp]: "and_then m ret = m"
  by (auto simp: fun_eq_iff and_then_def ret_def bind_err_def split: sum.split)

lemma each_append: "each f (is @ js) v = and_then (each f is v) (each f js)"
  by (induction "is" arbitrary: v) (auto simp: and_then_def ret_def fun_eq_iff bind_err_assoc case_prod_unfold)

lemma each_single: "each f [i] = f i"
proof
  fix v
  have "each f [] = ret" by (simp add: fun_eq_iff)
  then show "each f [i] v = f i v" by simp
qed

text \<open>The queue as splicing finds it: counters that fit the array, and contents that fit the lengths.\<close>

definition queue_ok :: "afl_state \<Rightarrow> (nat \<Rightarrow> buf) \<Rightarrow> bool" where
  "queue_ok a tc \<longleftrightarrow> ready_for_splicing_count a \<le> queued_items a \<and> length (queue_buf a) = queued_items a \<and>
     (\<forall>t < queued_items a. length (tc t) = q_len (queue_buf a ! t))"

context random_source
begin

lemma safe_pick_target_then:
  assumes "No_return \<in> A" and "queue_ok a tc" and "\<not> ready_for_splicing_count a \<le> 1"
    and "\<And>t. t < queued_items a \<Longrightarrow> 4 \<le> q_len (queue_buf a ! t) \<Longrightarrow> length (tc t) = q_len (queue_buf a ! t) \<Longrightarrow> safe A P (f t)"
  shows "safe A P (and_then (pick_target rs a) f)"
  unfolding pick_target_def
  by (rule safe_redraw_then [OF assms(1)]) (use assms(2-4) in \<open>auto simp: queue_ok_def\<close>)

lemma safe_splice_overwrite:
  assumes "No_return \<in> A" and "Retry \<in> A" and "queue_ok a tc"
  shows "safe A (\<lambda>y. length y = length x) (mut_splice_overwrite rs a tc x)"
  unfolding mut_splice_overwrite_def Let_def
  by (intro safe_if safe_stopped safe_pick_target_then [OF assms(1,3)] safe_block_then [OF assms(1)]
      safe_draw_then [OF assms(1)] safe_read_then safe_write) (use assms in auto)

lemma safe_splice_insert:
  assumes "No_return \<in> A" and "Retry \<in> A" and "queue_ok a tc" and "x \<noteq> []" and "MAX_FILE \<le> n"
  shows "safe A (sized n) (mut_splice_insert rs a tc x)"
  unfolding mut_splice_insert_def Let_def
  by (intro safe_if safe_stopped safe_pick_target_then [OF assms(1,3)] safe_block_then [OF assms(1)]
      safe_draw_then [OF assms(1)] safe_read_then safe_rebuild sized_rebuilt) (use assms in auto)

lemma safe_havoc_op:
  assumes A: "No_return \<in> A" "Retry \<in> A" "Overflow \<in> A" "Uninit \<in> A"
    and q: "queue_ok a tc" and x: "x \<noteq> []" "MAX_FILE \<le> n" "length x + 18 \<le> n"
  shows "safe A (sized n) (havoc_op rs a tc m x)"
proof -
  have same: "safe A (\<lambda>y. length y = length x) t \<Longrightarrow> safe A (sized n) t" for t :: "'r \<Rightarrow> stop \<times> 'r + buf \<times> 'r"
    by (erule safe_mono) (use x in \<open>auto intro: sized_length\<close>)
  have perm: "safe A (sized n) (mut_shuffle rs a x)"
    by (rule same, rule safe_mono [OF safe_shuffle [OF A(1)]]) (auto simp: permutes_block_def)
  have swap: "safe A (sized n) (mut_switch rs a x)"
    by (rule same, rule safe_mono [OF safe_switch [OF A(1)]]) (auto simp: switches_def)
  have del: "safe A (sized n) (mut_del rs a x)" "safe A (sized n) (mut_delone rs x)"
    by (rule safe_mono [OF safe_del(1) [OF A(1) x(1)]]; use x in \<open>auto simp: sized_def\<close>)
      (rule safe_mono [OF safe_del(2) [OF A(1) x(1)]]; use x in \<open>auto simp: sized_def\<close>)
  have grow: "safe A (sized n) (mut_insertone rs x)" "safe A (sized n) (mut_asciinum rs x)"
    by (rule safe_mono [OF safe_insertone [OF A(1) x(1)]]; use x in \<open>auto simp: sized_def\<close>)
      (rule safe_mono [OF safe_asciinum [OF A(1-3) x(1)]]; use x in \<open>auto simp: sized_def\<close>)
  have l: "length x \<le> n" using x by simp
  note c = safe_clone_copy [OF A(1,2) x(1) l x(2)] safe_clone_fixed [OF A(1,2) x(1) l x(2)]
  have ti: "safe A (sized n) (mut_token_insert rs (\<lambda>n. MAX_FILE \<le> n) ts x)" for ts
    by (rule safe_token_insert [OF A(1,2) x(1)]) (use x(2) in simp)
  note eq = safe_same_length [OF A(1) x(1), THEN same] safe_overwrite_copy [OF A(1), THEN same]
    safe_insertasciinum [OF A(1,2,4), THEN same] safe_token_over [OF A(1,2), THEN same]
    safe_splice_overwrite [OF A(1,2) q, THEN same]
  show ?thesis
    unfolding havoc_op_def
    by (cases m; simp only: mutation.case)
      (rule eq perm swap del grow c ti safe_splice_insert [OF A(1,2) q x(1,2)])+
qed

lemma safe_havoc_step:
  assumes "No_return \<in> A" "Overflow \<in> A" "Uninit \<in> A" "Retry \<notin> A"
    and "queue_ok a tc" and "x \<noteq> []" "MAX_FILE \<le> n" "length x + 18 \<le> n"
  shows "safe A (sized n) (havoc_step rs a tc arr x)"
  unfolding havoc_step_def
  by (rule safe_retrying) (use assms in \<open>auto intro!: safe_draw_then safe_havoc_op\<close>)

text \<open>Each step of a stack adds at most 18 bytes to the bound.\<close>

lemma safe_havoc_stack:
  assumes "No_return \<in> A" "Overflow \<in> A" "Uninit \<in> A" "Retry \<notin> A" and "queue_ok a tc" and "sized MAX_FILE x"
  shows "safe A (sized (MAX_FILE + 18 * k)) (havoc_stack rs a tc k x)"
proof (induction k)
  case 0
  show ?case using assms(6) by (simp add: havoc_stack_def safe_ret)
next
  case (Suc k)
  have "havoc_stack rs a tc (Suc k) x = and_then (havoc_stack rs a tc k x) (havoc_step rs a tc (mutation_array a))"
    by (simp add: havoc_stack_def each_append each_single)
  moreover have "safe A (sized (MAX_FILE + 18 * Suc k)) (and_then (havoc_stack rs a tc k x) (havoc_step rs a tc (mutation_array a)))"
    by (rule safe_and_then [OF Suc]) (rule safe_havoc_step [OF assms(1-5)]; auto simp: sized_def)
  ultimately show ?case by simp
qed

end

section \<open>What the stage can rely on\<close>

text \<open>A source that delivers the numbers of a list, each reduced below the limit, then zeros.\<close>

definition list_source :: "nat list rsrc" where
  "list_source = \<lparr>rs_below = (\<lambda>n r. Some (case r of [] \<Rightarrow> (0, []) | v # vs \<Rightarrow> (v mod max 1 n, vs))),
     rs_next = (\<lambda>r. case r of [] \<Rightarrow> (0, []) | v # vs \<Rightarrow> (of_nat v, vs))\<rparr>"

interpretation lists: random_source list_source
proof
  fix n r v and r' :: "nat list"
  assume "rs_below list_source n r = Some (v, r')"
  then show "v < max 1 n"
    by (auto simp: list_source_def max_def split: list.splits)
qed

lemma list_draw [simp]:
  "draw list_source n [] = ret 0 []" "draw list_source n (v # vs) = ret (v mod max 1 n) vs"
  "draw64 list_source (v # vs) = ret (of_nat v) vs"
  by (simp_all add: draw_def draw64_def list_source_def ret_def)

lemma and_then_simps [simp]:
  "and_then (ret v) f r = f v r" "m r = Inr (v, r') \<Longrightarrow> and_then m f r = f v r'" "m r = Inl (s, r') \<Longrightarrow> and_then m f r = Inl (s, r')"
  by (simp_all add: and_then_def ret_def)

lemma and_then_stopped [simp]: "and_then (stopped s) f r = Inl (s, r)"
  by (simp add: and_then_def stopped_def)

end
