(* ===== verification/Havocstage.thy ===== *)
theory Havocstage
  imports Havoc
begin

unbundle bit_operations_syntax

text \<open>
  The havoc stage and the splicing rounds of \<open>fuzz_one_original\<close> (\<open>src/afl-fuzz-one.c\<close>), without
  custom mutators and IJON. \<open>hv_run\<close> is \<open>common_fuzz_stuff\<close>, which may add queue entries; \<open>hv_case\<close>
  is \<open>queue_testcase_get\<close>. The 32-bit counters wrap around; \<open>havoc_div\<close> is at least 1.
\<close>

section \<open>The stage\<close>

definition HAVOC_CYCLES :: nat where "HAVOC_CYCLES = 256"
definition HAVOC_CYCLES_INIT :: nat where "HAVOC_CYCLES_INIT = 1024"
definition HAVOC_MIN :: nat where "HAVOC_MIN = 12"
definition SPLICE_CYCLES :: nat where "SPLICE_CYCLES = 15"
definition SPLICE_HAVOC :: nat where "SPLICE_HAVOC = 32"

datatype hv_exit = HV_ABANDON | HV_STOP stop

record 'e havoc_host =
  hv_run :: "buf \<Rightarrow> afl_state \<times> 'e \<Rightarrow> bool \<times> afl_state \<times> 'e"
  hv_case :: "afl_state \<Rightarrow> nat \<Rightarrow> buf"
  hv_rand :: "'e rsrc"

record 'e hv =
  hv_afl :: afl_state
  hv_env :: 'e
  hv_stage_cur :: nat
  hv_stage_max :: nat
  hv_perf :: nat
  hv_queued :: nat
  hv_finds :: "stage \<Rightarrow> u64"
  hv_cycles :: "stage \<Rightarrow> u64"

type_synonym ('e, 'a) hvm = "hv_exit \<times> 'e hv + 'a \<times> 'e hv"

text \<open>A computation that draws random numbers, run on the environment.\<close>

definition lift_rnd :: "('e, 'a) rnd \<Rightarrow> 'e hv \<Rightarrow> ('e, 'a) hvm" where
  "lift_rnd m s = (case m (hv_env s) of
      Inl (st, e) \<Rightarrow> Inl (HV_STOP st, s\<lparr>hv_env := e\<rparr>)
    | Inr (v, e) \<Rightarrow> Inr (v, s\<lparr>hv_env := e\<rparr>))"

text \<open>New finds double the rest of the stage, as long as the score permits it.\<close>

definition extend_stage :: "'e hv \<Rightarrow> 'e hv" where
  "extend_stage s =
    (if queued_items (hv_afl s) \<noteq> hv_queued s
     then (if hv_perf s \<le> havoc_max_mult (hv_afl s) * 100
           then s\<lparr>hv_stage_max := (hv_stage_max s * 2) mod 2 ^ 32, hv_perf := (hv_perf s * 2) mod 2 ^ 32\<rparr>
           else s)\<lparr>hv_queued := queued_items (hv_afl s)\<rparr>
     else s)"

definition run_input :: "'e havoc_host \<Rightarrow> buf \<Rightarrow> 'e hv \<Rightarrow> hv_exit \<times> 'e hv + 'e hv" where
  "run_input h out s =
    (let (bail, a, e) = hv_run h out (hv_afl s, hv_env s); s = s\<lparr>hv_afl := a, hv_env := e\<rparr>
     in if bail then Inl (HV_ABANDON, s) else Inr s)"

definition havoc_iter :: "'e havoc_host \<Rightarrow> nat \<Rightarrow> buf \<Rightarrow> 'e hv \<Rightarrow> hv_exit \<times> 'e hv + 'e hv" where
  "havoc_iter h stack_max in_buf s =
    bind_err (lift_rnd (draw (hv_rand h) stack_max) s) (\<lambda>(n, s).
    bind_err (lift_rnd (havoc_stack (hv_rand h) (hv_afl s) (hv_case h (hv_afl s)) (1 + n) in_buf) s) (\<lambda>(out, s).
    bind_err (run_input h out s) (\<lambda>s. Inr (extend_stage s))))"

partial_function (option) havoc_loop :: "'e havoc_host \<Rightarrow> nat \<Rightarrow> buf \<Rightarrow> 'e hv \<Rightarrow> (hv_exit \<times> 'e hv + 'e hv) option" where
  "havoc_loop h stack_max in_buf s =
    (if hv_stage_cur s < hv_stage_max s
     then (case havoc_iter h stack_max in_buf s of
         Inl x \<Rightarrow> Some (Inl x)
       | Inr s \<Rightarrow> havoc_loop h stack_max in_buf (s\<lparr>hv_stage_cur := hv_stage_cur s + 1\<rparr>))
     else Some (Inr s))"

definition hit_total :: "afl_state \<Rightarrow> u64" where
  "hit_total a = of_nat (queued_items a + saved_crashes a)"

text \<open>\<open>splice_cycle\<close> is 0 for the havoc stage proper.\<close>

definition havoc_start :: "bool \<Rightarrow> nat \<Rightarrow> nat \<Rightarrow> 'e hv \<Rightarrow> 'e hv" where
  "havoc_start doing_det splice_cycle orig_perf s =
    (let perf = (if splice_cycle = 0 then hv_perf s else orig_perf);
         cyc = (if splice_cycle = 0 then if doing_det then HAVOC_CYCLES_INIT else HAVOC_CYCLES else SPLICE_HAVOC);
         n = ((cyc * perf) mod 2 ^ 32 div havoc_div (hv_afl s)) div 2 ^ 8
     in s\<lparr>hv_perf := perf, hv_stage_cur := 0, hv_stage_max := (if n < HAVOC_MIN then HAVOC_MIN else n),
          hv_queued := queued_items (hv_afl s)\<rparr>)"

definition havoc_end :: "nat \<Rightarrow> u64 \<Rightarrow> 'e hv \<Rightarrow> 'e hv" where
  "havoc_end splice_cycle orig_hit_cnt s =
    (let st = (if splice_cycle = 0 then STAGE_HAVOC else STAGE_SPLICE)
     in s\<lparr>hv_finds := (hv_finds s)(st := hv_finds s st + (hit_total (hv_afl s) - orig_hit_cnt)),
          hv_cycles := (hv_cycles s)(st := hv_cycles s st + of_nat (hv_stage_max s))\<rparr>)"

definition havoc_stage :: "'e havoc_host \<Rightarrow> bool \<Rightarrow> nat \<Rightarrow> nat \<Rightarrow> buf \<Rightarrow> 'e hv \<Rightarrow> hv_exit \<times> 'e hv + 'e hv" where
  "havoc_stage h doing_det splice_cycle orig_perf in_buf s =
    (let orig_hit_cnt = hit_total (hv_afl s); s = havoc_start doing_det splice_cycle orig_perf s
     in bind_err (lift_rnd (draw (hv_rand h) (havoc_stack_pow2 (hv_afl s))) s) (\<lambda>(k, s).
        case havoc_loop h (2 ^ (1 + k)) in_buf s of
          None \<Rightarrow> Inl (HV_STOP No_return, s)
        | Some r \<Rightarrow> bind_err r (\<lambda>s. Inr (havoc_end splice_cycle orig_hit_cnt s))))"

section \<open>Splicing\<close>

text \<open>One attempt: \<open>None\<close> is the jump to \<open>retry_splicing\<close>. The input is the head of the current
  one, followed by what the code takes from the target.\<close>

definition splice_once :: "'e rsrc \<Rightarrow> afl_state \<Rightarrow> (nat \<Rightarrow> buf) \<Rightarrow> buf \<Rightarrow> ('e, buf option) rnd" where
  "splice_once rs a tc in_buf =
    and_then (pick_target rs a) (\<lambda>tid.
      let target_len = q_len (queue_buf a ! tid); new_buf = tc tid;
          (f_diff, l_diff) = locate_diffs in_buf new_buf (min (length in_buf) target_len)
      in if f_diff < 0 \<or> l_diff < 2 \<or> f_diff = l_diff then ret None
         else and_then (draw rs (nat (l_diff - f_diff))) (\<lambda>n.
           let split_at = nat f_diff + n
           in and_then (read_at 0 split_at in_buf) (\<lambda>hd.
              and_then (read_at 0 (target_len - split_at) new_buf) (\<lambda>tl. ret (Some (hd @ tl))))))"

text \<open>\<open>n\<close> is \<open>SPLICE_CYCLES - splice_cycle\<close>.\<close>

fun splice_rounds :: "'e havoc_host \<Rightarrow> bool \<Rightarrow> nat \<Rightarrow> buf \<Rightarrow> nat \<Rightarrow> 'e hv \<Rightarrow> hv_exit \<times> 'e hv + 'e hv" where
  "splice_rounds h doing_det orig_perf orig_in 0 s = Inr s"
| "splice_rounds h doing_det orig_perf orig_in (Suc n) s =
    (if use_splicing (hv_afl s) \<and> ready_for_splicing_count (hv_afl s) > 1 \<and> length orig_in \<ge> 4
     then bind_err (lift_rnd (splice_once (hv_rand h) (hv_afl s) (hv_case h (hv_afl s)) orig_in) s) (\<lambda>(r, s).
       case r of
         None \<Rightarrow> splice_rounds h doing_det orig_perf orig_in n s
       | Some in_buf \<Rightarrow>
           bind_err (havoc_stage h doing_det (SPLICE_CYCLES - n) orig_perf in_buf s)
             (splice_rounds h doing_det orig_perf orig_in n))
     else Inr s)"

definition havoc_and_splicing :: "'e havoc_host \<Rightarrow> bool \<Rightarrow> nat \<Rightarrow> buf \<Rightarrow> 'e hv \<Rightarrow> hv_exit \<times> 'e hv + 'e hv" where
  "havoc_and_splicing h doing_det orig_perf orig_in s =
    bind_err (havoc_stage h doing_det 0 orig_perf orig_in s)
      (splice_rounds h doing_det orig_perf orig_in SPLICE_CYCLES)"

section \<open>The stage ends\<close>










text \<open>A target that never finds anything.\<close>

definition idle_host :: "rand_state havoc_host" where
  "idle_host = \<lparr>hv_run = (\<lambda>mem (a, e). (False, a, e)), hv_case = (\<lambda>_ _. []), hv_rand = afl_rand (\<lambda>_. (0, 0, 0))\<rparr>"

definition hv_begin :: "nat \<Rightarrow> nat \<Rightarrow> rand_state hv" where
  "hv_begin perf n = \<lparr>hv_afl = campaign_start 64,
     hv_env = \<lparr>rand_seed0 = 7, rand_seed1 = 3, rand_seed2 = 1, rand_cnt = 5, init_seed = 0, rand_fixed = True, urandom_reads = 0\<rparr>,
     hv_stage_cur = 0, hv_stage_max = n, hv_perf = perf, hv_queued = 0, hv_finds = (\<lambda>_. 0), hv_cycles = (\<lambda>_. 0)\<rparr>"

lemma hv_begin_simps [simp]:
  "hv_perf (hv_begin p n) = p" "hv_stage_max (hv_begin p n) = n" "hv_stage_cur (hv_begin p n) = 0"
  "hv_afl (hv_begin p n) = campaign_start 64" "havoc_max_mult (campaign_start k) = 64"
  by (simp_all add: hv_begin_def campaign_start_eq)



section \<open>The stage submits inputs within bounds\<close>

text \<open>What the run of the target has to keep, given an input of legal size: a well-formed queue whose
  entries are files.\<close>

definition queue_fits :: "'e havoc_host \<Rightarrow> nat \<Rightarrow> afl_state \<Rightarrow> bool" where
  "queue_fits h K a \<longleftrightarrow> queue_ok a (hv_case h a) \<and> (\<forall>t < queued_items a. q_len (queue_buf a ! t) \<le> MAX_FILE) \<and>
     havoc_stack_pow2 a = K"

definition good_run :: "'e havoc_host \<Rightarrow> nat \<Rightarrow> bool" where
  "good_run h K \<longleftrightarrow> (\<forall>mem a e. mem \<noteq> [] \<and> length mem \<le> MAX_FILE + 18 * 2 ^ K \<and> queue_fits h K a \<longrightarrow>
     queue_fits h K (fst (snd (hv_run h mem (a, e)))))"

definition hv_safe :: "('s \<Rightarrow> bool) \<Rightarrow> (hv_exit \<times> 'e hv) + 's \<Rightarrow> bool" where
  "hv_safe R m \<longleftrightarrow> (case m of Inr s \<Rightarrow> R s | Inl (x, _) \<Rightarrow> x \<noteq> HV_STOP Out_of_bounds \<and> x \<noteq> HV_STOP Retry)"

lemma hv_safe_bind: "hv_safe R m \<Longrightarrow> (\<And>s. R s \<Longrightarrow> hv_safe T (f s)) \<Longrightarrow> hv_safe T (bind_err m f)"
  by (cases m) (auto simp: hv_safe_def split: prod.splits)

lemma hv_safe_Inr [simp]: "hv_safe R (Inr s) = R s"
  by (simp add: hv_safe_def)

lemma hv_safe_lift:
  assumes "safe A P m" and "Out_of_bounds \<notin> A" and "Retry \<notin> A" and "Q (hv_afl s)"
  shows "hv_safe (\<lambda>(v, s'). P v \<and> Q (hv_afl s')) (lift_rnd m s)"
proof (cases "m (hv_env s)")
  case (Inl e)
  then obtain st r where "m (hv_env s) = Inl (st, r)" by (cases e) auto
  with safeD(2) [OF assms(1) this] assms(2,3) show ?thesis by (auto simp: lift_rnd_def hv_safe_def)
next
  case (Inr y)
  then obtain v r where "m (hv_env s) = Inr (v, r)" by (cases y) auto
  with safeD(1) [OF assms(1) this] assms(4) show ?thesis by (auto simp: lift_rnd_def hv_safe_def)
qed

lemma queue_fits_extend: "queue_fits h K (hv_afl (extend_stage s)) = queue_fits h K (hv_afl s)"
  by (simp add: extend_stage_def)

lemma hv_safe_iter:
  fixes h :: "'e havoc_host"
  assumes "random_source (hv_rand h)" and "good_run h K" and "queue_fits h K (hv_afl s)"
    and "sized MAX_FILE b" and "0 < k" and "k \<le> 2 ^ K"
  shows "hv_safe (\<lambda>s. queue_fits h K (hv_afl s)) (havoc_iter h k b s)"
  unfolding havoc_iter_def
proof (rule hv_safe_bind [OF hv_safe_lift [where A = "{No_return}" and P = "\<lambda>n. n < k" and Q = "queue_fits h K"]])
  show "safe {No_return} (\<lambda>n. n < k) (draw (hv_rand h) k)"
    by (rule random_source.safe_draw [OF assms(1)]) (use assms(5) in auto)
next
  fix r :: "nat \<times> 'e hv"
  assume "case r of (n, s1) \<Rightarrow> n < k \<and> queue_fits h K (hv_afl s1)"
  then obtain n s1 where r: "r = (n, s1)" "n < k" "queue_fits h K (hv_afl s1)" by (cases r) auto
  show "hv_safe (\<lambda>s. queue_fits h K (hv_afl s)) (case r of (n, s) \<Rightarrow>
      bind_err (lift_rnd (havoc_stack (hv_rand h) (hv_afl s) (hv_case h (hv_afl s)) (1 + n) b) s)
        (\<lambda>(out, s). bind_err (run_input h out s) (\<lambda>s. Inr (extend_stage s))))"
    unfolding r(1) prod.case
  proof (rule hv_safe_bind [OF hv_safe_lift [where A = "{No_return, Overflow, Uninit}" and Q = "queue_fits h K"]])
    show "safe {No_return, Overflow, Uninit} (sized (MAX_FILE + 18 * (1 + n)))
        (havoc_stack (hv_rand h) (hv_afl s1) (hv_case h (hv_afl s1)) (1 + n) b)"
      by (rule random_source.safe_havoc_stack [OF assms(1)]) (use r(3) assms(4) in \<open>auto simp: queue_fits_def\<close>)
  next
    fix y :: "buf \<times> 'e hv"
    assume y: "case y of (v, s') \<Rightarrow> sized (MAX_FILE + 18 * (1 + n)) v \<and> queue_fits h K (hv_afl s')"
    have "1 + n \<le> 2 ^ K" using r(2) assms(6) by simp
    then have "18 * (1 + n) \<le> 18 * 2 ^ K" by simp
    with y have "case y of (out, s2) \<Rightarrow> out \<noteq> [] \<and> length out \<le> MAX_FILE + 18 * 2 ^ K \<and> queue_fits h K (hv_afl s2)"
      by (auto simp: sized_def)
    then show "hv_safe (\<lambda>s. queue_fits h K (hv_afl s)) (case y of (out, s) \<Rightarrow> bind_err (run_input h out s) (\<lambda>s. Inr (extend_stage s)))"
      using assms(2)
      by (auto simp: run_input_def Let_def hv_safe_def queue_fits_extend good_run_def split: prod.splits)
         (metis fst_conv snd_conv)+
  qed (use r(3) in auto)
qed (use assms(3) in auto)

lemma hv_safe_loop:
  assumes "havoc_loop h k b s = Some y" and "random_source (hv_rand h)" and "good_run h K" and "queue_fits h K (hv_afl s)"
    and "sized MAX_FILE b" and "0 < k" and "k \<le> 2 ^ K"
  shows "hv_safe (\<lambda>s. queue_fits h K (hv_afl s)) y"
  using assms
proof (induction h k b s y rule: havoc_loop.raw_induct [rotated, consumes 1, case_names step])
  case (step loop h k b s y)
  note iter = hv_safe_iter [OF step(3-8)]
  show ?case
  proof (cases "hv_stage_cur s < hv_stage_max s")
    case False
    then show ?thesis using step(2,5) by auto
  next
    case True
    show ?thesis
    proof (cases "havoc_iter h k b s")
      case (Inl x)
      then show ?thesis using True step(2) iter by (auto simp: hv_safe_def)
    next
      case (Inr s1)
      then have l: "loop h k b (s1\<lparr>hv_stage_cur := hv_stage_cur s1 + 1\<rparr>) = Some y" using True step(2) by simp
      have "queue_fits h K (hv_afl s1)" using iter Inr by simp
      then show ?thesis using step(1) [OF l step(3,4) _ step(6-8)] by simp
    qed
  qed
qed

section \<open>Splicing\<close>

lemma locate_bounds:
  assumes "locate_diffs p q n = (f, l)" and "n \<le> length p" and "n \<le> length q" and "\<not> (f < 0 \<or> l < 2 \<or> f = l)"
  shows "0 \<le> f \<and> f < l \<and> l < int n"
  using diff_span_locate [OF assms(2,3)] assms(1,4) by (auto simp: diff_span_def split: if_splits)

text \<open>What a splice is: a head of the input, up to a point between the first and the last difference, and
  a head of the target.\<close>

definition spliced :: "afl_state \<Rightarrow> (nat \<Rightarrow> buf) \<Rightarrow> buf \<Rightarrow> buf \<Rightarrow> bool" where
  "spliced a tc x y \<longleftrightarrow> (\<exists>tid split. tid < queued_items a \<and> tid \<noteq> current_entry a \<and> split < length x \<and> split < length (tc tid) \<and>
     y = take split x @ take (length (tc tid) - split) (tc tid))"

context random_source
begin

lemma safe_pick_other_then:
  assumes "No_return \<in> A" and "queue_ok a tc" and "\<not> ready_for_splicing_count a \<le> 1"
    and "\<And>t. t < queued_items a \<Longrightarrow> t \<noteq> current_entry a \<Longrightarrow> length (tc t) = q_len (queue_buf a ! t) \<Longrightarrow> safe A P (f t)"
  shows "safe A P (and_then (pick_target rs a) f)"
  unfolding pick_target_def
  by (rule safe_redraw_then [OF assms(1)]) (use assms(2-4) in \<open>auto simp: queue_ok_def\<close>)

lemma safe_splice_once:
  assumes "No_return \<in> A" and "queue_ok a tc" and "\<not> ready_for_splicing_count a \<le> 1"
  shows "safe A (\<lambda>r. case r of None \<Rightarrow> True | Some y \<Rightarrow> spliced a tc x y) (splice_once rs a tc x)"
  unfolding splice_once_def Let_def
proof (rule safe_pick_other_then [OF assms])
  fix t assume t: "t < queued_items a" "t \<noteq> current_entry a" "length (tc t) = q_len (queue_buf a ! t)"
  obtain f l where fl: "locate_diffs x (tc t) (min (length x) (q_len (queue_buf a ! t))) = (f, l)" by fastforce
  show "safe A (\<lambda>r. case r of None \<Rightarrow> True | Some y \<Rightarrow> spliced a tc x y)
     (case locate_diffs x (tc t) (min (length x) (q_len (queue_buf a ! t))) of (f_diff, l_diff) \<Rightarrow>
        if f_diff < 0 \<or> l_diff < 2 \<or> f_diff = l_diff then ret None
        else and_then (draw rs (nat (l_diff - f_diff))) (\<lambda>n. and_then (read_at 0 (nat f_diff + n) x) (\<lambda>hd.
             and_then (read_at 0 (q_len (queue_buf a ! t) - (nat f_diff + n)) (tc t)) (\<lambda>tl. ret (Some (hd @ tl))))))"
    unfolding fl prod.case
  proof (intro safe_if safe_ret)
    assume "\<not> (f < 0 \<or> l < 2 \<or> f = l)"
    with locate_bounds [OF fl] t(3) have b: "0 \<le> f" "f < l" "l < int (min (length x) (length (tc t)))" by auto
    show "safe A (\<lambda>r. case r of None \<Rightarrow> True | Some y \<Rightarrow> spliced a tc x y)
       (and_then (draw rs (nat (l - f))) (\<lambda>n. and_then (read_at 0 (nat f + n) x) (\<lambda>hd.
             and_then (read_at 0 (q_len (queue_buf a ! t) - (nat f + n)) (tc t)) (\<lambda>tl. ret (Some (hd @ tl))))))"
    proof (rule safe_draw_then [OF assms(1)])
      fix n assume "n < max 1 (nat (l - f))"
      with b have n: "nat f + n < length x" "nat f + n < length (tc t)" by auto
      then have "spliced a tc x (take (nat f + n) x @ take (length (tc t) - (nat f + n)) (tc t))"
        unfolding spliced_def using t(1,2) by blast
      then show "safe A (\<lambda>r. case r of None \<Rightarrow> True | Some y \<Rightarrow> spliced a tc x y)
        (and_then (read_at 0 (nat f + n) x) (\<lambda>hd.
             and_then (read_at 0 (q_len (queue_buf a ! t) - (nat f + n)) (tc t)) (\<lambda>tl. ret (Some (hd @ tl)))))"
        by (intro safe_read_then safe_ret) (use n t(3) in auto)
    qed
  qed simp
qed

end

definition two_entries :: afl_state where
  "two_entries = (campaign_start 64)\<lparr>queue_buf := [queue_entry_zero\<lparr>q_len := 4\<rparr>, queue_entry_zero\<lparr>q_len := 6\<rparr>],
     queued_items := 2, ready_for_splicing_count := 2\<rparr>"

lemma two_entries_simps [simp]:
  "queued_items two_entries = 2" "ready_for_splicing_count two_entries = 2" "current_entry two_entries = 0"
  "queue_buf two_entries = [queue_entry_zero\<lparr>q_len := 4\<rparr>, queue_entry_zero\<lparr>q_len := 6\<rparr>]"
  by (simp_all add: two_entries_def campaign_start_eq)

section \<open>The whole of havoc and splicing\<close>

lemma hv_safe_stage:
  fixes h :: "'e havoc_host"
  assumes "random_source (hv_rand h)" and "good_run h K" and "queue_fits h K (hv_afl s)" and "sized MAX_FILE b" and "1 \<le> K"
  shows "hv_safe (\<lambda>s. queue_fits h K (hv_afl s)) (havoc_stage h dd c p b s)"
proof -
  let ?s = "havoc_start dd c p s"
  have a: "hv_afl ?s = hv_afl s" by (simp add: havoc_start_def Let_def)
  have K: "havoc_stack_pow2 (hv_afl ?s) = K" using assms(3) a by (simp add: queue_fits_def)
  have "hv_safe (\<lambda>(k, s'). k < K \<and> queue_fits h K (hv_afl s')) (lift_rnd (draw (hv_rand h) (havoc_stack_pow2 (hv_afl ?s))) ?s)"
    by (rule hv_safe_lift [where A = "{No_return}"], rule random_source.safe_draw [OF assms(1)]) (use K assms(3,5) a in auto)
  then show ?thesis
    unfolding havoc_stage_def Let_def
  proof (rule hv_safe_bind)
    fix ks :: "nat \<times> 'e hv"
    assume "case ks of (k, s') \<Rightarrow> k < K \<and> queue_fits h K (hv_afl s')"
    then obtain k s1 where ks: "ks = (k, s1)" "k < K" "queue_fits h K (hv_afl s1)" by (cases ks) auto
    have pw: "2 ^ (1 + k) \<le> (2 :: nat) ^ K" by (rule power_increasing) (use ks(2) in auto)
    show "hv_safe (\<lambda>s. queue_fits h K (hv_afl s)) (case ks of (k, sa) \<Rightarrow>
        case havoc_loop h (2 ^ (1 + k)) b sa of None \<Rightarrow> Inl (HV_STOP No_return, sa)
        | Some r \<Rightarrow> bind_err r (\<lambda>sb. Inr (havoc_end c (hit_total (hv_afl s)) sb)))"
    proof (cases "havoc_loop h (2 ^ (1 + k)) b s1")
      case None
      then show ?thesis by (simp add: ks(1) hv_safe_def)
    next
      case (Some r)
      have "hv_safe (\<lambda>s. queue_fits h K (hv_afl s)) r"
        by (rule hv_safe_loop [OF Some assms(1,2) ks(3) assms(4) _ pw]) simp
      then have "hv_safe (\<lambda>s. queue_fits h K (hv_afl s)) (bind_err r (\<lambda>sb. Inr (havoc_end c (hit_total (hv_afl s)) sb)))"
        by (rule hv_safe_bind) (simp add: havoc_end_def Let_def)
      then show ?thesis by (simp only: ks(1) Some prod.case option.case)
    qed
  qed
qed

lemma hv_safe_rounds:
  fixes h :: "'e havoc_host"
  assumes "random_source (hv_rand h)" and "good_run h K" and "1 \<le> K" and "queue_fits h K (hv_afl s)"
  shows "hv_safe (\<lambda>s. queue_fits h K (hv_afl s)) (splice_rounds h dd p x n s)"
  using assms(4)
proof (induction n arbitrary: s)
  case (Suc n)
  show ?case
  proof (cases "use_splicing (hv_afl s) \<and> ready_for_splicing_count (hv_afl s) > 1 \<and> length x \<ge> 4")
    case True
    let ?once = "splice_once (hv_rand h) (hv_afl s) (hv_case h (hv_afl s)) x"
    have q: "queue_ok (hv_afl s) (hv_case h (hv_afl s))" using Suc.prems by (simp add: queue_fits_def)
    have "safe {No_return} (\<lambda>r. case r of None \<Rightarrow> True | Some y \<Rightarrow> spliced (hv_afl s) (hv_case h (hv_afl s)) x y) ?once"
      by (rule random_source.safe_splice_once [OF assms(1) _ q]) (use True in auto)
    then have "safe {No_return} (\<lambda>r. case r of None \<Rightarrow> True | Some y \<Rightarrow> sized MAX_FILE y) ?once"
    proof (rule safe_mono)
      fix r assume "case r of None \<Rightarrow> True | Some y \<Rightarrow> spliced (hv_afl s) (hv_case h (hv_afl s)) x y"
      then show "case r of None \<Rightarrow> True | Some y \<Rightarrow> sized MAX_FILE y"
        using Suc.prems by (auto simp: spliced_def sized_def queue_fits_def queue_ok_def split: option.splits)
    qed simp
    then have "hv_safe (\<lambda>(r, s'). (case r of None \<Rightarrow> True | Some y \<Rightarrow> sized MAX_FILE y) \<and> queue_fits h K (hv_afl s')) (lift_rnd ?once s)"
      by (rule hv_safe_lift) (use Suc.prems in auto)
    then have "hv_safe (\<lambda>s. queue_fits h K (hv_afl s)) (bind_err (lift_rnd ?once s) (\<lambda>(r, s). case r of
         None \<Rightarrow> splice_rounds h dd p x n s
       | Some in_buf \<Rightarrow> bind_err (havoc_stage h dd (SPLICE_CYCLES - n) p in_buf s) (splice_rounds h dd p x n)))"
    proof (rule hv_safe_bind)
      fix rs :: "buf option \<times> 'e hv"
      assume "case rs of (r, s') \<Rightarrow> (case r of None \<Rightarrow> True | Some y \<Rightarrow> sized MAX_FILE y) \<and> queue_fits h K (hv_afl s')"
      then obtain r s1 where r: "rs = (r, s1)" "case r of None \<Rightarrow> True | Some y \<Rightarrow> sized MAX_FILE y" "queue_fits h K (hv_afl s1)"
        by (cases rs) auto
      show "hv_safe (\<lambda>s. queue_fits h K (hv_afl s)) (case rs of (r, s) \<Rightarrow> case r of
         None \<Rightarrow> splice_rounds h dd p x n s
       | Some in_buf \<Rightarrow> bind_err (havoc_stage h dd (SPLICE_CYCLES - n) p in_buf s) (splice_rounds h dd p x n))"
      proof (cases r)
        case None
        then show ?thesis using Suc.IH [OF r(3)] r(1) by simp
      next
        case (Some y)
        then have "sized MAX_FILE y" using r(2) by simp
        from hv_safe_bind [OF hv_safe_stage [OF assms(1,2) r(3) this assms(3)] Suc.IH] show ?thesis using r(1) Some by simp
      qed
    qed
    then show ?thesis using True by simp
  next
    case False
    then show ?thesis using Suc.prems by (simp only: splice_rounds.simps if_False hv_safe_Inr)
  qed
qed simp

text \<open>C14. Havoc and splicing together, for whatever source of random numbers: as long as the run of the target,
  given a non-empty input of at most \<open>MAX_FILE + 18 * 2 ^ havoc_stack_pow2\<close> bytes, leaves a well-formed queue
  of files behind, no mutation and no splice ever accesses memory out of bounds, and the target is only given
  such inputs.\<close>

theorem havoc_and_splicing_safe:
  assumes "random_source (hv_rand h)" and "good_run h K" and "1 \<le> K" and "queue_fits h K (hv_afl s)"
    and "orig_in \<noteq> []" and "length orig_in \<le> MAX_FILE"
  shows "case havoc_and_splicing h doing_det orig_perf orig_in s of
      Inl (why, _) \<Rightarrow> why \<noteq> HV_STOP Out_of_bounds \<and> why \<noteq> HV_STOP Retry
    | Inr s' \<Rightarrow> queue_fits h K (hv_afl s')"
proof -
  have "sized MAX_FILE orig_in" using assms(5,6) by (simp add: sized_def)
  from hv_safe_bind [OF hv_safe_stage [OF assms(1,2,4) this assms(3)] hv_safe_rounds [OF assms(1-3)]]
  show ?thesis unfolding havoc_and_splicing_def hv_safe_def .
qed

lemma idle_good: "good_run idle_host 4" "random_source (hv_rand idle_host)" "queue_fits idle_host 4 (campaign_start 64)"
  by (simp_all add: good_run_def idle_host_def romu.random_source_axioms)
    (simp add: queue_fits_def queue_ok_def campaign_start_eq)

theorem havoc_and_splicing_safe_witness:
  "case havoc_and_splicing idle_host True 100 [1, 2, 3, 4] (hv_begin 100 400) of
      Inl (why, _) \<Rightarrow> why \<noteq> HV_STOP Out_of_bounds \<and> why \<noteq> HV_STOP Retry
    | Inr s' \<Rightarrow> queue_fits idle_host 4 (hv_afl s')"
  by (rule havoc_and_splicing_safe) (simp_all add: idle_good MAX_FILE_def)

end
