(* ===== verification/Mutate.thy ===== *)
theory Mutate
  imports Havoc
begin

unbundle bit_operations_syntax

text \<open>
  \<open>afl_mutate\<close> (\<open>include/afl-mutations.h\<close>), the random mutations as custom mutators use them. It shares
  most mutations with the havoc stage (theory \<open>Havoc\<close>) and has its own versions of the others. The
  caller's buffer and the scratch buffer have \<open>max_len\<close> bytes; \<open>fits\<close> is the check that a result does
  not outgrow them. \<open>sp\<close> is the splice buffer, empty when there is none. Allocation does not fail.
\<close>

section \<open>Mutations of its own\<close>

definition fits :: "nat \<Rightarrow> ('r, buf) rnd \<Rightarrow> ('r, buf) rnd" where
  "fits max_len m = and_then m (\<lambda>y. if length y \<le> max_len then ret y else stopped Out_of_bounds)"

definition mutate_arith32be :: "'r rsrc \<Rightarrow> buf \<Rightarrow> ('r, buf) rnd" where
  "mutate_arith32be rs x =
    (if length x < 4 then ret x
     else and_then (draw rs (length x - 3)) (\<lambda>pos. and_then (draw rs ARITH_MAX) (\<lambda>item.
       poke32 pos (\<lambda>v. SWAP32 (SWAP32 (v + of_nat (1 + item)))) x)))"

definition mutate_overwrite_copy :: "'r rsrc \<Rightarrow> afl_state \<Rightarrow> buf \<Rightarrow> ('r, buf) rnd" where
  "mutate_overwrite_copy rs a x =
    (if length x < 2 then ret x
     else and_then (choose_block_len rs a (length x - 1)) (\<lambda>copy_len.
       and_then (draw rs (length x - copy_len + 1)) (\<lambda>copy_from.
       and_then (draw rs (length x - copy_len + 1)) (\<lambda>copy_to.
         if copy_from \<noteq> copy_to then and_then (read_at copy_from copy_len x) (\<lambda>t. write_at copy_to t x)
         else ret x))))"

definition mutate_insertone :: "'r rsrc \<Rightarrow> nat \<Rightarrow> buf \<Rightarrow> ('r, buf) rnd" where
  "mutate_insertone rs max_len x =
    (if length x < 2 then ret x
     else if length x + 1 > max_len then stopped Retry
     else and_then (draw rs (length x)) (\<lambda>clone_to.
       and_then (fixed_byte rs clone_to x) (\<lambda>item. rebuild clone_to clone_to [item] x)))"

definition INT64_MAX :: int where "INT64_MAX = 2 ^ 63 - 1"
definition INT64_MIN :: int where "INT64_MIN = - (2 ^ 63)"

text \<open>Division rounds towards zero.\<close>

definition cdiv :: "int \<Rightarrow> int \<Rightarrow> int" where
  "cdiv v d = (if v < 0 then - ((- v) div d) else v div d)"

text \<open>The digits from \<open>i\<close> on are read as long as the value fits; the result is the value and the end.\<close>

fun read_digits :: "int \<Rightarrow> nat \<Rightarrow> buf \<Rightarrow> int \<times> nat" where
  "read_digits val i [] = (val, i)"
| "read_digits val i (c # cs) =
    (let digit = uint (c - 0x30) in
     if val > INT64_MAX div 10 \<or> val * 10 > INT64_MAX - digit then (val, i)
     else read_digits (val * 10 + digit) (i + 1) cs)"

text \<open>Where the change would overflow, the last digit goes first.\<close>

definition shrink :: "bool \<Rightarrow> int \<times> nat \<Rightarrow> int \<times> nat" where
  "shrink b = (\<lambda>(val, off2). if b then (cdiv val 10, off2 - 1) else (val, off2))"

definition adjust_number :: "'r rsrc \<Rightarrow> nat \<Rightarrow> int \<times> nat \<Rightarrow> ('r, int \<times> nat) rnd" where
  "adjust_number rs strat vo =
    (let val = fst vo; with = (\<lambda>f (v, off2). and_then (s64 (f v)) (\<lambda>v. ret (v, off2))) in
     if strat = 0 then with (\<lambda>v. v + 1) (shrink (val = INT64_MAX) vo)
     else if strat = 1 then with (\<lambda>v. v - 1) (shrink (val = INT64_MIN) vo)
     else if strat = 2 then with (\<lambda>v. v * 2) (shrink (val > cdiv INT64_MAX 2 \<or> val < cdiv INT64_MIN 2) vo)
     else if strat = 3 then ret (cdiv val 2, snd vo)
     else if strat = 4 then
       (if val \<noteq> 0 \<and> uint (word_of_int val :: u64) < 0x19999999
        then and_then (draw64 rs) (\<lambda>n. ret (sint (n mod (word_of_int val * 10)), snd vo))
        else and_then (draw rs 256) (\<lambda>n. ret (int n, snd vo)))
     else if strat = 5 then and_then (draw rs 256) (\<lambda>n. with (\<lambda>v. v + int n) (shrink (val > INT64_MAX - 256) vo))
     else if strat = 6 then and_then (draw rs 256) (\<lambda>n. with (\<lambda>v. v - int n) (shrink (val < INT64_MIN + 256) vo))
     else ret (NOT val, snd vo))"

text \<open>\<open>snprintf(numbuf, sizeof(buf), ...)\<close>: \<open>buf\<close> is a pointer, of 8 bytes.\<close>

definition sizeof_buf :: nat where "sizeof_buf = 8"

definition mutate_asciinum :: "'r rsrc \<Rightarrow> nat \<Rightarrow> buf \<Rightarrow> ('r, buf) rnd" where
  "mutate_asciinum rs max_len x =
    (if length x < 4 then ret x
     else and_then (draw rs (length x)) (\<lambda>off.
       case find_number off x of
         None \<Rightarrow> if length x < 8 then ret x else stopped Retry
       | Some off \<Rightarrow>
           let (val, off2) = read_digits (uint (x ! off) - 0x30) (off + 1)
                 (take (number_end off x - (off + 1)) (drop (off + 1) x));
               val = (if off \<noteq> 0 \<and> x ! (off - 1) = 0x2D then - val else val) in
           and_then (draw rs 8) (\<lambda>strat.
           and_then (adjust_number rs strat (val, off2)) (\<lambda>(val, off2).
           let t = take (sizeof_buf - 1) (dec val) in
           if off2 - off = length t then write_at off t x
           else if off + length t + length x - off2 > max_len then stopped Retry
           else rebuild off off2 t x))))"

definition mutate_insertasciinum :: "'r rsrc \<Rightarrow> buf \<Rightarrow> ('r, buf) rnd" where
  "mutate_insertasciinum rs x =
    and_then (draw rs 8) (\<lambda>n. and_then (draw rs (length x)) (\<lambda>pos.
      let ins_len = 1 + n in
      if length x < pos + ins_len then (if length x < 8 then ret x else stopped Retry)
      else and_then (draw64 rs) (\<lambda>val.
        let numbuf = dec_nat (unat val); val_len = length numbuf;
            (ins_len, off) = (if ins_len > val_len then (val_len, 0) else (ins_len, val_len - ins_len))
        in write_at pos (take ins_len (drop off numbuf)) x)))"

definition mutate_splice_overwrite :: "'r rsrc \<Rightarrow> afl_state \<Rightarrow> buf \<Rightarrow> buf \<Rightarrow> ('r, buf) rnd" where
  "mutate_splice_overwrite rs a sp x =
    (if sp = [] then stopped Retry
     else and_then (choose_block_len rs a (length sp - 1)) (\<lambda>n.
       let copy_len = (if n > length x then length x else n) in
       and_then (draw rs (length sp - copy_len + 1)) (\<lambda>copy_from.
       and_then (draw rs (length x - copy_len + 1)) (\<lambda>copy_to.
       and_then (read_at copy_from copy_len sp) (\<lambda>t. write_at copy_to t x)))))"

definition mutate_splice_insert :: "'r rsrc \<Rightarrow> afl_state \<Rightarrow> nat \<Rightarrow> buf \<Rightarrow> buf \<Rightarrow> ('r, buf) rnd" where
  "mutate_splice_insert rs a max_len sp x =
    (if sp = [] then stopped Retry
     else if length x + HAVOC_BLK_XL > max_len then stopped Retry
     else and_then (choose_block_len rs a (length sp)) (\<lambda>clone_len.
       and_then (draw rs (length sp - clone_len + 1)) (\<lambda>clone_from.
       and_then (draw rs (length x + 1)) (\<lambda>clone_to.
       and_then (read_at clone_from clone_len sp) (\<lambda>t. rebuild clone_to clone_to t x)))))"

section \<open>One mutation, and all of them\<close>

definition mutate_op :: "'r rsrc \<Rightarrow> afl_state \<Rightarrow> nat \<Rightarrow> buf \<Rightarrow> mutation \<Rightarrow> buf \<Rightarrow> ('r, buf) rnd" where
  "mutate_op rs a max_len sp m x = (case m of
      MUT_FLIPBIT \<Rightarrow> mut_flipbit rs x
    | MUT_INTERESTING8 \<Rightarrow> mut_interesting8 rs x
    | MUT_INTERESTING16 \<Rightarrow> mut_interesting16 rs False x
    | MUT_INTERESTING16BE \<Rightarrow> mut_interesting16 rs True x
    | MUT_INTERESTING32 \<Rightarrow> mut_interesting32 rs False x
    | MUT_INTERESTING32BE \<Rightarrow> mut_interesting32 rs True x
    | MUT_ARITH8_sub \<Rightarrow> mut_arith8 rs (-) x
    | MUT_ARITH8 \<Rightarrow> mut_arith8 rs (+) x
    | MUT_ARITH16_sub \<Rightarrow> mut_arith16 rs (-) x
    | MUT_ARITH16BE_sub \<Rightarrow> mut_arith16be rs (-) x
    | MUT_ARITH16 \<Rightarrow> mut_arith16 rs (+) x
    | MUT_ARITH16BE \<Rightarrow> mut_arith16be rs (+) x
    | MUT_ARITH32_sub \<Rightarrow> mut_arith32 rs (-) x
    | MUT_ARITH32BE_sub \<Rightarrow> mut_arith32be rs (-) x
    | MUT_ARITH32 \<Rightarrow> mut_arith32 rs (+) x
    | MUT_ARITH32BE \<Rightarrow> mutate_arith32be rs x
    | MUT_RAND8 \<Rightarrow> mut_rand8 rs x
    | MUT_CLONE_COPY \<Rightarrow> mut_clone_copy rs a max_len x
    | MUT_CLONE_FIXED \<Rightarrow> mut_clone_fixed rs a max_len x
    | MUT_OVERWRITE_COPY \<Rightarrow> mutate_overwrite_copy rs a x
    | MUT_OVERWRITE_FIXED \<Rightarrow> mut_overwrite_fixed rs a x
    | MUT_BYTEADD \<Rightarrow> mut_byte rs (\<lambda>b. b + 1) x
    | MUT_BYTESUB \<Rightarrow> mut_byte rs (\<lambda>b. b - 1) x
    | MUT_FLIP8 \<Rightarrow> mut_byte rs (\<lambda>b. b XOR 0xff) x
    | MUT_SWITCH \<Rightarrow> mut_switch rs a x
    | MUT_DEL \<Rightarrow> mut_del rs a x
    | MUT_SHUFFLE \<Rightarrow> mut_shuffle rs a x
    | MUT_DELONE \<Rightarrow> mut_delone rs x
    | MUT_INSERTONE \<Rightarrow> mutate_insertone rs max_len x
    | MUT_ASCIINUM \<Rightarrow> mutate_asciinum rs max_len x
    | MUT_INSERTASCIINUM \<Rightarrow> mutate_insertasciinum rs x
    | MUT_EXTRA_OVERWRITE \<Rightarrow> mut_token_over rs (map ex_data (extras a)) x
    | MUT_EXTRA_INSERT \<Rightarrow> mut_token_insert rs (\<lambda>n. n > max_len) (map ex_data (extras a)) x
    | MUT_AUTO_EXTRA_OVERWRITE \<Rightarrow> mut_token_over rs (map ex_data (a_extras a)) x
    | MUT_AUTO_EXTRA_INSERT \<Rightarrow> mut_token_insert rs (\<lambda>n. n > max_len) (map ex_data (a_extras a)) x
    | MUT_SPLICE_OVERWRITE \<Rightarrow> mutate_splice_overwrite rs a sp x
    | MUT_SPLICE_INSERT \<Rightarrow> mutate_splice_insert rs a max_len sp x)"

definition mutate_table :: "bool \<Rightarrow> bool \<Rightarrow> mutation list" where
  "mutate_table is_text is_exploration =
    (if is_text
     then if is_exploration then mutation_strategy_exploration_text else mutation_strategy_exploitation_text
     else if is_exploration then mutation_strategy_exploration_binary else mutation_strategy_exploitation_binary)"

definition MUT_STRATEGY_ARRAY_SIZE :: nat where "MUT_STRATEGY_ARRAY_SIZE = 256"

definition mutate_step :: "'r rsrc \<Rightarrow> afl_state \<Rightarrow> nat \<Rightarrow> buf \<Rightarrow> mutation list \<Rightarrow> buf \<Rightarrow> ('r, buf) rnd" where
  "mutate_step rs a max_len sp arr x =
    retrying (and_then (draw rs MUT_STRATEGY_ARRAY_SIZE) (\<lambda>r.
      if r < length arr then fits max_len (mutate_op rs a max_len sp (arr ! r) x) else stopped Out_of_bounds))"

text \<open>An empty buffer is returned as it is, with length 0.\<close>

definition afl_mutate :: "'r rsrc \<Rightarrow> afl_state \<Rightarrow> buf \<Rightarrow> nat \<Rightarrow> bool \<Rightarrow> bool \<Rightarrow> buf \<Rightarrow> nat \<Rightarrow> ('r, buf) rnd" where
  "afl_mutate rs a buf steps is_text is_exploration sp max_len =
    (if buf = [] then ret []
     else each (\<lambda>_. mutate_step rs a max_len sp (mutate_table is_text is_exploration)) [0..<steps] buf)"

section \<open>Numbers never overflow\<close>

lemma ret_then [simp]: "and_then (ret v) f = f v"
  by (simp add: fun_eq_iff)

lemma read_digits_bounds:
  assumes "read_digits v i cs = (val, k)" and "0 \<le> v" and "v \<le> INT64_MAX"
  shows "i \<le> k \<and> k \<le> i + length cs \<and> 0 \<le> val \<and> val \<le> INT64_MAX \<and> ((\<forall>c \<in> set cs. isdigit c) \<longrightarrow> val + 1 \<le> (v + 1) * 10 ^ (k - i))"
  using assms
proof (induction cs arbitrary: v i)
  case (Cons c cs)
  let ?d = "uint (c - 0x30)"
  show ?case
  proof (cases "v > INT64_MAX div 10 \<or> v * 10 > INT64_MAX - ?d")
    case True
    then show ?thesis using Cons.prems by auto
  next
    case False
    then have r: "read_digits (v * 10 + ?d) (i + 1) cs = (val, k)" using Cons.prems(1) by auto
    have b: "0 \<le> v * 10 + ?d" "v * 10 + ?d \<le> INT64_MAX" using False Cons.prems(2) by auto
    note ih = Cons.IH [OF r b]
    have "val + 1 \<le> (v + 1) * 10 ^ (k - i)" if d: "\<forall>c \<in> set (c # cs). isdigit c"
    proof -
      have "c - 0x30 \<le> 9" using d by (auto simp: isdigit_def word_le_nat_alt unat_sub)
      then have "?d \<le> uint (9 :: u8)" by (simp only: word_le_def)
      then have "?d \<le> 9" by simp
      have "val + 1 \<le> (v * 10 + ?d + 1) * 10 ^ (k - (i + 1))" using ih d by simp
      also have "\<dots> \<le> ((v + 1) * 10) * 10 ^ (k - (i + 1))" using \<open>?d \<le> 9\<close> by (intro mult_right_mono) auto
      also have "\<dots> = (v + 1) * 10 ^ Suc (k - (i + 1))" by simp
      also have "Suc (k - (i + 1)) = k - i" using conjunct1 [OF ih] by linarith
      finally show ?thesis .
    qed
    then show ?thesis using ih by auto
  qed
qed simp

lemma cdiv10: "\<bar>cdiv v 10\<bar> * 10 \<le> \<bar>v\<bar>" "\<bar>cdiv v 2\<bar> \<le> \<bar>v\<bar>"
  by (auto simp: cdiv_def)

text \<open>A number of \<open>m\<close> digits has a value below \<open>10 ^ m\<close>, so one that is almost too large has more than one.\<close>

definition number_at :: "nat \<Rightarrow> nat \<Rightarrow> int \<times> nat \<Rightarrow> bool" where
  "number_at off n vo \<longleftrightarrow> (case vo of (val, off2) \<Rightarrow> off < off2 \<and> off2 \<le> n \<and> \<bar>val\<bar> \<le> INT64_MAX \<and> \<bar>val\<bar> < 10 ^ (off2 - off))"

lemma shrink_bounds:
  assumes "number_at off n vo" and "b \<Longrightarrow> 10 \<le> \<bar>fst vo\<bar>"
  shows "off < snd (shrink b vo) \<and> snd (shrink b vo) \<le> n"
proof (cases b)
  case True
  obtain v k where vo: "vo = (v, k)" by (cases vo)
  have "10 \<le> \<bar>v\<bar>" "\<bar>v\<bar> < 10 ^ (k - off)" "off < k" "k \<le> n" using assms True by (auto simp: vo number_at_def)
  moreover have "k - off \<noteq> 1" using calculation(1,2) by (intro notI) simp
  ultimately show ?thesis using True by (auto simp: shrink_def vo)
next
  case False
  then show ?thesis using assms(1) by (auto simp: shrink_def number_at_def split: prod.splits)
qed

context random_source
begin

lemma safe_adjust_number:
  assumes A: "No_return \<in> A" and n: "number_at off n vo"
  shows "safe A (\<lambda>(v, k). off < k \<and> k \<le> n) (adjust_number rs strat vo)"
proof -
  obtain v k where vo: "vo = (v, k)" by (cases vo)
  have v: "\<bar>v\<bar> \<le> 2 ^ 63 - 1" and k: "off < k" "k \<le> n" using n by (auto simp: vo number_at_def INT64_MAX_def)
  have w: "safe A (\<lambda>(v, k). off < k \<and> k \<le> n)
      ((\<lambda>(v, off2). and_then (s64 (f v)) (\<lambda>v. ret (v, off2))) (shrink b (v, k)))"
    if "b \<Longrightarrow> 10 \<le> \<bar>v\<bar>" "b \<Longrightarrow> s64_ok (f (cdiv v 10))" "\<not> b \<Longrightarrow> s64_ok (f v)" for f b
    using shrink_bounds [OF n [unfolded vo], of b] that
    by (cases b) (auto simp: shrink_def s64_def intro!: safe_ret)
  have c: "\<bar>cdiv v 10\<bar> * 10 \<le> \<bar>v\<bar>" by (rule cdiv10)
  have h: "cdiv INT64_MAX 2 = 4611686018427387903" "cdiv INT64_MIN 2 = - 4611686018427387904"
    by (simp_all add: cdiv_def INT64_MAX_def INT64_MIN_def)
  have 0: "safe A (\<lambda>(v, k). off < k \<and> k \<le> n) ((\<lambda>(v, off2). and_then (s64 (v + 1)) (\<lambda>v. ret (v, off2))) (shrink (v = INT64_MAX) (v, k)))"
    "safe A (\<lambda>(v, k). off < k \<and> k \<le> n) ((\<lambda>(v, off2). and_then (s64 (v - 1)) (\<lambda>v. ret (v, off2))) (shrink (v = INT64_MIN) (v, k)))"
    "safe A (\<lambda>(v, k). off < k \<and> k \<le> n) ((\<lambda>(v, off2). and_then (s64 (v * 2)) (\<lambda>v. ret (v, off2)))
       (shrink (v > cdiv INT64_MAX 2 \<or> v < cdiv INT64_MIN 2) (v, k)))"
    unfolding h by (rule w; use v c in \<open>simp add: s64_ok_def INT64_MAX_def INT64_MIN_def; linarith?\<close>)+
  have 5: "safe A (\<lambda>(v, k). off < k \<and> k \<le> n) ((\<lambda>(v, off2). and_then (s64 (v + int m)) (\<lambda>v. ret (v, off2))) (shrink (v > INT64_MAX - 256) (v, k)))"
    "safe A (\<lambda>(v, k). off < k \<and> k \<le> n) ((\<lambda>(v, off2). and_then (s64 (v - int m)) (\<lambda>v. ret (v, off2))) (shrink (v < INT64_MIN + 256) (v, k)))"
    if "m < max 1 256" for m
    by (rule w; use v c that in \<open>simp add: s64_ok_def INT64_MAX_def INT64_MIN_def; linarith?\<close>)+
  show ?thesis
    unfolding adjust_number_def Let_def vo fst_conv snd_conv
    by (intro safe_if 0 5 safe_draw_then [OF A] safe_ret safe_and_then [OF safe_draw64 [where P = "\<lambda>_. True"]]) (use k in auto)
qed

end

section \<open>Every mutation is safe\<close>

lemma digits_of_number: "c \<in> set (take (number_end off x - (off + 1)) (drop (off + 1) x)) \<Longrightarrow> isdigit c"
proof -
  have "take (number_end off x - (off + 1)) (drop (off + 1) x) = takeWhile isdigit (drop (off + 1) x)"
    by (simp add: number_end_def takeWhile_eq_take [symmetric])
  then show "c \<in> set (take (number_end off x - (off + 1)) (drop (off + 1) x)) \<Longrightarrow> isdigit c"
    using set_takeWhileD by metis
qed

lemma first_digit: "isdigit c \<Longrightarrow> 0 \<le> uint c - 0x30 \<and> uint c - 0x30 \<le> 9"
  by (auto simp: isdigit_def word_le_def)

lemma number_read:
  assumes "p < length x" and "isdigit (x ! p)"
    and "read_digits (uint (x ! p) - 0x30) (p + 1) (take (number_end p x - (p + 1)) (drop (p + 1) x)) = (val, off2)"
  shows "number_at p (length x) (if b then - val else val, off2)"
proof -
  let ?cs = "take (number_end p x - (p + 1)) (drop (p + 1) x)"
  note d = first_digit [OF assms(2)]
  then have "uint (x ! p) - 0x30 \<le> INT64_MAX" by (simp add: INT64_MAX_def)
  from read_digits_bounds [OF assms(3) conjunct1 [OF d] this] digits_of_number
  have r: "p + 1 \<le> off2" "off2 \<le> p + 1 + length ?cs" "0 \<le> val" "val \<le> INT64_MAX"
    "val + 1 \<le> (uint (x ! p) - 0x30 + 1) * 10 ^ (off2 - (p + 1))" by blast+
  have "length ?cs \<le> number_end p x - (p + 1)" by simp
  with r(2) number_end_bounds [OF assms(1)] have k: "off2 \<le> length x" by linarith
  note r(5)
  also have "(uint (x ! p) - 0x30 + 1) * 10 ^ (off2 - (p + 1)) \<le> 10 * 10 ^ (off2 - (p + 1))"
    by (intro mult_right_mono) (use d in auto)
  also have "10 * 10 ^ (off2 - (p + 1)) = (10 :: int) ^ Suc (off2 - (p + 1))" by simp
  also have "Suc (off2 - (p + 1)) = off2 - p" using r(1) by simp
  finally have "val < 10 ^ (off2 - p)" by simp
  then show ?thesis using r(1,3,4) k by (auto simp: number_at_def)
qed

lemma length_dec_take: "0 < length (take (sizeof_buf - 1) (dec v))"
  by (simp add: sizeof_buf_def)

context random_source
begin

lemma safe_mutate_asciinum:
  assumes A: "No_return \<in> A" "Retry \<in> A" and x: "x \<noteq> []" "length x \<le> m"
  shows "safe A (sized m) (mutate_asciinum rs m x)"
  unfolding mutate_asciinum_def
proof (intro safe_if safe_ret safe_draw_then [OF A(1)])
  fix off assume "\<not> length x < 4" and "off < max 1 (length x)"
  then have off: "off < length x" by simp
  show "safe A (sized m) (case find_number off x of
         None \<Rightarrow> if length x < 8 then ret x else stopped Retry
       | Some off \<Rightarrow>
           let (val, off2) = read_digits (uint (x ! off) - 0x30) (off + 1)
                 (take (number_end off x - (off + 1)) (drop (off + 1) x));
               val = (if off \<noteq> 0 \<and> x ! (off - 1) = 0x2D then - val else val) in
           and_then (draw rs 8) (\<lambda>strat.
           and_then (adjust_number rs strat (val, off2)) (\<lambda>(val, off2).
           let t = take (sizeof_buf - 1) (dec val) in
           if off2 - off = length t then write_at off t x
           else if off + length t + length x - off2 > m then stopped Retry
           else rebuild off off2 t x)))"
  proof (cases "find_number off x")
    case None
    then show ?thesis using A x by (auto intro!: safe_if safe_ret safe_stopped simp: sized_def)
  next
    case (Some p)
    note p = find_number_digit [OF Some off]
    obtain val off2 where rd: "read_digits (uint (x ! p) - 0x30) (p + 1) (take (number_end p x - (p + 1)) (drop (p + 1) x)) = (val, off2)"
      by fastforce
    let ?v = "if p \<noteq> 0 \<and> x ! (p - 1) = 0x2D then - val else val"
    have n: "number_at p (length x) (?v, off2)" by (rule number_read [OF p rd])
    have fin: "safe A (sized m) (if k - p = length (take (sizeof_buf - 1) (dec v)) then write_at p (take (sizeof_buf - 1) (dec v)) x
           else if p + length (take (sizeof_buf - 1) (dec v)) + length x - k > m then stopped Retry
           else rebuild p k (take (sizeof_buf - 1) (dec v)) x)" if k: "p < k" "k \<le> length x" for v k
    proof (intro safe_if safe_write safe_stopped safe_rebuild)
      assume e: "k - p = length (take (sizeof_buf - 1) (dec v))"
      with k show b: "p + length (take (sizeof_buf - 1) (dec v)) \<le> length x" by linarith
      show "sized m (put_bytes p (take (sizeof_buf - 1) (dec v)) x)"
        by (rule sized_length [OF length_put_bytes [OF b] x])
    next
      assume "\<not> p + length (take (sizeof_buf - 1) (dec v)) + length x - k > m"
      with k length_dec_take [of v] show "sized m (take p x @ take (sizeof_buf - 1) (dec v) @ drop k x)"
        unfolding sized_def by (auto simp: min_def)
    qed (use k A in auto)
    have "safe A (sized m) (and_then (draw rs 8) (\<lambda>strat. and_then (adjust_number rs strat (?v, off2)) (\<lambda>(val, off2).
           if off2 - p = length (take (sizeof_buf - 1) (dec val)) then write_at p (take (sizeof_buf - 1) (dec val)) x
           else if p + length (take (sizeof_buf - 1) (dec val)) + length x - off2 > m then stopped Retry
           else rebuild p off2 (take (sizeof_buf - 1) (dec val)) x)))"
      by (rule safe_draw_then [OF A(1)], rule safe_and_then [OF safe_adjust_number [OF A(1) n]],
          erule case_prodE, simp only: prod.case, rule fin) auto
    then show ?thesis by (simp only: Some option.case rd prod.case Let_def)
  qed
qed (use x in \<open>auto simp: sized_def\<close>)

lemma safe_mutate_simple:
  assumes A: "No_return \<in> A" "Retry \<in> A" and x: "x \<noteq> []" "length x \<le> m"
  shows "safe A (sized m) (mutate_arith32be rs x)" and "safe A (sized m) (mutate_overwrite_copy rs a x)"
    and "safe A (sized m) (mutate_insertone rs m x)" and "safe A (sized m) (mutate_insertasciinum rs x)"
    and "safe A (sized m) (mutate_splice_overwrite rs a sp x)" and "safe A (sized m) (mutate_splice_insert rs a m sp x)"
proof -
  have same: "safe A (\<lambda>y. length y = length x) t \<Longrightarrow> safe A (sized m) t" for t :: "'r \<Rightarrow> stop \<times> 'r + buf \<times> 'r"
    by (erule safe_mono) (use x in \<open>auto intro: sized_length\<close>)
  show "safe A (sized m) (mutate_arith32be rs x)"
    by (rule same) (auto simp: mutate_arith32be_def intro!: safe_ret safe_draw_then [OF A(1)] safe_poke32)
  show "safe A (sized m) (mutate_overwrite_copy rs a x)"
    unfolding mutate_overwrite_copy_def
    by (rule same, intro safe_if safe_ret safe_block_then [OF A(1)] safe_draw_then [OF A(1)] safe_read_then safe_write) auto
  show "safe A (sized m) (mutate_insertone rs m x)"
    unfolding mutate_insertone_def
    by (intro safe_if safe_ret safe_stopped safe_draw_then [OF A(1)] safe_fixed_byte_then [OF A(1) x(1)] safe_rebuild sized_rebuilt)
      (use A x in \<open>auto simp: sized_def\<close>)
  have d: "length (take (if v \<le> w then v else w) (drop (if v \<le> w then u else z) t)) \<le> (if v \<le> w then v else w)" for v w u z :: nat and t :: buf
    by simp
  show "safe A (sized m) (mutate_insertasciinum rs x)"
    unfolding mutate_insertasciinum_def Let_def case_prod_unfold
    by (rule same, intro safe_if safe_ret safe_stopped safe_draw_then [OF A(1)] safe_and_then [OF safe_draw64 [where P = "\<lambda>_. True"]] safe_write)
      (use A in auto)
  show "safe A (sized m) (mutate_splice_overwrite rs a sp x)"
    unfolding mutate_splice_overwrite_def Let_def
    by (rule same, cases sp, insert A x, simp add: safe_stopped)
      (intro safe_if safe_stopped safe_and_then [OF safe_choose_block_len [OF A(1)]] safe_draw_then [OF A(1)] safe_read_then safe_write;
        auto simp: max_def split: if_splits)
  show "safe A (sized m) (mutate_splice_insert rs a m sp x)"
    unfolding mutate_splice_insert_def
    by (intro safe_if safe_stopped safe_block_then [OF A(1)] safe_draw_then [OF A(1)] safe_read_then safe_rebuild sized_rebuilt)
      (use A x in \<open>auto simp: Suc_le_eq\<close>)
qed

end

context random_source
begin

lemma safe_mutate_op:
  assumes A: "No_return \<in> A" "Retry \<in> A" and x: "x \<noteq> []" "length x \<le> n"
  shows "safe A (sized n) (mutate_op rs a n sp m x)"
proof -
  have same: "safe A (\<lambda>y. length y = length x) t \<Longrightarrow> safe A (sized n) t" for t :: "'r \<Rightarrow> stop \<times> 'r + buf \<times> 'r"
    by (erule safe_mono) (use x in \<open>auto intro: sized_length\<close>)
  have perm: "safe A (sized n) (mut_shuffle rs a x)"
    by (rule same, rule safe_mono [OF safe_shuffle [OF A(1)]]) (auto simp: permutes_block_def)
  have swap: "safe A (sized n) (mut_switch rs a x)"
    by (rule same, rule safe_mono [OF safe_switch [OF A(1)]]) (auto simp: switches_def)
  have del: "safe A (sized n) (mut_del rs a x)" "safe A (sized n) (mut_delone rs x)"
    by (rule safe_mono [OF safe_del(1) [OF A(1) x(1)]]; use x in \<open>auto simp: sized_def\<close>)
      (rule safe_mono [OF safe_del(2) [OF A(1) x(1)]]; use x in \<open>auto simp: sized_def\<close>)
  note c = safe_clone_copy [OF A x(1) x(2) order_refl] safe_clone_fixed [OF A x(1) x(2) order_refl]
  have ti: "safe A (sized n) (mut_token_insert rs (\<lambda>k. k > n) ts x)" for ts
    by (rule safe_token_insert [OF A x(1)]) simp
  note eq = safe_same_length [OF A(1) x(1), THEN same] safe_token_over [OF A, THEN same]
  show ?thesis
    unfolding mutate_op_def
    by (cases m; simp only: mutation.case)
      (rule eq perm swap del c ti safe_mutate_simple [OF A x] safe_mutate_asciinum [OF A x])+
qed

end

lemma length_runs: "length (runs ps) = sum_list (map snd ps)"
  by (induction ps) (auto simp: runs_def)

lemma length_mutate_table [simp]: "length (mutate_table t e) = MUT_STRATEGY_ARRAY_SIZE"
  by (simp add: mutate_table_def mutation_strategy_exploration_text_def mutation_strategy_exploration_binary_def
      mutation_strategy_exploitation_text_def mutation_strategy_exploitation_binary_def length_runs MUT_STRATEGY_ARRAY_SIZE_def)

context random_source
begin

lemma safe_mutate_step:
  assumes A: "No_return \<in> A" "Retry \<notin> A" and x: "x \<noteq> []" "length x \<le> n"
  shows "safe A (sized n) (mutate_step rs a n sp (mutate_table t e) x)"
proof -
  have m: "safe (insert Retry A) (sized n) (mutate_op rs a n sp m x)" for m
    by (rule safe_mutate_op) (use A x in auto)
  show ?thesis
    unfolding mutate_step_def fits_def
    by (rule safe_retrying)
      (use A in \<open>auto intro!: safe_draw_then safe_and_then [OF m] safe_if safe_ret simp: sized_def MUT_STRATEGY_ARRAY_SIZE_def\<close>)
qed

lemma safe_afl_mutate:
  assumes "x \<noteq> []" "length x \<le> n"
  shows "safe {No_return} (sized n) (afl_mutate rs a x k t e sp n)"
proof -
  have "sized n x" using assms by (simp add: sized_def)
  then show ?thesis
    unfolding afl_mutate_def using assms(1)
    by (auto intro!: safe_each safe_mutate_step simp: sized_def)
qed

end

section \<open>What its callers can rely on\<close>

text \<open>C9. \<open>afl_mutate\<close> on a buffer of \<open>max_len\<close> bytes never reads or writes outside its buffers, never overflows
  and never reads uninitialised memory: its result is not empty and fits the buffer, and the only way not to get one
  is a draw or a retry that does not end.\<close>

theorem afl_mutate_safe:
  assumes "x \<noteq> []" and "length x \<le> max_len"
  shows "case afl_mutate (afl_rand urandom) a x steps is_text is_exploration sp max_len r of
      Inl (s, _) \<Rightarrow> s = No_return
    | Inr (y, _) \<Rightarrow> y \<noteq> [] \<and> length y \<le> max_len"
  using romu.safe_afl_mutate [OF assms, of urandom a steps is_text is_exploration sp]
  by (auto simp: safe_def sized_def split: sum.splits dest!: spec [of _ r])

theorem afl_mutate_safe_witness:
  "case afl_mutate (afl_rand (\<lambda>_. (0, 0, 0))) (campaign_start 64) [1, 2, 3, 4] 5 True False [9, 9] 8
      \<lparr>rand_seed0 = 7, rand_seed1 = 3, rand_seed2 = 1, rand_cnt = 5, init_seed = 0, rand_fixed = True, urandom_reads = 0\<rparr> of
      Inl (s, _) \<Rightarrow> s = No_return
    | Inr (y, _) \<Rightarrow> y \<noteq> [] \<and> length y \<le> 8"
  by (rule afl_mutate_safe) simp_all

section \<open>Printed numbers read back\<close>

definition digit :: "u8 \<Rightarrow> int" where
  "digit c = uint (c - 0x30)"

definition digits :: "int \<Rightarrow> buf \<Rightarrow> int" where
  "digits v cs = foldl (\<lambda>v c. v * 10 + digit c) v cs"

lemma digits_simps [simp]: "digits v [] = v" "digits v (c # cs) = digits (v * 10 + digit c) cs"
  "digits v (cs @ ds) = digits (digits v cs) ds"
  by (simp_all add: digits_def)

end
