(* ===== verification/Cache.thy ===== *)
theory Cache
  imports Queue Randmonad
begin

text \<open>
  The test case cache of \<open>src/afl-fuzz-queue.c\<close>. An entry is its index in \<open>queue_buf\<close>; \<open>file\<close> gives the
  contents of the file of an entry, \<open>None\<close> when it cannot be opened. \<open>ca_once\<close> is the static variable
  \<open>do_once\<close>. Allocation does not fail. An access to a slot from \<open>q_testcase_max_cache_entries\<close> on is
  out of bounds.
\<close>

section \<open>The cache\<close>

datatype cache_exit = CE_FATAL fatal | CE_STOP stop

datatype place = In_cache | Testcase_buf | Splicecase_buf

record 'r cache =
  ca_afl :: afl_state
  ca_once :: bool
  ca_rand :: 'r

definition load_file :: "(nat \<Rightarrow> buf option) \<Rightarrow> nat \<Rightarrow> nat \<Rightarrow> cache_exit + buf" where
  "load_file file q n = (case file q of
      None \<Rightarrow> Inl (CE_FATAL (FatalMsg ''Unable to open''))
    | Some c \<Rightarrow> if length c < n then Inl (CE_FATAL (FatalMsg ''Short read'')) else Inr (take n c))"

definition full_by_size :: "nat \<Rightarrow> afl_state \<Rightarrow> bool" where
  "full_by_size n a \<longleftrightarrow> unat (q_testcase_cache_size a + of_nat n) \<ge> q_testcase_max_cache_size a"

definition must_evict :: "nat \<Rightarrow> afl_state \<Rightarrow> bool" where
  "must_evict n a \<longleftrightarrow> full_by_size n a \<and> q_testcase_cache_count a > 1 \<or>
     q_testcase_cache_count a \<ge> (q_testcase_max_cache_entries a + 2 ^ 32 - 1) mod 2 ^ 32"

text \<open>The first time the cache is full by size, the number of entries becomes the maximum.\<close>

definition learn_entries :: "nat \<Rightarrow> 'r cache \<Rightarrow> 'r cache" where
  "learn_entries n s =
    (let a = ca_afl s in
     if full_by_size n a \<and> q_testcase_cache_count a < q_testcase_max_cache_entries a \<and>
        q_testcase_max_cache_count a < q_testcase_max_cache_entries a \<and> \<not> ca_once s
     then s\<lparr>ca_afl := a\<lparr>q_testcase_max_cache_entries :=
            (if q_testcase_max_cache_count a > q_testcase_cache_count a then q_testcase_max_cache_count a + 1
             else q_testcase_cache_count a + 1)\<rparr>,
          ca_once := True\<rparr>
     else s)"

definition drop_slot :: "nat \<Rightarrow> afl_state \<Rightarrow> afl_state" where
  "drop_slot tid a =
    (let q = the (q_testcase_cache a tid); a = upd_entry q (\<lambda>e. e\<lparr>q_testcase_buf := None\<rparr>) a
     in a\<lparr>q_testcase_cache_size := q_testcase_cache_size a - of_nat (q_len (entry a q)),
          q_testcase_cache := (q_testcase_cache a)(tid := None),
          q_testcase_cache_count := (q_testcase_cache_count a + 2 ^ 32 - 1) mod 2 ^ 32,
          q_testcase_evictions := (q_testcase_evictions a + 1) mod 2 ^ 32,
          q_testcase_smallest_free := (if tid < q_testcase_smallest_free a then tid else q_testcase_smallest_free a)\<rparr>)"

definition evict_one :: "'r rsrc \<Rightarrow> nat \<Rightarrow> 'r cache \<Rightarrow> cache_exit + nat \<times> 'r cache" where
  "evict_one rs n s =
    (let s = learn_entries n s; a = ca_afl s in
     case redraw (draw rs (q_testcase_max_cache_count a))
         (\<lambda>tid. q_testcase_cache a tid = None \<or> q_testcase_cache a tid = queue_cur a) (ca_rand s) of
       Inl (e, r) \<Rightarrow> Inl (CE_STOP e)
     | Inr (tid, r) \<Rightarrow> Inr (tid, s\<lparr>ca_afl := drop_slot tid a, ca_rand := r\<rparr>))"

partial_function (option) evict_loop :: "'r rsrc \<Rightarrow> nat \<Rightarrow> nat \<Rightarrow> 'r cache \<Rightarrow> (cache_exit + nat \<times> 'r cache) option" where
  "evict_loop rs n tid s =
    (if must_evict n (ca_afl s)
     then (case evict_one rs n s of Inl e \<Rightarrow> Some (Inl e) | Inr (tid, s) \<Rightarrow> evict_loop rs n tid s)
     else Some (Inr (tid, s)))"

text \<open>\<open>while (afl->q_testcase_cache[tid] != NULL) ++tid;\<close>\<close>

function find_free :: "afl_state \<Rightarrow> nat \<Rightarrow> cache_exit + nat" where
  "find_free a tid =
    (if tid \<ge> q_testcase_max_cache_entries a then Inl (CE_STOP Out_of_bounds)
     else if q_testcase_cache a tid \<noteq> None then find_free a (tid + 1)
     else Inr tid)"
  by pat_completeness auto
termination by (relation "measure (\<lambda>(a, tid). q_testcase_max_cache_entries a - tid)") auto

declare find_free.simps [simp del]

definition cache_register :: "nat \<Rightarrow> buf \<Rightarrow> nat \<Rightarrow> afl_state \<Rightarrow> afl_state" where
  "cache_register q c tid a =
    (let a = upd_entry q (\<lambda>e. e\<lparr>q_testcase_buf := Some c\<rparr>) a;
         a = a\<lparr>q_testcase_cache := (q_testcase_cache a)(tid \<mapsto> q),
               q_testcase_cache_size := q_testcase_cache_size a + of_nat (q_len (entry a q)),
               q_testcase_cache_count := (q_testcase_cache_count a + 1) mod 2 ^ 32\<rparr>
     in if tid \<ge> q_testcase_max_cache_count a then a\<lparr>q_testcase_max_cache_count := tid + 1\<rparr>
        else if tid = q_testcase_smallest_free a then a\<lparr>q_testcase_smallest_free := tid + 1\<rparr>
        else a)"

definition queue_testcase_get ::
    "'r rsrc \<Rightarrow> (nat \<Rightarrow> buf option) \<Rightarrow> nat \<Rightarrow> 'r cache \<Rightarrow> cache_exit + (place \<times> buf) \<times> 'r cache" where
  "queue_testcase_get rs file q s =
    (let a = ca_afl s; n = q_len (entry a q) in
     case q_testcase_buf (entry a q) of
       Some c \<Rightarrow> Inr ((In_cache, c), s)
     | None \<Rightarrow>
         if q_weight (entry a q) < 1 \<or> q_testcase_max_cache_size a = 0
         then bind_err (load_file file q n) (\<lambda>c.
                Inr ((if queue_cur a = Some q then Testcase_buf else Splicecase_buf, c), s))
         else (case evict_loop rs n (q_testcase_max_cache_count a) s of
             None \<Rightarrow> Inl (CE_STOP No_return)
           | Some m \<Rightarrow> bind_err m (\<lambda>(tid, s).
               let a = ca_afl s in
               bind_err (find_free a (if tid \<ge> q_testcase_max_cache_entries a then q_testcase_smallest_free a else tid)) (\<lambda>tid.
               bind_err (load_file file q n) (\<lambda>c.
                 Inr ((In_cache, c), s\<lparr>ca_afl := cache_register q c tid a\<rparr>))))))"

definition queue_testcase_store_mem :: "nat \<Rightarrow> buf \<Rightarrow> afl_state \<Rightarrow> cache_exit + afl_state" where
  "queue_testcase_store_mem q mem a =
    (let n = q_len (entry a q) in
     if q_weight (entry a q) < 1 \<or> full_by_size n a \<or>
        q_testcase_cache_count a \<ge> (q_testcase_max_cache_entries a + 2 ^ 32 - 1) mod 2 ^ 32
     then Inr a
     else bind_err (find_free a (if q_testcase_max_cache_count a \<ge> q_testcase_max_cache_entries a
              then q_testcase_smallest_free a else q_testcase_max_cache_count a)) (\<lambda>tid.
        if length mem < n then Inl (CE_STOP Out_of_bounds) else Inr (cache_register q (take n mem) tid a)))"

text \<open>\<open>len - old_len\<close> is computed with 32 bits.\<close>

definition u32_diff :: "nat \<Rightarrow> nat \<Rightarrow> u64" where
  "u32_diff n old_len = ucast (of_nat n - of_nat old_len :: u32)"

definition queue_testcase_retake :: "(nat \<Rightarrow> buf option) \<Rightarrow> nat \<Rightarrow> nat \<Rightarrow> afl_state \<Rightarrow> cache_exit + afl_state" where
  "queue_testcase_retake file q old_len a = (case q_testcase_buf (entry a q) of
      None \<Rightarrow> Inr a
    | Some b \<Rightarrow>
        let n = q_len (entry a q); b = (if n > old_len \<or> n + 1024 < old_len then take n b @ replicate (n - length b) 0 else b);
            a = (if n > old_len \<or> n + 1024 < old_len
                 then a\<lparr>q_testcase_cache_size := q_testcase_cache_size a + u32_diff n old_len\<rparr> else a)
        in bind_err (load_file file q n) (\<lambda>c.
           if n > length b then Inl (CE_STOP Out_of_bounds)
           else Inr (upd_entry q (\<lambda>e. e\<lparr>q_testcase_buf := Some (c @ drop n b)\<rparr>) a)))"

text \<open>\<open>same\<close>: the new contents are already in the buffer of the entry.\<close>

definition queue_testcase_retake_mem :: "nat \<Rightarrow> bool \<Rightarrow> buf \<Rightarrow> nat \<Rightarrow> nat \<Rightarrow> afl_state \<Rightarrow> cache_exit + afl_state" where
  "queue_testcase_retake_mem q same mem n old_len a = (case q_testcase_buf (entry a q) of
      None \<Rightarrow> Inr a
    | Some b \<Rightarrow>
        if same then Inr a
        else
          let b = (if n + 1024 < old_len then take n b else b);
              a = (if n + 1024 < old_len
                   then a\<lparr>q_testcase_cache_size := q_testcase_cache_size a + u32_diff n old_len\<rparr> else a)
          in if n > length b \<or> n > length mem then Inl (CE_STOP Out_of_bounds)
             else Inr (upd_entry q (\<lambda>e. e\<lparr>q_testcase_buf := Some (take n mem @ drop n b)\<rparr>) a))"

section \<open>The invariant\<close>

text \<open>The slots in use, the bytes they hold, and the queue without its buffers.\<close>

definition held :: "afl_state \<Rightarrow> nat set" where
  "held a = {i. q_testcase_cache a i \<noteq> None}"

definition held_len :: "afl_state \<Rightarrow> nat" where
  "held_len a = (\<Sum>i \<in> held a. q_len (entry a (the (q_testcase_cache a i))))"

definition bare_queue :: "afl_state \<Rightarrow> queue_entry list" where
  "bare_queue a = map (\<lambda>e. e\<lparr>q_testcase_buf := None\<rparr>) (queue_buf a)"

definition files_ok :: "(nat \<Rightarrow> buf option) \<Rightarrow> afl_state \<Rightarrow> bool" where
  "files_ok file a \<longleftrightarrow> (\<forall>q < length (queue_buf a). \<exists>c. file q = Some c \<and> length c = q_len (entry a q))"

definition slots_ok :: "afl_state \<Rightarrow> bool" where
  "slots_ok a \<longleftrightarrow> (\<forall>i q. q_testcase_cache a i = Some q \<longrightarrow>
      i < q_testcase_max_cache_count a \<and> q < length (queue_buf a) \<and> q_testcase_buf (entry a q) \<noteq> None \<and>
      (\<forall>j. q_testcase_cache a j = Some q \<longrightarrow> j = i))"

definition buffers_ok :: "(nat \<Rightarrow> buf option) \<Rightarrow> afl_state \<Rightarrow> bool" where
  "buffers_ok file a \<longleftrightarrow> (\<forall>q < length (queue_buf a). \<forall>b. q_testcase_buf (entry a q) = Some b \<longrightarrow>
      (\<exists>i. q_testcase_cache a i = Some q) \<and> q_len (entry a q) \<le> length b \<and> file q = Some (take (q_len (entry a q)) b))"

definition limits_ok :: "afl_state \<Rightarrow> bool" where
  "limits_ok a \<longleftrightarrow> q_testcase_max_cache_count a \<le> q_testcase_max_cache_entries a \<and>
     3 \<le> q_testcase_max_cache_entries a \<and> q_testcase_max_cache_entries a < 2 ^ 32 \<and>
     q_testcase_smallest_free a \<le> q_testcase_max_cache_count a \<and>
     (\<forall>i < q_testcase_smallest_free a. q_testcase_cache a i \<noteq> None)"

text \<open>\<open>off\<close> is the error of the recorded size; 0 in a cache that was never trimmed.\<close>

definition cache_inv :: "(nat \<Rightarrow> buf option) \<Rightarrow> u64 \<Rightarrow> afl_state \<Rightarrow> bool" where
  "cache_inv file off a \<longleftrightarrow> slots_ok a \<and> buffers_ok file a \<and> limits_ok a \<and> files_ok file a \<and>
     q_testcase_cache_count a = card (held a) \<and> q_testcase_cache_size a = of_nat (held_len a) + off"

lemma bare_queue_length: "bare_queue a = bare_queue b \<Longrightarrow> length (queue_buf a) = length (queue_buf b)"
  unfolding bare_queue_def by (metis length_map)

lemma bare_queue_entry:
  assumes "bare_queue a = bare_queue b" and "q < length (queue_buf a)"
  shows "q_len (entry a q) = q_len (entry b q)" and "q_weight (entry a q) = q_weight (entry b q)"
proof -
  have "bare_queue a ! q = bare_queue b ! q" using assms(1) by simp
  moreover have "q < length (queue_buf b)" using assms bare_queue_length by metis
  ultimately have "(entry a q)\<lparr>q_testcase_buf := None\<rparr> = (entry b q)\<lparr>q_testcase_buf := None\<rparr>"
    using assms(2) by (simp add: bare_queue_def)
  from arg_cong [OF this, of q_len] arg_cong [OF this, of q_weight]
  show "q_len (entry a q) = q_len (entry b q)" "q_weight (entry a q) = q_weight (entry b q)" by simp_all
qed

lemma bare_queue_upd [simp]: "bare_queue (upd_entry q (\<lambda>e. e\<lparr>q_testcase_buf := c\<rparr>) a) = bare_queue a"
  unfolding bare_queue_def upd_entry_def
  by (cases "q < length (queue_buf a)") (auto simp: list_update_beyond nth_list_update intro!: nth_equalityI)

lemma files_ok_bare: "bare_queue a = bare_queue b \<Longrightarrow> files_ok file a \<longleftrightarrow> files_ok file b"
  unfolding files_ok_def using bare_queue_length bare_queue_entry by metis

lemma held_finite:
  assumes "slots_ok a"
  shows "held a \<subseteq> {..<q_testcase_max_cache_count a}" and "finite (held a)"
    and "card (held a) \<le> q_testcase_max_cache_count a"
proof -
  show s: "held a \<subseteq> {..<q_testcase_max_cache_count a}" using assms by (auto simp: held_def slots_ok_def)
  then show "finite (held a)" by (rule finite_subset) simp
  show "card (held a) \<le> q_testcase_max_cache_count a" using card_mono [OF _ s] by simp
qed

section \<open>Evicting\<close>

lemma dec32: "0 < n \<Longrightarrow> n < 2 ^ 32 \<Longrightarrow> (n + 2 ^ 32 - 1) mod 2 ^ 32 = n - (1 :: nat)"
  using mod_add_self2 [of "n - 1" "2 ^ 32 :: nat"] by (simp only: Nat.add_diff_assoc2 Suc_leI One_nat_def mod_less)

lemma drop_slot_sel [simp]:
  "q_testcase_cache (drop_slot t a) = (q_testcase_cache a)(t := None)"
  "length (queue_buf (drop_slot t a)) = length (queue_buf a)"
  "q_testcase_max_cache_count (drop_slot t a) = q_testcase_max_cache_count a"
  "q_testcase_max_cache_entries (drop_slot t a) = q_testcase_max_cache_entries a"
  "q_testcase_max_cache_size (drop_slot t a) = q_testcase_max_cache_size a"
  "queue_cur (drop_slot t a) = queue_cur a"
  "q_testcase_smallest_free (drop_slot t a) = min t (q_testcase_smallest_free a)"
  "q_testcase_cache_count (drop_slot t a) = (q_testcase_cache_count a + 2 ^ 32 - 1) mod 2 ^ 32"
  by (auto simp: drop_slot_def upd_entry_def Let_def min_def)

lemma queue_drop_slot:
  "queue_buf (drop_slot t a) = queue_buf (upd_entry (the (q_testcase_cache a t)) (\<lambda>e. e\<lparr>q_testcase_buf := None\<rparr>) a)"
  by (simp add: drop_slot_def upd_entry_def Let_def)

lemma bare_queue_drop [simp]: "bare_queue (drop_slot t a) = bare_queue a"
  using bare_queue_upd [of "the (q_testcase_cache a t)" None a] by (simp add: bare_queue_def queue_drop_slot)

lemma held_drop: "held (drop_slot t a) = held a - {t}"
  by (auto simp: held_def)

lemma drop_slot_inv:
  assumes inv: "cache_inv file off a" and t: "q_testcase_cache a t = Some q"
  shows "cache_inv file off (drop_slot t a)" and "q_testcase_cache_count (drop_slot t a) = q_testcase_cache_count a - 1"
    and "0 < q_testcase_cache_count a"
proof -
  let ?b = "drop_slot t a"
  have s: "slots_ok a" and bu: "buffers_ok file a" and l: "limits_ok a" and f: "files_ok file a"
    and n: "q_testcase_cache_count a = card (held a)" and z: "q_testcase_cache_size a = of_nat (held_len a) + off"
    using inv by (auto simp: cache_inv_def)
  have q: "q < length (queue_buf a)" "t < q_testcase_max_cache_count a" using s t by (auto simp: slots_ok_def)
  have e: "entry ?b p = (if q = p then (entry a p)\<lparr>q_testcase_buf := None\<rparr> else entry a p)" if "p < length (queue_buf a)" for p
    using that by (simp add: queue_drop_slot t upd_entry_def)
  have th: "t \<in> held a" using t by (simp add: held_def)
  show pos: "0 < q_testcase_cache_count a" using n th held_finite(2) [OF s] card_gt_0_iff by auto
  have "card (held a) < 2 ^ 32" using held_finite(3) [OF s] l by (auto simp: limits_ok_def)
  then show c: "q_testcase_cache_count ?b = q_testcase_cache_count a - 1" using pos n by (simp only: drop_slot_sel dec32)
  have other: "p \<noteq> q" if "q_testcase_cache a i = Some p" "i \<noteq> t" for i p
    using s t that unfolding slots_ok_def by blast
  have "held_len a = q_len (entry a q) + (\<Sum>i \<in> held a - {t}. q_len (entry a (the (q_testcase_cache a i))))"
    unfolding held_len_def by (subst sum.remove [OF held_finite(2) [OF s] th]) (simp add: t)
  also have "(\<Sum>i \<in> held a - {t}. q_len (entry a (the (q_testcase_cache a i)))) = held_len ?b"
    unfolding held_len_def held_drop
    by (rule sum.cong) (use s other in \<open>auto simp: held_def e slots_ok_def\<close>)
  finally have hl: "held_len a = q_len (entry a q) + held_len ?b" .
  have "q_testcase_cache_size ?b = q_testcase_cache_size a - of_nat (q_len (entry a q))"
    using q(1) by (simp add: drop_slot_def Let_def t upd_entry_def)
  then have z': "q_testcase_cache_size ?b = of_nat (held_len ?b) + off" by (simp add: z hl)
  have "slots_ok ?b"
    using s other unfolding slots_ok_def by (auto simp: e)
  moreover have "buffers_ok file ?b"
    unfolding buffers_ok_def
  proof (intro allI impI)
    fix p b assume p: "p < length (queue_buf ?b)" "q_testcase_buf (entry ?b p) = Some b"
    then have p': "p < length (queue_buf a)" "p \<noteq> q" "q_testcase_buf (entry a p) = Some b" using e by (auto split: if_splits)
    then obtain i where "q_testcase_cache a i = Some p" "q_len (entry a p) \<le> length b" "file p = Some (take (q_len (entry a p)) b)"
      using bu by (auto simp: buffers_ok_def)
    with p' t show "(\<exists>i. q_testcase_cache ?b i = Some p) \<and> q_len (entry ?b p) \<le> length b \<and> file p = Some (take (q_len (entry ?b p)) b)"
      by (auto simp: e intro!: exI [of _ i])
  qed
  moreover have "limits_ok ?b" using l unfolding limits_ok_def by auto
  moreover have "files_ok file ?b" using f files_ok_bare bare_queue_drop by metis
  moreover have "card (held ?b) = card (held a) - 1" using th held_drop by simp
  ultimately show "cache_inv file off ?b" using z' c n by (simp add: cache_inv_def)
qed

text \<open>What a call to the cache leaves alone.\<close>

definition kept :: "afl_state \<Rightarrow> afl_state \<Rightarrow> bool" where
  "kept a b \<longleftrightarrow> bare_queue b = bare_queue a \<and> queue_cur b = queue_cur a \<and>
     q_testcase_max_cache_size b = q_testcase_max_cache_size a \<and>
     q_testcase_max_cache_count b = q_testcase_max_cache_count a \<and>
     q_testcase_max_cache_entries b \<le> q_testcase_max_cache_entries a \<and>
     (\<forall>i \<in> held b. q_testcase_cache b i = q_testcase_cache a i) \<and>
     (\<forall>i \<in> held a. q_testcase_cache a i = queue_cur a \<longrightarrow> q_testcase_cache b i = q_testcase_cache a i)"

lemma kept_refl [simp]: "kept a a"
  by (simp add: kept_def)

lemma kept_trans:
  assumes "kept a b" and "kept b c"
  shows "kept a c"
proof -
  have "q_testcase_cache c i = q_testcase_cache a i" if i: "i \<in> held a" "q_testcase_cache a i = queue_cur a" for i
  proof -
    have b: "q_testcase_cache b i = q_testcase_cache a i" "queue_cur b = queue_cur a" using assms(1) i by (auto simp: kept_def)
    with i have "i \<in> held b" "q_testcase_cache b i = queue_cur b" by (auto simp: held_def)
    with assms(2) have "q_testcase_cache c i = q_testcase_cache b i" unfolding kept_def by blast
    with b show ?thesis by simp
  qed
  moreover have "q_testcase_cache c i = q_testcase_cache a i" if "i \<in> held c" for i
    using assms that unfolding kept_def held_def by (metis (mono_tags, lifting) mem_Collect_eq)
  ultimately show ?thesis using assms unfolding kept_def by simp
qed

lemma must_evict_two:
  assumes "cache_inv file off a" and "must_evict n a"
  shows "2 \<le> q_testcase_cache_count a"
proof -
  have "q_testcase_max_cache_entries a + 2 ^ 32 - 1 = (q_testcase_max_cache_entries a - 1) + 2 ^ 32" "3 \<le> q_testcase_max_cache_entries a"
    "q_testcase_max_cache_entries a < 2 ^ 32" using assms(1) by (auto simp: cache_inv_def limits_ok_def)
  then have "(q_testcase_max_cache_entries a + 2 ^ 32 - 1) mod 2 ^ 32 = q_testcase_max_cache_entries a - 1" by (intro dec32) auto
  with assms(2) \<open>3 \<le> _\<close> show ?thesis unfolding must_evict_def by linarith
qed

lemma learn_inv:
  assumes "cache_inv file off (ca_afl s)" and "2 \<le> q_testcase_cache_count (ca_afl s)"
  shows "cache_inv file off (ca_afl (learn_entries n s))" and "kept (ca_afl s) (ca_afl (learn_entries n s))"
    and "q_testcase_cache (ca_afl (learn_entries n s)) = q_testcase_cache (ca_afl s)"
    and "q_testcase_cache_count (ca_afl (learn_entries n s)) = q_testcase_cache_count (ca_afl s)"
    and "ca_rand (learn_entries n s) = ca_rand s"
proof -
  let ?a = "ca_afl s" and ?b = "ca_afl (learn_entries n s)"
  have e: "\<exists>m. ?b = ?a\<lparr>q_testcase_max_cache_entries := m\<rparr> \<and> q_testcase_max_cache_count ?a \<le> m \<and> 3 \<le> m \<and> m \<le> q_testcase_max_cache_entries ?a"
  proof (cases "full_by_size n ?a \<and> q_testcase_cache_count ?a < q_testcase_max_cache_entries ?a \<and>
        q_testcase_max_cache_count ?a < q_testcase_max_cache_entries ?a \<and> \<not> ca_once s")
    case True
    moreover have "q_testcase_cache_count ?a \<le> q_testcase_max_cache_count ?a"
      using assms(1) held_finite(3) by (auto simp: cache_inv_def)
    ultimately show ?thesis
      using assms(2) by (intro exI [of _ "q_testcase_max_cache_count ?a + 1"]) (auto simp: learn_entries_def Let_def)
  next
    case False
    then have "learn_entries n s = s" by (simp only: learn_entries_def Let_def if_False)
    then have "?b = ?a\<lparr>q_testcase_max_cache_entries := q_testcase_max_cache_entries ?a\<rparr>" by simp
    then show ?thesis using assms(1)
      by (intro exI [of _ "q_testcase_max_cache_entries ?a"]) (auto simp: cache_inv_def limits_ok_def)
  qed
  then obtain m where m: "?b = ?a\<lparr>q_testcase_max_cache_entries := m\<rparr>" "q_testcase_max_cache_count ?a \<le> m" "3 \<le> m" "m \<le> q_testcase_max_cache_entries ?a"
    by blast
  have h: "held (?a\<lparr>q_testcase_max_cache_entries := m\<rparr>) = held ?a" "bare_queue (?a\<lparr>q_testcase_max_cache_entries := m\<rparr>) = bare_queue ?a"
    by (simp_all add: held_def bare_queue_def)
  show "cache_inv file off ?b"
    using assms(1) m(2-4)
    by (simp add: cache_inv_def m(1) slots_ok_def buffers_ok_def limits_ok_def files_ok_def held_len_def h)
  show "kept ?a ?b" using m(2-4) by (simp add: m(1) kept_def h)
  show "q_testcase_cache ?b = q_testcase_cache ?a" "q_testcase_cache_count ?b = q_testcase_cache_count ?a" by (simp_all add: m(1))
  show "ca_rand (learn_entries n s) = ca_rand s" by (simp add: learn_entries_def Let_def)
qed

definition evicted_ok :: "(nat \<Rightarrow> buf option) \<Rightarrow> u64 \<Rightarrow> 'r cache \<Rightarrow> cache_exit + nat \<times> 'r cache \<Rightarrow> bool" where
  "evicted_ok file off s y \<longleftrightarrow> (case y of
      Inl e \<Rightarrow> e = CE_STOP No_return
    | Inr (t, s') \<Rightarrow> cache_inv file off (ca_afl s') \<and> kept (ca_afl s) (ca_afl s') \<and>
        q_testcase_cache (ca_afl s') t = None \<and> t < q_testcase_max_cache_count (ca_afl s') \<and>
        q_testcase_cache_count (ca_afl s') < q_testcase_cache_count (ca_afl s))"

context random_source
begin

lemma evict_one_ok:
  assumes inv: "cache_inv file off (ca_afl s)" and "must_evict n (ca_afl s)"
  shows "evicted_ok file off s (evict_one rs n s)"
proof -
  note two = must_evict_two [OF assms]
  note l = learn_inv [OF inv two, of n]
  let ?a = "ca_afl (learn_entries n s)"
  let ?bad = "\<lambda>t. q_testcase_cache ?a t = None \<or> q_testcase_cache ?a t = queue_cur ?a"
  have sf: "safe {No_return} (\<lambda>t. t < max 1 (q_testcase_max_cache_count ?a) \<and> \<not> ?bad t)
      (redraw (draw rs (q_testcase_max_cache_count ?a)) ?bad)"
    by (rule safe_redraw [OF safe_draw]) auto
  show ?thesis
  proof (cases "redraw (draw rs (q_testcase_max_cache_count ?a)) ?bad (ca_rand (learn_entries n s))")
    case (Inl e)
    with safeD(2) [OF sf] show ?thesis by (cases e) (auto simp: evict_one_def Let_def evicted_ok_def)
  next
    case (Inr y)
    obtain t r where y: "y = (t, r)" by (cases y)
    from safeD(1) [OF sf Inr [unfolded y]] obtain q where t: "q_testcase_cache ?a t = Some q" "Some q \<noteq> queue_cur ?a" by auto
    note d = drop_slot_inv [OF l(1) t(1)]
    have "t < q_testcase_max_cache_count ?a" using l(1) t(1) by (auto simp: cache_inv_def slots_ok_def)
    moreover have "kept ?a (drop_slot t ?a)" using t by (auto simp: kept_def held_drop)
    then have "kept (ca_afl s) (drop_slot t ?a)" using kept_trans [OF l(2)] by blast
    ultimately show ?thesis
      using d l(4) Inr unfolding evict_one_def Let_def evicted_ok_def y
      by (simp del: drop_slot_sel(8))
  qed
qed

text \<open>The loop returns, because every round frees a slot.\<close>

lemma evict_loop_ok:
  assumes "cache_inv file off (ca_afl s)"
  shows "\<exists>y. evict_loop rs n tid s = Some y \<and> (case y of
      Inl e \<Rightarrow> e = CE_STOP No_return
    | Inr (t, s') \<Rightarrow> cache_inv file off (ca_afl s') \<and> kept (ca_afl s) (ca_afl s') \<and> \<not> must_evict n (ca_afl s') \<and>
        (t = tid \<and> s' = s \<or> q_testcase_cache (ca_afl s') t = None \<and> t < q_testcase_max_cache_count (ca_afl s')))"
  using assms
proof (induction "q_testcase_cache_count (ca_afl s)" arbitrary: s tid rule: less_induct)
  case less
  show ?case
  proof (cases "must_evict n (ca_afl s)")
    case False
    then show ?thesis using less.prems by (subst evict_loop.simps) simp
  next
    case True
    note o = evict_one_ok [OF less.prems True]
    show ?thesis
    proof (cases "evict_one rs n s")
      case (Inl e)
      then show ?thesis using o True by (subst evict_loop.simps) (simp add: evicted_ok_def)
    next
      case (Inr y)
      obtain t s' where y: "y = (t, s')" by (cases y)
      have k: "cache_inv file off (ca_afl s')" "kept (ca_afl s) (ca_afl s')" "q_testcase_cache (ca_afl s') t = None"
        "t < q_testcase_max_cache_count (ca_afl s')" "q_testcase_cache_count (ca_afl s') < q_testcase_cache_count (ca_afl s)"
        using o by (auto simp: Inr y evicted_ok_def)
      from less.hyps [OF k(5,1), of t] obtain z where z: "evict_loop rs n t s' = Some z"
        "case z of Inl e \<Rightarrow> e = CE_STOP No_return
          | Inr (t', s'') \<Rightarrow> cache_inv file off (ca_afl s'') \<and> kept (ca_afl s') (ca_afl s'') \<and> \<not> must_evict n (ca_afl s'') \<and>
             (t' = t \<and> s'' = s' \<or> q_testcase_cache (ca_afl s'') t' = None \<and> t' < q_testcase_max_cache_count (ca_afl s''))" by blast
      have "evict_loop rs n tid s = Some z" using True z(1) by (subst evict_loop.simps) (simp add: Inr y)
      moreover have "case z of Inl e \<Rightarrow> e = CE_STOP No_return
          | Inr (t', s'') \<Rightarrow> cache_inv file off (ca_afl s'') \<and> kept (ca_afl s) (ca_afl s'') \<and> \<not> must_evict n (ca_afl s'') \<and>
             (t' = tid \<and> s'' = s \<or> q_testcase_cache (ca_afl s'') t' = None \<and> t' < q_testcase_max_cache_count (ca_afl s''))"
        using z(2) k kept_trans [OF k(2)] by (auto split: sum.splits)
      ultimately show ?thesis by blast
    qed
  qed
qed

end

section \<open>Registering\<close>

lemma find_free_ok:
  assumes "tid \<le> j" and "j < q_testcase_max_cache_entries a" and "q_testcase_cache a j = None"
  shows "\<exists>t. find_free a tid = Inr t \<and> t < q_testcase_max_cache_entries a \<and> q_testcase_cache a t = None"
  using assms
proof (induction a tid rule: find_free.induct)
  case (1 a tid)
  show ?case
  proof (cases "q_testcase_cache a tid")
    case None
    then show ?thesis using 1(2,3) by (subst find_free.simps) auto
  next
    case (Some q)
    with 1(4) have "tid \<noteq> j" by auto
    with 1(2-4) Some 1(1) [of] show ?thesis by (subst find_free.simps) auto
  qed
qed

text \<open>Where the search starts: behind the used slots, at a freed slot, or at the first free one.\<close>

lemma slot_found:
  assumes inv: "cache_inv file off a" and room: "q_testcase_cache_count a < q_testcase_max_cache_entries a"
    and t: "t = q_testcase_max_cache_count a \<or> q_testcase_cache a t = None \<and> t < q_testcase_max_cache_count a"
  shows "\<exists>u. find_free a (if t \<ge> q_testcase_max_cache_entries a then q_testcase_smallest_free a else t) = Inr u \<and>
     u < q_testcase_max_cache_entries a \<and> q_testcase_cache a u = None"
proof (cases "t \<ge> q_testcase_max_cache_entries a")
  case True
  have s: "slots_ok a" "limits_ok a" using inv by (auto simp: cache_inv_def)
  have "\<exists>j. q_testcase_smallest_free a \<le> j \<and> j < q_testcase_max_cache_entries a \<and> q_testcase_cache a j = None"
  proof (rule ccontr)
    assume "\<not> ?thesis"
    then have "{..<q_testcase_max_cache_entries a} \<subseteq> held a"
      using s(2) unfolding held_def limits_ok_def by (auto simp: not_le)
    with card_mono [OF held_finite(2) [OF s(1)] this] inv room show False by (simp add: cache_inv_def)
  qed
  then show ?thesis using True find_free_ok by auto
next
  case False
  have "q_testcase_cache a t = None" using t inv by (cases "q_testcase_cache a t") (auto simp: cache_inv_def slots_ok_def)
  then show ?thesis using False find_free_ok [of t t a] by auto
qed

lemma register_sel:
  "q_testcase_cache (cache_register q c t a) = (q_testcase_cache a)(t \<mapsto> q)"
  "q_testcase_max_cache_entries (cache_register q c t a) = q_testcase_max_cache_entries a"
  "q_testcase_max_cache_size (cache_register q c t a) = q_testcase_max_cache_size a"
  "q_testcase_cache_count (cache_register q c t a) = (q_testcase_cache_count a + 1) mod 2 ^ 32"
  "q_testcase_max_cache_count (cache_register q c t a) = (if t \<ge> q_testcase_max_cache_count a then t + 1 else q_testcase_max_cache_count a)"
  "q_testcase_smallest_free (cache_register q c t a) =
     (if t < q_testcase_max_cache_count a \<and> t = q_testcase_smallest_free a then t + 1 else q_testcase_smallest_free a)"
  "queue_buf (cache_register q c t a) = queue_buf (upd_entry q (\<lambda>e. e\<lparr>q_testcase_buf := Some c\<rparr>) a)"
  "queue_cur (cache_register q c t a) = queue_cur a"
  by (auto simp: cache_register_def Let_def upd_entry_def)

lemma length_register [simp]: "length (queue_buf (cache_register q c t a)) = length (queue_buf a)"
  by (simp add: register_sel(7))

lemma entry_register:
  "p < length (queue_buf a) \<Longrightarrow>
     entry (cache_register q c t a) p = (if q = p then (entry a p)\<lparr>q_testcase_buf := Some c\<rparr> else entry a p)"
  by (simp add: register_sel(7) upd_entry_def)

lemma slot_buffer: "slots_ok a \<Longrightarrow> q_testcase_cache a i = Some q \<Longrightarrow> q_testcase_buf (entry a q) \<noteq> None"
  unfolding slots_ok_def by blast

lemma bare_queue_register [simp]: "bare_queue (cache_register q c t a) = bare_queue a"
  using bare_queue_upd [of q "Some c" a] by (simp add: bare_queue_def register_sel)

lemma register_inv:
  assumes inv: "cache_inv file off a" and t: "q_testcase_cache a t = None" "t < q_testcase_max_cache_entries a"
    and q: "q < length (queue_buf a)" "q_testcase_buf (entry a q) = None"
    and c: "file q = Some (take (q_len (entry a q)) c)" "q_len (entry a q) \<le> length c"
  shows "cache_inv file off (cache_register q c t a)"
proof -
  let ?b = "cache_register q c t a"
  have s: "slots_ok a" and bu: "buffers_ok file a" and l: "limits_ok a" and f: "files_ok file a"
    and n: "q_testcase_cache_count a = card (held a)" and z: "q_testcase_cache_size a = of_nat (held_len a) + off"
    using inv by (auto simp: cache_inv_def)
  note e = entry_register
  have other: "p \<noteq> q" if "q_testcase_cache a i = Some p" for i p
    using slot_buffer [OF s that] q(2) by blast
  have h: "held ?b = insert t (held a)" "t \<notin> held a" using t(1) by (auto simp: held_def register_sel)
  note fin = held_finite [OF s]
  have hl: "held_len ?b = q_len (entry a q) + held_len a"
  proof -
    have "(\<Sum>i \<in> held a. q_len (entry ?b (the (q_testcase_cache ?b i)))) = held_len a"
      unfolding held_len_def
      by (rule sum.cong) (use s other t(1) in \<open>auto simp: held_def e register_sel(1) slots_ok_def\<close>)
    moreover have "q_len (entry ?b (the (q_testcase_cache ?b t))) = q_len (entry a q)" by (simp add: register_sel(1) e q(1))
    ultimately show ?thesis unfolding held_len_def [of ?b] h(1) sum.insert [OF fin(2) h(2)] by simp
  qed
  have "q_testcase_cache_size ?b = q_testcase_cache_size a + of_nat (q_len (entry a q))"
    using q(1) by (simp add: cache_register_def Let_def upd_entry_def)
  then have z': "q_testcase_cache_size ?b = of_nat (held_len ?b) + off" by (simp add: z hl)
  have "slots_ok ?b"
    unfolding slots_ok_def
  proof (intro allI impI)
    fix i p assume i: "q_testcase_cache ?b i = Some p"
    show "i < q_testcase_max_cache_count ?b \<and> p < length (queue_buf ?b) \<and> q_testcase_buf (entry ?b p) \<noteq> None \<and>
      (\<forall>j. q_testcase_cache ?b j = Some p \<longrightarrow> j = i)"
    proof (cases "i = t")
      case True
      then show ?thesis using i q(1) by (auto simp: register_sel(1,5) e split: if_splits dest: other)
    next
      case False
      then have i: "q_testcase_cache a i = Some p" using i by (simp add: register_sel)
      with s have "i < q_testcase_max_cache_count a" "p < length (queue_buf a)" "q_testcase_buf (entry a p) \<noteq> None"
        "\<And>j. q_testcase_cache a j = Some p \<Longrightarrow> j = i" by (auto simp: slots_ok_def)
      with other [OF i] show ?thesis by (auto simp: register_sel(1,5) e split: if_splits)
    qed
  qed
  moreover have "buffers_ok file ?b"
    unfolding buffers_ok_def
  proof (intro allI impI)
    fix p b assume "p < length (queue_buf ?b)" and b: "q_testcase_buf (entry ?b p) = Some b"
    then have p: "p < length (queue_buf a)" by simp
    show "(\<exists>i. q_testcase_cache ?b i = Some p) \<and> q_len (entry ?b p) \<le> length b \<and> file p = Some (take (q_len (entry ?b p)) b)"
    proof (cases "p = q")
      case True
      then show ?thesis using b c p by (auto simp: e register_sel(1) intro!: exI [of _ t])
    next
      case False
      with b p have "q_testcase_buf (entry a p) = Some b" by (simp add: e)
      with bu p obtain i where "q_testcase_cache a i = Some p" "q_len (entry a p) \<le> length b" "file p = Some (take (q_len (entry a p)) b)"
        by (auto simp: buffers_ok_def)
      with False p t(1) show ?thesis by (auto simp: e register_sel(1) intro!: exI [of _ i])
    qed
  qed
  moreover have "limits_ok ?b"
    using l t by (auto simp: limits_ok_def register_sel(1,2,5,6) less_Suc_eq)
  moreover have "files_ok file ?b" using f files_ok_bare bare_queue_register by metis
  moreover have "card (held a) < q_testcase_max_cache_entries a"
  proof -
    have "insert t (held a) \<subseteq> {..<q_testcase_max_cache_entries a}" using fin(1) t(2) l by (auto simp: limits_ok_def)
    from card_mono [OF _ this] show ?thesis using fin(2) h(2) by simp
  qed
  then have "q_testcase_cache_count ?b = card (held ?b)"
    using n h fin(2) l by (simp add: register_sel(4) limits_ok_def)
  ultimately show ?thesis using z' by (simp add: cache_inv_def)
qed

section \<open>The operations\<close>

lemma load_file_ok: "files_ok file a \<Longrightarrow> q < length (queue_buf a) \<Longrightarrow> \<exists>c. load_file file q (q_len (entry a q)) = Inr c \<and> file q = Some c \<and> length c = q_len (entry a q)"
  by (auto simp: files_ok_def load_file_def dest!: spec [of _ q])

lemma evicted_room:
  assumes "cache_inv file off a" and "\<not> must_evict n a"
  shows "q_testcase_cache_count a < q_testcase_max_cache_entries a - 1" and "full_by_size n a \<longrightarrow> q_testcase_cache_count a \<le> 1"
proof -
  have "0 < q_testcase_max_cache_entries a" "q_testcase_max_cache_entries a < 2 ^ 32" using assms(1) by (auto simp: cache_inv_def limits_ok_def)
  from dec32 [OF this] assms(2) show "q_testcase_cache_count a < q_testcase_max_cache_entries a - 1"
    "full_by_size n a \<longrightarrow> q_testcase_cache_count a \<le> 1" by (auto simp: must_evict_def not_le)
qed

context random_source
begin

lemma get_ok:
  assumes inv: "cache_inv file off (ca_afl s)" and q: "q < length (queue_buf (ca_afl s))"
  shows "case queue_testcase_get rs file q s of
      Inl e \<Rightarrow> e = CE_STOP No_return
    | Inr ((p, b), s') \<Rightarrow> q_len (entry (ca_afl s) q) \<le> length b \<and> file q = Some (take (q_len (entry (ca_afl s) q)) b) \<and>
        cache_inv file off (ca_afl s') \<and> bare_queue (ca_afl s') = bare_queue (ca_afl s) \<and>
        (p = In_cache \<longrightarrow> q_testcase_buf (entry (ca_afl s') q) = Some b) \<and>
        (1 \<le> q_weight (entry (ca_afl s) q) \<and> q_testcase_max_cache_size (ca_afl s) \<noteq> 0 \<longrightarrow> p = In_cache) \<and>
        q_testcase_max_cache_size (ca_afl s') = q_testcase_max_cache_size (ca_afl s) \<and>
        (q_testcase_buf (entry (ca_afl s) q) = None \<and> p = In_cache \<longrightarrow>
           (unat (q_testcase_cache_size (ca_afl s')) < q_testcase_max_cache_size (ca_afl s') \<or> q_testcase_cache_count (ca_afl s') \<le> 2) \<and>
           q_testcase_cache_count (ca_afl s') < q_testcase_max_cache_entries (ca_afl s')) \<and>
        (\<forall>i. q_testcase_cache (ca_afl s) i \<noteq> None \<and> q_testcase_cache (ca_afl s) i = queue_cur (ca_afl s) \<longrightarrow>
           q_testcase_cache (ca_afl s') i = queue_cur (ca_afl s))"
proof -
  let ?a = "ca_afl s" and ?n = "q_len (entry (ca_afl s) q)"
  have f: "files_ok file ?a" and bu: "buffers_ok file ?a" using inv by (auto simp: cache_inv_def)
  obtain c where c: "load_file file q ?n = Inr c" "file q = Some c" "length c = ?n" using load_file_ok [OF f q] by blast
  show ?thesis
  proof (cases "q_testcase_buf (entry ?a q)")
    case (Some b)
    then show ?thesis using bu q inv by (auto simp: queue_testcase_get_def Let_def buffers_ok_def)
  next
    case None
    show ?thesis
    proof (cases "q_weight (entry ?a q) < 1 \<or> q_testcase_max_cache_size ?a = 0")
      case True
      then show ?thesis using None c inv by (auto simp: queue_testcase_get_def Let_def)
    next
      case False
      obtain y where y: "evict_loop rs ?n (q_testcase_max_cache_count ?a) s = Some y"
        "case y of Inl e \<Rightarrow> e = CE_STOP No_return
         | Inr (t, s') \<Rightarrow> cache_inv file off (ca_afl s') \<and> kept ?a (ca_afl s') \<and> \<not> must_evict ?n (ca_afl s') \<and>
           (t = q_testcase_max_cache_count ?a \<and> s' = s \<or> q_testcase_cache (ca_afl s') t = None \<and> t < q_testcase_max_cache_count (ca_afl s'))"
        using evict_loop_ok [OF inv] by blast
      show ?thesis
      proof (cases y)
        case (Inl e)
        then show ?thesis using y None False by (simp add: queue_testcase_get_def Let_def)
      next
        case (Inr z)
        obtain t s' where z: "z = (t, s')" by (cases z)
        let ?b = "ca_afl s'"
        have i: "cache_inv file off ?b" "kept ?a ?b" "\<not> must_evict ?n ?b"
          and t: "t = q_testcase_max_cache_count ?b \<or> q_testcase_cache ?b t = None \<and> t < q_testcase_max_cache_count ?b"
          using y(2) by (auto simp: Inr z kept_def)
        have bq: "bare_queue ?b = bare_queue ?a" "q_testcase_max_cache_size ?b = q_testcase_max_cache_size ?a" "queue_cur ?b = queue_cur ?a"
          using i(2) by (auto simp: kept_def)
        have q': "q < length (queue_buf ?b)" using q bare_queue_length [OF bq(1)] by simp
        have n': "q_len (entry ?b q) = ?n" using bare_queue_entry [OF bq(1)] q' by simp
        note room = evicted_room [OF i(1,3)]
        have nb: "q_testcase_buf (entry ?b q) = None"
        proof (rule ccontr)
          assume "q_testcase_buf (entry ?b q) \<noteq> None"
          then obtain j where "q_testcase_cache ?b j = Some q" using i(1) q' by (auto simp: cache_inv_def buffers_ok_def)
          with i(2) have "q_testcase_cache ?a j = Some q" by (auto simp: kept_def held_def)
          with slot_buffer [of ?a j q] inv None show False by (simp add: cache_inv_def)
        qed
        obtain u where u: "find_free ?b (if t \<ge> q_testcase_max_cache_entries ?b then q_testcase_smallest_free ?b else t) = Inr u"
          "u < q_testcase_max_cache_entries ?b" "q_testcase_cache ?b u = None"
          using slot_found [OF i(1) less_le_trans [OF room(1) diff_le_self] t] by blast
        have g: "queue_testcase_get rs file q s = Inr ((In_cache, c), s'\<lparr>ca_afl := cache_register q c u ?b\<rparr>)"
          using None False y(1) u(1) c(1) unfolding queue_testcase_get_def by (simp add: Inr z Let_def)
        have r: "cache_inv file off (cache_register q c u ?b)"
          by (rule register_inv [OF i(1) u(3,2) q' nb]) (use c n' in auto)
        have "q_testcase_cache_count ?b + 1 < 2 ^ 32" using room(1) i(1) by (auto simp: cache_inv_def limits_ok_def)
        then have cnt: "q_testcase_cache_count (cache_register q c u ?b) = q_testcase_cache_count ?b + 1"
          by (simp add: register_sel(4))
        have "q_testcase_cache_size (cache_register q c u ?b) = q_testcase_cache_size ?b + of_nat ?n"
          using q' n' by (simp add: cache_register_def Let_def upd_entry_def)
        then have size: "unat (q_testcase_cache_size (cache_register q c u ?b)) < q_testcase_max_cache_size ?b \<or>
            q_testcase_cache_count (cache_register q c u ?b) \<le> 2"
          using room(2) by (auto simp: full_by_size_def cnt not_le)
        have buf: "q_testcase_buf (entry (cache_register q c u ?b) q) = Some c" using q' by (simp add: register_sel(7) upd_entry_def)
        have cur: "\<forall>j. q_testcase_cache ?a j \<noteq> None \<and> q_testcase_cache ?a j = queue_cur ?a \<longrightarrow>
            q_testcase_cache (cache_register q c u ?b) j = queue_cur ?a"
        proof (intro allI impI)
          fix j assume j: "q_testcase_cache ?a j \<noteq> None \<and> q_testcase_cache ?a j = queue_cur ?a"
          then have "q_testcase_cache ?b j = q_testcase_cache ?a j" using i(2) by (auto simp: kept_def held_def)
          with j u(3) show "q_testcase_cache (cache_register q c u ?b) j = queue_cur ?a" by (auto simp: register_sel(1))
        qed
        have room': "Suc (q_testcase_cache_count ?b) < q_testcase_max_cache_entries ?b" using room(1) by linarith
        show ?thesis
          unfolding g sum.case prod.case using c r bq size cnt buf cur room'
          by (simp add: register_sel(2,3))
      qed
    qed
  qed
qed

end

section \<open>What the fuzzer can rely on\<close>

text \<open>C7. \<open>queue_testcase_get\<close> returns the contents of the file of the entry and keeps the cache consistent: distinct
  entries in slots below the limit, buffers exactly for the cached entries, the recorded number and size equal to
  what is held. The current entry is never evicted, and after loading an entry the cache is below its size limit or
  holds at most two entries. The only way not to return is a draw that never hits another entry than the current one.\<close>

theorem testcase_get_correct:
  assumes "cache_inv file 0 (ca_afl s)" and "q < length (queue_buf (ca_afl s))"
  shows "case queue_testcase_get (afl_rand urandom) file q s of
      Inl e \<Rightarrow> e = CE_STOP No_return
    | Inr ((p, b), s') \<Rightarrow> q_len (entry (ca_afl s) q) \<le> length b \<and> file q = Some (take (q_len (entry (ca_afl s) q)) b) \<and>
        cache_inv file 0 (ca_afl s') \<and> bare_queue (ca_afl s') = bare_queue (ca_afl s) \<and>
        (q_testcase_buf (entry (ca_afl s) q) = None \<and> p = In_cache \<longrightarrow>
           unat (q_testcase_cache_size (ca_afl s')) < q_testcase_max_cache_size (ca_afl s) \<or> q_testcase_cache_count (ca_afl s') \<le> 2) \<and>
        (\<forall>i. q_testcase_cache (ca_afl s) i \<noteq> None \<and> q_testcase_cache (ca_afl s) i = queue_cur (ca_afl s) \<longrightarrow>
           q_testcase_cache (ca_afl s') i = queue_cur (ca_afl s))"
  using romu.get_ok [OF assms, of urandom] by (auto split: sum.splits)

definition one_file :: "afl_state" where
  "one_file = (campaign_start 64)\<lparr>queue_buf := [queue_entry_zero\<lparr>q_len := 2, q_weight := 1\<rparr>]\<rparr>"

lemma one_file_inv: "cache_inv (\<lambda>_. Some [1, 2]) 0 one_file"
  by (simp add: cache_inv_def slots_ok_def buffers_ok_def limits_ok_def files_ok_def held_def held_len_def one_file_def
      campaign_start_eq queue_entry_zero_def)

theorem testcase_get_correct_witness:
  "case queue_testcase_get (afl_rand (\<lambda>_. (0, 0, 0))) (\<lambda>_. Some [1, 2]) 0
      \<lparr>ca_afl = one_file, ca_once = False, ca_rand = \<lparr>rand_seed0 = 7, rand_seed1 = 3, rand_seed2 = 1, rand_cnt = 5, init_seed = 0, rand_fixed = True, urandom_reads = 0\<rparr>\<rparr> of
      Inl e \<Rightarrow> e = CE_STOP No_return
    | Inr ((p, b), s') \<Rightarrow> 2 \<le> length b \<and> [1, 2] = take 2 b \<and> cache_inv (\<lambda>_. Some [1, 2]) 0 (ca_afl s')"
proof -
  let ?s = "\<lparr>ca_afl = one_file, ca_once = False, ca_rand = \<lparr>rand_seed0 = 7, rand_seed1 = 3, rand_seed2 = 1, rand_cnt = 5, init_seed = 0, rand_fixed = True, urandom_reads = 0\<rparr>\<rparr>"
  have "cache_inv (\<lambda>_. Some [1, 2]) 0 (ca_afl ?s)" "0 < length (queue_buf (ca_afl ?s))" "q_len (entry (ca_afl ?s) 0) = 2"
    using one_file_inv by (simp_all add: one_file_def)
  from testcase_get_correct [OF this(1,2), of "\<lambda>_. (0, 0, 0)"] this(3) show ?thesis by (auto split: sum.splits)
qed

end
