(* ===== verification/Hashmap.thy ===== *)
theory Hashmap
  imports Prelude "HOL-Library.Multiset"
begin

unbundle bit_operations_syntax

text \<open>
  The hash table of \<open>src/hashmap.c\<close>, with which the comparison-log stage recognises operands it has
  tried. A chain of nodes is the list of its keys; \<open>None\<close> is the table before \<open>hashmap_reset\<close>, or an
  access through a null pointer where an operation returns it. Allocation does not fail.
\<close>

section \<open>The table\<close>

definition TABLE_SIZE :: nat where "TABLE_SIZE = 10007"

record HashMap =
  hm_table :: "u64 list list"

definition hashmap_reset :: "HashMap option \<Rightarrow> HashMap option" where
  "hashmap_reset g = (case g of
      None \<Rightarrow> Some \<lparr>hm_table = replicate TABLE_SIZE []\<rparr>
    | Some m \<Rightarrow> Some (m\<lparr>hm_table := replicate TABLE_SIZE []\<rparr>))"

definition hash_index :: "u64 \<Rightarrow> nat" where
  "hash_index key = unat key mod TABLE_SIZE"

text \<open>The loops over a chain: search, and removal of the first node with the key.\<close>

fun chain_search :: "u64 \<Rightarrow> u64 list \<Rightarrow> bool" where
  "chain_search key [] = False"
| "chain_search key (n # node) = (if n = key then True else chain_search key node)"

fun chain_unlink :: "u64 \<Rightarrow> u64 list \<Rightarrow> u64 list" where
  "chain_unlink key [] = []"
| "chain_unlink key (n # node) = (if n = key then node else n # chain_unlink key node)"

definition hashmap_search :: "u64 \<Rightarrow> HashMap \<Rightarrow> bool" where
  "hashmap_search key m = chain_search key (hm_table m ! hash_index key)"

definition hashmap_insert :: "u64 \<Rightarrow> HashMap \<Rightarrow> HashMap" where
  "hashmap_insert key m =
    (let index = hash_index key in m\<lparr>hm_table := (hm_table m)[index := key # hm_table m ! index]\<rparr>)"

definition hashmap_delete :: "u64 \<Rightarrow> HashMap \<Rightarrow> HashMap" where
  "hashmap_delete key m =
    (let index = hash_index key in m\<lparr>hm_table := (hm_table m)[index := chain_unlink key (hm_table m ! index)]\<rparr>)"

text \<open>The stored key: the type replaces the bits 56 to 58 of the operand.\<close>

definition stored_key :: "u8 \<Rightarrow> u64 \<Rightarrow> u64" where
  "stored_key type key = (key AND 0xf8ffffffffffffff) + push_bit 56 (ucast type)"

definition hashmap_search_and_add :: "u8 \<Rightarrow> u64 \<Rightarrow> HashMap option \<Rightarrow> (bool \<times> HashMap option) option" where
  "hashmap_search_and_add type key g =
    (if type \<ge> 8 then Some (False, g)
     else case g of
       None \<Rightarrow> None
     | Some m \<Rightarrow>
         let val = stored_key type key; index = hash_index val; node = hm_table m ! index in
         if chain_search val node then Some (True, g)
         else Some (False, Some (m\<lparr>hm_table := (hm_table m)[index := val # node]\<rparr>)))"

text \<open>The operand is copied to the address \<open>7 - type\<close>: \<open>key_t\<close>, which is 0, is used as a pointer.\<close>

definition hashmap_search_and_add_ptr :: "u8 \<Rightarrow> buf \<Rightarrow> HashMap option \<Rightarrow> (bool \<times> HashMap option) option" where
  "hashmap_search_and_add_ptr type key g = (if type \<ge> 8 then Some (False, g) else None)"

section \<open>The table is a multiset of keys\<close>

definition hashmap_wf :: "HashMap \<Rightarrow> bool" where
  "hashmap_wf m \<longleftrightarrow> length (hm_table m) = TABLE_SIZE \<and> (\<forall>i < TABLE_SIZE. \<forall>k \<in> set (hm_table m ! i). hash_index k = i)"

definition contents :: "HashMap \<Rightarrow> u64 multiset" where
  "contents m = mset (concat (hm_table m))"

lemma hash_index_less [simp]: "hash_index k < TABLE_SIZE"
  by (simp add: hash_index_def TABLE_SIZE_def)

lemma chain_search_iff [simp]: "chain_search k c \<longleftrightarrow> k \<in> set c"
  by (induction c) auto

lemma mset_chain_unlink [simp]: "mset (chain_unlink k c) = mset c - {#k#}"
  by (induction c) auto

lemma set_chain_unlink: "set (chain_unlink k c) \<subseteq> set c"
  by (induction c) auto

lemma mset_concat_update:
  "i < length t \<Longrightarrow> mset (concat (t[i := c])) = mset (concat t) - mset (t ! i) + mset c"
proof (induction t arbitrary: i)
  case (Cons d t)
  then show ?case
  proof (cases i)
    case (Suc j)
    then have j: "j < length t" using Cons.prems by simp
    have "mset (concat t) = mset (concat (take j t @ t ! j # drop (Suc j) t))" using id_take_nth_drop [OF j] by simp
    then obtain R where "mset (concat t) = mset (t ! j) + R" by simp
    then show ?thesis using Cons.IH [OF j] Suc by simp
  qed simp
qed simp

lemma in_contents:
  assumes "hashmap_wf m"
  shows "k \<in># contents m \<longleftrightarrow> k \<in> set (hm_table m ! hash_index k)"
proof
  assume "k \<in># contents m"
  then obtain c where "c \<in> set (hm_table m)" "k \<in> set c" by (auto simp: contents_def)
  then obtain i where "i < TABLE_SIZE" "hm_table m ! i = c" using assms by (metis hashmap_wf_def in_set_conv_nth)
  with assms \<open>k \<in> set c\<close> show "k \<in> set (hm_table m ! hash_index k)" by (auto simp: hashmap_wf_def)
next
  assume "k \<in> set (hm_table m ! hash_index k)"
  moreover have "hm_table m ! hash_index k \<in> set (hm_table m)" using assms by (simp add: hashmap_wf_def)
  ultimately show "k \<in># contents m" by (auto simp: contents_def)
qed

lemma chain_subset:
  assumes "hashmap_wf m" and "i < TABLE_SIZE"
  shows "mset (hm_table m ! i) \<subseteq># contents m"
proof -
  have i: "i < length (hm_table m)" using assms by (simp add: hashmap_wf_def)
  have "mset (concat (hm_table m)) = mset (concat (take i (hm_table m) @ hm_table m ! i # drop (Suc i) (hm_table m)))"
    using id_take_nth_drop [OF i] by simp
  then show ?thesis by (simp add: contents_def)
qed

lemma update_chain:
  assumes "hashmap_wf m" and "i < TABLE_SIZE" and "\<forall>k \<in> set c. hash_index k = i"
  shows "hashmap_wf (m\<lparr>hm_table := (hm_table m)[i := c]\<rparr>)"
    and "contents (m\<lparr>hm_table := (hm_table m)[i := c]\<rparr>) = contents m - mset (hm_table m ! i) + mset c"
  using assms by (auto simp: hashmap_wf_def contents_def mset_concat_update nth_list_update)

lemma search_correct: "hashmap_wf m \<Longrightarrow> hashmap_search k m \<longleftrightarrow> k \<in># contents m"
  by (simp add: hashmap_search_def in_contents)

lemma chain_of_wf: "hashmap_wf m \<Longrightarrow> i < TABLE_SIZE \<Longrightarrow> \<forall>k \<in> set (hm_table m ! i). hash_index k = i"
  by (simp add: hashmap_wf_def)

lemma insert_chain:
  fixes k
  assumes "hashmap_wf m"
  defines "m' \<equiv> m\<lparr>hm_table := (hm_table m)[hash_index k := k # hm_table m ! hash_index k]\<rparr>"
  shows "hashmap_wf m' \<and> contents m' = add_mset k (contents m)"
proof -
  have c: "\<forall>l \<in> set (k # hm_table m ! hash_index k). hash_index l = hash_index k"
    using chain_of_wf [OF assms(1) hash_index_less] by auto
  show ?thesis
    using update_chain [OF assms(1) hash_index_less c] chain_subset [OF assms(1) hash_index_less [of k]]
    by (simp add: m'_def)
qed

lemma insert_correct: "hashmap_wf m \<Longrightarrow> hashmap_wf (hashmap_insert k m) \<and> contents (hashmap_insert k m) = add_mset k (contents m)"
  using insert_chain by (simp add: hashmap_insert_def Let_def)

lemma delete_correct:
  assumes "hashmap_wf m"
  shows "hashmap_wf (hashmap_delete k m) \<and> contents (hashmap_delete k m) = contents m - {#k#}"
proof -
  let ?c = "hm_table m ! hash_index k"
  have c: "\<forall>l \<in> set (chain_unlink k ?c). hash_index l = hash_index k"
    using chain_of_wf [OF assms hash_index_less] set_chain_unlink by fastforce
  have "contents m - mset ?c + (mset ?c - {#k#}) = contents m - {#k#}"
  proof (cases "k \<in> set ?c")
    case True
    then have "{#k#} \<subseteq># mset ?c" by simp
    with chain_subset [OF assms hash_index_less [of k]] show ?thesis
      by (metis subset_mset.add_diff_assoc subset_mset.diff_add)
  next
    case False
    then have "k \<notin># contents m" "k \<notin># mset ?c" using in_contents [OF assms] by auto
    with chain_subset [OF assms hash_index_less [of k]] show ?thesis
      by (simp add: diff_single_trivial)
  qed
  with update_chain [OF assms hash_index_less c] show ?thesis by (simp add: hashmap_delete_def Let_def)
qed

section \<open>The filter\<close>

text \<open>A filter answers whether it has seen the code of a query, and remembers it; a query without a code
  is never seen.\<close>

fun answers :: "('q \<Rightarrow> 's \<Rightarrow> bool \<times> 's) \<Rightarrow> 'q list \<Rightarrow> 's \<Rightarrow> bool list" where
  "answers step [] s = []"
| "answers step (q # qs) s = (let (b, s) = step q s in b # answers step qs s)"

locale seen_filter =
  fixes step :: "'q \<Rightarrow> 's \<Rightarrow> bool \<times> 's" and inv :: "'s \<Rightarrow> bool"
    and seen :: "'s \<Rightarrow> 'c set" and code :: "'q \<Rightarrow> 'c option"
  assumes answer: "inv s \<Longrightarrow> fst (step q s) \<longleftrightarrow> set_option (code q) \<inter> seen s \<noteq> {}"
    and inv_step: "inv s \<Longrightarrow> inv (snd (step q s))"
    and seen_step: "inv s \<Longrightarrow> seen (snd (step q s)) = seen s \<union> set_option (code q)"
begin

lemma answers_seen:
  "inv s \<Longrightarrow> answers step qs s =
    map (\<lambda>i. set_option (code (qs ! i)) \<inter> (seen s \<union> (\<Union>q \<in> set (take i qs). set_option (code q))) \<noteq> {}) [0..<length qs]"
proof (induction qs arbitrary: s)
  case (Cons q qs)
  obtain b s' where e: "step q s = (b, s')" by fastforce
  have s': "inv s'" "seen s' = seen s \<union> set_option (code q)" "b \<longleftrightarrow> set_option (code q) \<inter> seen s \<noteq> {}"
    using answer [OF Cons.prems, of q] inv_step [OF Cons.prems, of q] seen_step [OF Cons.prems, of q] by (simp_all add: e)
  show ?case
    using Cons.IH [OF s'(1)] s'(2,3) by (simp add: e upt_conv_Cons map_Suc_upt [symmetric] Un_assoc del: upt_Suc)
qed simp

end

text \<open>One query to a table that exists.\<close>

definition ask :: "u8 \<times> u64 \<Rightarrow> HashMap \<Rightarrow> bool \<times> HashMap" where
  "ask = (\<lambda>(type, key) m. case hashmap_search_and_add type key (Some m) of Some (b, Some m) \<Rightarrow> (b, m) | _ \<Rightarrow> (False, m))"

definition query_code :: "u8 \<times> u64 \<Rightarrow> u64 option" where
  "query_code = (\<lambda>(type, key). if type \<ge> 8 then None else Some (stored_key type key))"

lemma ask_unfold:
  "ask (type, key) m =
    (if type \<ge> 8 then (False, m)
     else if hashmap_search (stored_key type key) m then (True, m) else (False, hashmap_insert (stored_key type key) m))"
  by (simp add: ask_def hashmap_search_and_add_def hashmap_search_def hashmap_insert_def Let_def)

interpretation operands: seen_filter ask hashmap_wf "\<lambda>m. set_mset (contents m)" query_code
  by unfold_locales
    (auto simp: ask_unfold query_code_def search_correct insert_correct split: if_splits)

section \<open>What the comparison-log stage relies on\<close>

fun ask_all :: "(u8 \<times> u64) list \<Rightarrow> HashMap option \<Rightarrow> bool list option" where
  "ask_all [] g = Some []"
| "ask_all ((type, key) # qs) g = (case hashmap_search_and_add type key g of
      None \<Rightarrow> None
    | Some (b, g) \<Rightarrow> map_option ((#) b) (ask_all qs g))"

text \<open>C31. The table refines a multiset of keys: a search finds what is in it, an insertion adds one copy of the key
  and a deletion removes one.\<close>

theorem hashmap_refines_multiset:
  assumes "hashmap_wf m"
  shows "(hashmap_search k m \<longleftrightarrow> k \<in># contents m) \<and>
    hashmap_wf (hashmap_insert k m) \<and> contents (hashmap_insert k m) = add_mset k (contents m) \<and>
    hashmap_wf (hashmap_delete k m) \<and> contents (hashmap_delete k m) = contents m - {#k#}"
  using search_correct [OF assms] insert_correct [OF assms] delete_correct [OF assms] by simp

theorem hashmap_refines_multiset_witness:
  "hashmap_search 5 (hashmap_insert 5 \<lparr>hm_table = replicate TABLE_SIZE []\<rparr>)"
proof -
  have w: "hashmap_wf \<lparr>hm_table = replicate TABLE_SIZE []\<rparr>" by (simp add: hashmap_wf_def)
  from hashmap_refines_multiset [OF this, of 5]
  have "hashmap_wf (hashmap_insert 5 \<lparr>hm_table = replicate TABLE_SIZE []\<rparr>)"
    "5 \<in># contents (hashmap_insert 5 \<lparr>hm_table = replicate TABLE_SIZE []\<rparr>)" by simp_all
  then show ?thesis by (simp add: search_correct)
qed

end
