(* ===== verification/Run.thy ===== *)
theory Run
  imports Cache "HOL-Library.Sublist"
begin

unbundle bit_operations_syntax

text \<open>
  Running the target: \<open>afl_fsrv_run_target\<close> (\<open>src/afl-forkserver.c\<close>) and the functions around it in
  \<open>src/afl-fuzz-run.c\<close>, without custom mutators, IJON, Nyx and persistent records. What the fork server
  answers to an input is a parameter; no answer at all has \<open>an_ms = 0\<close>. The fork server is up.
\<close>

section \<open>The fork server\<close>

datatype run_exit = RX_FATAL fatal | RX_OUT_OF_BOUNDS

record answer =
  an_ms :: nat
  an_status :: nat
  an_trace :: buf
  an_stop :: bool
  an_skip :: bool

text \<open>The answer depends on whether the previous run timed out, the input and the timeout; the clock
  runs in the environment.\<close>

record 'e target =
  tg_answer :: "bool \<Rightarrow> buf \<Rightarrow> nat \<Rightarrow> 'e \<Rightarrow> answer \<times> 'e"
  tg_now :: "'e \<Rightarrow> nat \<times> 'e"
  tg_uses_asan :: nat
  tg_uses_crash_exitcode :: bool
  tg_crash_exitcode :: nat

record 'e rn =
  rn_afl :: afl_state
  rn_env :: 'e
  rn_file :: "nat \<Rightarrow> buf option"
  last_run_timed_out :: bool
  stop_soon :: bool
  skip_requested :: bool
  subseq_tmouts :: nat
  cur_skipped_items :: nat
  trim_execs :: u64
  bytes_trim_in :: u64
  bytes_trim_out :: u64

definition EXEC_FAIL_SIG :: u32 where "EXEC_FAIL_SIG = 0xfee1dead"
definition MSAN_ERROR :: nat where "MSAN_ERROR = 86"
definition LSAN_ERROR :: nat where "LSAN_ERROR = 23"
definition TMOUT_LIMIT :: nat where "TMOUT_LIMIT = 250"

definition WIFSIGNALED :: "nat \<Rightarrow> bool" where
  "WIFSIGNALED st \<longleftrightarrow> st mod 128 \<noteq> 0 \<and> st mod 128 \<noteq> 127"

definition WEXITSTATUS :: "nat \<Rightarrow> nat" where
  "WEXITSTATUS st = st div 256 mod 256"

definition is_crash :: "'e target \<Rightarrow> nat \<Rightarrow> bool" where
  "is_crash tg st \<longleftrightarrow> WIFSIGNALED st \<or>
     tg_uses_asan tg AND 4 \<noteq> 0 \<and> WEXITSTATUS st = MSAN_ERROR \<or>
     tg_uses_asan tg AND 2 \<noteq> 0 \<and> WEXITSTATUS st = LSAN_ERROR \<or>
     tg_uses_crash_exitcode tg \<and> WEXITSTATUS st = tg_crash_exitcode tg"

text \<open>The trace is cleared before the run; the target writes what it has.\<close>

definition written_trace :: "nat \<Rightarrow> buf \<Rightarrow> buf" where
  "written_trace n t = take n t @ replicate (n - length t) 0"

definition afl_fsrv_run_target :: "'e target \<Rightarrow> buf \<Rightarrow> nat \<Rightarrow> 'e rn \<Rightarrow> run_exit + fsrv_run_result \<times> 'e rn" where
  "afl_fsrv_run_target tg mem timeout s =
    (let (an, e) = tg_answer tg (last_run_timed_out s) mem timeout (rn_env s);
         a = rn_afl s; late = an_ms an > timeout;
         tr = written_trace (map_size (fsrv a)) (an_trace an);
         s = s\<lparr>rn_env := e, last_run_timed_out := late, stop_soon := stop_soon s \<or> an_stop an,
               skip_requested := skip_requested s \<or> an_skip an, rn_afl := set_trace tr a\<rparr>
     in if an_ms an = 0
        then if stop_soon s then Inr (FSRV_RUN_OK, s) else Inl (RX_FATAL (FatalMsg ''Unable to communicate with fork server''))
        else
          let s = s\<lparr>rn_afl := (rn_afl s)\<lparr>fsrv := (fsrv (rn_afl s))\<lparr>total_execs := total_execs (fsrv a) + 1\<rparr>\<rparr>\<rparr>
          in Inr (if le_word (take 4 tr) = EXEC_FAIL_SIG then FSRV_RUN_ERROR
                  else if late then FSRV_RUN_TMOUT
                  else if is_crash tg (an_status an) then FSRV_RUN_CRASH
                  else FSRV_RUN_OK, s))"

definition fuzz_run_target :: "'e target \<Rightarrow> buf \<Rightarrow> nat \<Rightarrow> 'e rn \<Rightarrow> run_exit + fsrv_run_result \<times> 'e rn" where
  "fuzz_run_target tg mem timeout s = afl_fsrv_run_target tg mem timeout s"

section \<open>Sending inputs\<close>

text \<open>The result is what the target gets; its length is the returned length.\<close>

definition write_to_testcase :: "afl_state \<Rightarrow> buf \<Rightarrow> nat \<Rightarrow> bool \<Rightarrow> run_exit + buf" where
  "write_to_testcase a mem n fix =
    (let n = (if n < min_length a \<and> \<not> fix then min_length a else if n > max_length a then max_length a else n)
     in if n > length mem then Inl RX_OUT_OF_BOUNDS else Inr (take n mem))"

definition write_with_gap :: "buf \<Rightarrow> nat \<Rightarrow> nat \<Rightarrow> nat \<Rightarrow> buf" where
  "write_with_gap mem n skip_at skip_len = take skip_at mem @ take (n - skip_at - skip_len) (drop (skip_at + skip_len) mem)"

text \<open>\<open>save\<close> is \<open>save_if_interesting\<close>; the result says whether to abandon the entry.\<close>

definition common_fuzz_stuff ::
    "'e target \<Rightarrow> (buf \<Rightarrow> fsrv_run_result \<Rightarrow> 'e rn \<Rightarrow> run_exit + nat \<times> 'e rn) \<Rightarrow> buf \<Rightarrow> 'e rn \<Rightarrow> run_exit + bool \<times> 'e rn" where
  "common_fuzz_stuff tg save out s =
    bind_err (write_to_testcase (rn_afl s) out (length out) False) (\<lambda>inp.
      if inp = [] then Inr (False, s)
      else bind_err (fuzz_run_target tg inp (exec_tmout (fsrv (rn_afl s))) s) (\<lambda>(fault, s).
        if stop_soon s then Inr (True, s)
        else if fault = FSRV_RUN_TMOUT \<and> subseq_tmouts s > TMOUT_LIMIT
        then Inr (True, s\<lparr>subseq_tmouts := (subseq_tmouts s + 1) mod 2 ^ 32, cur_skipped_items := (cur_skipped_items s + 1) mod 2 ^ 32\<rparr>)
        else
          let s = (if fault = FSRV_RUN_TMOUT then s\<lparr>subseq_tmouts := (subseq_tmouts s + 1) mod 2 ^ 32\<rparr> else s\<lparr>subseq_tmouts := 0\<rparr>)
          in if skip_requested s
             then Inr (True, s\<lparr>skip_requested := False, cur_skipped_items := (cur_skipped_items s + 1) mod 2 ^ 32\<rparr>)
             else bind_err (save inp fault s) (\<lambda>(n, s).
               Inr (False, s\<lparr>rn_afl := (rn_afl s)\<lparr>queued_discovered := queued_discovered (rn_afl s) + n\<rparr>\<rparr>))))"

section \<open>Calibration\<close>

definition CAL_CYCLES_FAST :: nat where "CAL_CYCLES_FAST = 3"
definition CAL_CYCLES :: nat where "CAL_CYCLES = 7"
definition CAL_CYCLES_LONG :: nat where "CAL_CYCLES_LONG = 12"
definition CAL_TMOUT_PERC :: nat where "CAL_TMOUT_PERC = 125"
definition CAL_TMOUT_ADD :: nat where "CAL_TMOUT_ADD = 50"

record 'e cal =
  cl_s :: "'e rn"
  cl_new_bits :: nat
  cl_var :: bool
  cl_max :: nat

definition upd_afl :: "(afl_state \<Rightarrow> afl_state) \<Rightarrow> 'e rn \<Rightarrow> 'e rn" where
  "upd_afl f s = s\<lparr>rn_afl := f (rn_afl s)\<rparr>"

definition upd_q :: "nat \<Rightarrow> (queue_entry \<Rightarrow> queue_entry) \<Rightarrow> 'e rn \<Rightarrow> 'e rn" where
  "upd_q q f s = upd_afl (upd_entry q f) s"

text \<open>A byte that differs from the first trace is marked as variable and as fully discovered.\<close>

definition mark_var :: "afl_state \<Rightarrow> nat \<Rightarrow> afl_state" where
  "mark_var a i =
    (if var_bytes a ! i = 0 \<and> first_trace a ! i \<noteq> trace a ! i
     then a\<lparr>var_bytes := (var_bytes a)[i := 1], virgin_bits := (virgin_bits a)[i := 0]\<rparr> else a)"

definition mark_vars :: "afl_state \<Rightarrow> afl_state" where
  "mark_vars a = fold (\<lambda>i a. mark_var a i) [0..<map_size (fsrv a)] a"

definition look_for_bits :: "'e cal \<Rightarrow> 'e cal" where
  "look_for_bits c =
    (let (hnb, a) = has_new_bits (rn_afl (cl_s c)) VIRGIN_BITS
     in c\<lparr>cl_s := (cl_s c)\<lparr>rn_afl := a\<rparr>, cl_new_bits := (if hnb > cl_new_bits c then hnb else cl_new_bits c)\<rparr>)"

definition cal_checksum :: "(buf \<Rightarrow> u64) \<Rightarrow> afl_state \<Rightarrow> u64" where
  "cal_checksum xxh a = hash64 xxh (take (map_size (fsrv a)) (trace a)) HASH_CONST"

definition cal_compare :: "(buf \<Rightarrow> u64) \<Rightarrow> bool \<Rightarrow> nat \<Rightarrow> 'e cal \<Rightarrow> 'e cal" where
  "cal_compare xxh fast q c =
    (let cksum = cal_checksum xxh (rn_afl (cl_s c)) in
     if q_exec_cksum (entry (rn_afl (cl_s c)) q) = cksum then c
     else
       let c = look_for_bits c; a = rn_afl (cl_s c)
       in if q_exec_cksum (entry a q) \<noteq> 0
          then c\<lparr>cl_s := upd_afl mark_vars (cl_s c), cl_var := True, cl_max := (if fast then CAL_CYCLES else CAL_CYCLES_LONG)\<rparr>
          else c\<lparr>cl_s := upd_afl (\<lambda>a. (upd_entry q (\<lambda>e. e\<lparr>q_exec_cksum := cksum\<rparr>) a)\<lparr>first_trace := trace a\<rparr>) (cl_s c)\<rparr>)"

text \<open>One run; the boolean is the jump to \<open>abort_calibration\<close>.\<close>

definition cal_iter ::
    "'e target \<Rightarrow> (buf \<Rightarrow> u64) \<Rightarrow> bool \<Rightarrow> nat \<Rightarrow> nat \<Rightarrow> buf \<Rightarrow> 'e cal \<Rightarrow> run_exit + bool \<times> fsrv_run_result \<times> 'e cal" where
  "cal_iter tg xxh fast use_tmout q mem c =
    bind_err (write_to_testcase (rn_afl (cl_s c)) mem (q_len (entry (rn_afl (cl_s c)) q)) True) (\<lambda>inp.
    bind_err (fuzz_run_target tg inp use_tmout (cl_s c)) (\<lambda>(fault, s).
      let c = c\<lparr>cl_s := s\<rparr>; a = rn_afl s
      in if stop_soon s \<or> fault \<noteq> crash_mode a then Inr (True, fault, c)
         else if \<not> non_instrumented_mode a \<and> count_bytes a (trace a) = 0 then Inr (True, FSRV_RUN_NOINST, c)
         else Inr (False, fault,
                cal_compare xxh fast q (c\<lparr>cl_s := upd_afl (\<lambda>a. a\<lparr>fsrv := classify_counts (fsrv a)\<rparr>) s\<rparr>))))"

partial_function (option) cal_loop ::
    "'e target \<Rightarrow> (buf \<Rightarrow> u64) \<Rightarrow> bool \<Rightarrow> nat \<Rightarrow> nat \<Rightarrow> buf \<Rightarrow> nat \<Rightarrow> fsrv_run_result \<Rightarrow> 'e cal
      \<Rightarrow> (run_exit + bool \<times> fsrv_run_result \<times> 'e cal) option" where
  "cal_loop tg xxh fast use_tmout q mem cur fault c =
    (if cur < cl_max c
     then (case cal_iter tg xxh fast use_tmout q mem c of
         Inl e \<Rightarrow> Some (Inl e)
       | Inr (stop, fault, c) \<Rightarrow>
           if stop then Some (Inr (True, fault, c)) else cal_loop tg xxh fast use_tmout q mem (cur + 1) fault c)
     else Some (Inr (False, fault, c)))"

text \<open>What a calibration that ran to its end records.\<close>

definition cal_record :: "'e target \<Rightarrow> nat \<Rightarrow> nat \<Rightarrow> nat \<Rightarrow> 'e cal \<Rightarrow> 'e cal" where
  "cal_record tg q handicap start_us c =
    (let s = cl_s c; a = rn_afl s;
         (diff_us, s) = (if fixed_seed a then ((exec_tmout (fsrv a) + 2 ^ 32 - 1) mod 2 ^ 32 * cl_max c, s)
                         else let (now, e) = tg_now tg (rn_env s)
                              in (if now = start_us then 1 else (now + 2 ^ 64 - start_us) mod 2 ^ 64, s\<lparr>rn_env := e\<rparr>));
         bytes = count_bytes a (trace a);
         s = upd_afl (\<lambda>a. a\<lparr>total_cal_us := total_cal_us a + diff_us, total_cal_cycles := total_cal_cycles a + cl_max c\<rparr>) s;
         s = upd_q q (\<lambda>e. e\<lparr>q_exec_us := (if diff_us div cl_max c = 0 then 1 else diff_us div cl_max c), q_bitmap_size := bytes,
                         q_handicap := handicap, q_cal_failed := 0\<rparr>) s;
         s = upd_afl (\<lambda>a. a\<lparr>total_bitmap_size := total_bitmap_size a + bytes, total_bitmap_entries := total_bitmap_entries a + 1\<rparr>) s
     in c\<lparr>cl_s := upd_afl (\<lambda>a. update_bitmap_score a q True) s\<rparr>)"

text \<open>The end of \<open>calibrate_case\<close>, which every path reaches.\<close>

definition cal_finish :: "nat \<Rightarrow> 'e cal \<Rightarrow> 'e rn" where
  "cal_finish q c =
    (let s = cl_s c;
         s = (if cl_new_bits c = 2 \<and> \<not> q_has_new_cov (entry (rn_afl s) q)
              then upd_afl (\<lambda>a. a\<lparr>queued_with_cov := queued_with_cov a + 1\<rparr>) (upd_q q (\<lambda>e. e\<lparr>q_has_new_cov := True\<rparr>) s) else s)
     in if cl_var c
        then let s = upd_afl (\<lambda>a. a\<lparr>var_byte_count := count_bytes a (var_bytes a)\<rparr>) s
             in if \<not> q_var_behavior (entry (rn_afl s) q) then upd_afl (\<lambda>a. a\<lparr>queued_variable := queued_variable a + 1\<rparr>) s else s
        else s)"

definition cal_tmout :: "afl_state \<Rightarrow> bool \<Rightarrow> nat" where
  "cal_tmout a generous =
    (let t = exec_tmout (fsrv a)
     in if generous then max ((t + CAL_TMOUT_ADD) mod 2 ^ 32) ((t * CAL_TMOUT_PERC) mod 2 ^ 32 div 100) else t)"

definition calibrate_case ::
    "'e target \<Rightarrow> (buf \<Rightarrow> u64) \<Rightarrow> bool \<Rightarrow> bool \<Rightarrow> bool \<Rightarrow> nat \<Rightarrow> buf \<Rightarrow> nat \<Rightarrow> bool \<Rightarrow> 'e rn
      \<Rightarrow> (run_exit + fsrv_run_result \<times> 'e rn) option" where
  "calibrate_case tg xxh cmplog_mode resuming fast q use_mem handicap from_queue s =
    (let first_run = (q_exec_cksum (entry (rn_afl s) q) = 0);
         s = (if cmplog_mode then upd_q q (\<lambda>e. e\<lparr>q_exec_cksum := 0\<rparr>) s else s);
         use_tmout = cal_tmout (rn_afl s) (\<not> from_queue \<or> resuming);
         s = upd_q q (\<lambda>e. e\<lparr>q_cal_failed := (q_cal_failed e + 1) mod 2 ^ 8\<rparr>) s;
         c = \<lparr>cl_s = s, cl_new_bits = 0, cl_var = False, cl_max = (if fast then CAL_CYCLES_FAST else CAL_CYCLES)\<rparr>;
         c = (if q_exec_cksum (entry (rn_afl s) q) \<noteq> 0
              then look_for_bits (c\<lparr>cl_s := upd_afl (\<lambda>a. a\<lparr>first_trace := trace a\<rparr>) s\<rparr>) else c);
         (start_us, e) = tg_now tg (rn_env (cl_s c));
         c = c\<lparr>cl_s := (cl_s c)\<lparr>rn_env := e\<rparr>\<rparr>
     in map_option (\<lambda>r. bind_err r (\<lambda>(stop, fault, c).
          if stop then Inr (fault, cal_finish q c)
          else let c = cal_record tg q handicap start_us c
               in Inr (if \<not> non_instrumented_mode (rn_afl (cl_s c)) \<and> first_run \<and> fault = FSRV_RUN_OK \<and> cl_new_bits c = 0
                       then FSRV_RUN_NOBITS else fault, cal_finish q c)))
        (cal_loop tg xxh fast use_tmout q use_mem 0 FSRV_RUN_OK c))"

section \<open>Trimming\<close>

definition TRIM_MIN_BYTES :: nat where "TRIM_MIN_BYTES = 4"
definition TRIM_START_STEPS :: nat where "TRIM_START_STEPS = 16"
definition TRIM_END_STEPS :: nat where "TRIM_END_STEPS = 1024"

record 'e tr =
  tr_s :: "'e rn"
  tr_buf :: buf
  tr_write :: bool
  tr_p2 :: nat
  tr_fault :: fsrv_run_result

definition len_p2 :: "nat \<Rightarrow> nat" where
  "len_p2 n = unat (next_pow2 (of_nat n)) mod 2 ^ 32"

text \<open>The removal of a block from the buffer; \<open>same\<close> says that the buffer is the cached one of the entry.\<close>

definition trim_remove :: "bool \<Rightarrow> nat \<Rightarrow> nat \<Rightarrow> nat \<Rightarrow> 'e tr \<Rightarrow> 'e tr" where
  "trim_remove same q pos avail t =
    (let n = q_len (entry (rn_afl (tr_s t)) q); move_tail = n - pos - avail;
         b = take pos (tr_buf t) @ take move_tail (drop (pos + avail) (tr_buf t)) @ drop (pos + move_tail) (tr_buf t);
         s = upd_q q (\<lambda>e. if same then e\<lparr>q_len := n - avail, q_testcase_buf := Some b\<rparr> else e\<lparr>q_len := n - avail\<rparr>) (tr_s t);
         s = (if tr_write t then s else upd_afl (\<lambda>a. a\<lparr>clean_trace := trace a\<rparr>) s)
     in t\<lparr>tr_s := s, tr_buf := b, tr_write := True, tr_p2 := len_p2 (n - avail)\<rparr>)"

definition trim_step ::
    "'e target \<Rightarrow> (buf \<Rightarrow> u64) \<Rightarrow> bool \<Rightarrow> nat \<Rightarrow> nat \<Rightarrow> nat \<Rightarrow> 'e tr \<Rightarrow> run_exit + bool \<times> nat \<times> 'e tr" where
  "trim_step tg xxh same q remove_len pos t =
    (let n = q_len (entry (rn_afl (tr_s t)) q); avail = min remove_len (n - pos) in
     bind_err (fuzz_run_target tg (write_with_gap (tr_buf t) n pos avail) (exec_tmout (fsrv (rn_afl (tr_s t)))) (tr_s t)) (\<lambda>(fault, s).
       let t = t\<lparr>tr_s := s, tr_fault := fault\<rparr> in
       if stop_soon s \<or> fault = FSRV_RUN_ERROR then Inr (True, pos, t)
       else
         let s = upd_afl (\<lambda>a. a\<lparr>fsrv := classify_counts (fsrv a)\<rparr>) (s\<lparr>trim_execs := trim_execs s + 1\<rparr>); t = t\<lparr>tr_s := s\<rparr>
         in if cal_checksum xxh (rn_afl s) = q_exec_cksum (entry (rn_afl s) q)
            then Inr (False, pos, trim_remove same q pos avail t)
            else Inr (False, pos + remove_len, t)))"

partial_function (option) trim_pass ::
    "'e target \<Rightarrow> (buf \<Rightarrow> u64) \<Rightarrow> bool \<Rightarrow> nat \<Rightarrow> nat \<Rightarrow> nat \<Rightarrow> 'e tr \<Rightarrow> (run_exit + bool \<times> 'e tr) option" where
  "trim_pass tg xxh same q remove_len pos t =
    (if pos < q_len (entry (rn_afl (tr_s t)) q)
     then (case trim_step tg xxh same q remove_len pos t of
         Inl e \<Rightarrow> Some (Inl e)
       | Inr (abort, pos, t) \<Rightarrow> if abort then Some (Inr (True, t)) else trim_pass tg xxh same q remove_len pos t)
     else Some (Inr (False, t)))"

partial_function (option) trim_loop ::
    "'e target \<Rightarrow> (buf \<Rightarrow> u64) \<Rightarrow> bool \<Rightarrow> nat \<Rightarrow> nat \<Rightarrow> 'e tr \<Rightarrow> (run_exit + bool \<times> 'e tr) option" where
  "trim_loop tg xxh same q remove_len t =
    (if remove_len \<ge> max (tr_p2 t div TRIM_END_STEPS) TRIM_MIN_BYTES
     then (case trim_pass tg xxh same q remove_len remove_len t of
         None \<Rightarrow> None
       | Some (Inl e) \<Rightarrow> Some (Inl e)
       | Some (Inr (abort, t)) \<Rightarrow>
           if abort then Some (Inr (True, t)) else trim_loop tg xxh same q (remove_len div 2) t)
     else Some (Inr (False, t)))"

text \<open>After a change the file is rewritten, the cache told, and the entry rated with its clean trace.\<close>

definition trim_finish :: "bool \<Rightarrow> nat \<Rightarrow> nat \<Rightarrow> 'e tr \<Rightarrow> run_exit + 'e rn" where
  "trim_finish same q orig_len t =
    (if \<not> tr_write t then Inr (tr_s t)
     else
       let n = q_len (entry (rn_afl (tr_s t)) q); s = (tr_s t)\<lparr>rn_file := (rn_file (tr_s t))(q \<mapsto> take n (tr_buf t))\<rparr>
       in case queue_testcase_retake_mem q same (take n (tr_buf t)) n orig_len (rn_afl s) of
            Inl _ \<Rightarrow> Inl RX_OUT_OF_BOUNDS
          | Inr a \<Rightarrow> Inr (s\<lparr>rn_afl := update_bitmap_score (set_trace (clean_trace a) a) q True\<rparr>))"

definition trim_case ::
    "'e target \<Rightarrow> (buf \<Rightarrow> u64) \<Rightarrow> bool \<Rightarrow> nat \<Rightarrow> buf \<Rightarrow> 'e rn \<Rightarrow> (run_exit + fsrv_run_result \<times> 'e rn) option" where
  "trim_case tg xxh same q in_buf s =
    (let orig_len = q_len (entry (rn_afl s) q); s = s\<lparr>bytes_trim_in := bytes_trim_in s + of_nat orig_len\<rparr>;
         out = (\<lambda>(fault, s). Inr (fault, s\<lparr>bytes_trim_out := bytes_trim_out s + of_nat (q_len (entry (rn_afl s) q))\<rparr>))
     in if orig_len < 5 then Some (out (FSRV_RUN_OK, s))
        else
          let p2 = len_p2 orig_len; t = \<lparr>tr_s = s, tr_buf = in_buf, tr_write = False, tr_p2 = p2, tr_fault = FSRV_RUN_OK\<rparr>
          in map_option (\<lambda>r. bind_err r (\<lambda>(abort, t).
               if abort then out (tr_fault t, tr_s t)
               else bind_err (trim_finish same q orig_len t) (\<lambda>s. out (tr_fault t, s))))
             (trim_loop tg xxh same q (max (p2 div TRIM_START_STEPS) TRIM_MIN_BYTES) t))"

section \<open>Runs\<close>

text \<open>A run changes the trace, the counters of the fork server and the environment.\<close>

lemma run_target_effect:
  assumes "fuzz_run_target tg mem timeout s = Inr (f, s')"
    and an: "tg_answer tg (last_run_timed_out s) mem timeout (rn_env s) = (an, e)"
  shows "s' = s\<lparr>rn_afl := (rn_afl s)\<lparr>fsrv := (fsrv (rn_afl s))\<lparr>trace_bits := written_trace (map_size (fsrv (rn_afl s))) (an_trace an),
         total_execs := total_execs (fsrv (rn_afl s)) + (if an_ms an = 0 then 0 else 1)\<rparr>\<rparr>,
       rn_env := e, last_run_timed_out := timeout < an_ms an, stop_soon := stop_soon s \<or> an_stop an,
       skip_requested := skip_requested s \<or> an_skip an\<rparr>"
  using assms(1) unfolding fuzz_run_target_def afl_fsrv_run_target_def Let_def an
  by (auto split: if_splits intro!: rn.equality)

lemma run_target_error: "fuzz_run_target tg mem timeout s = Inl e \<Longrightarrow> \<exists>m. e = RX_FATAL (FatalMsg m)"
  by (auto simp: fuzz_run_target_def afl_fsrv_run_target_def Let_def split: prod.splits if_splits)

lemma length_written_trace [simp]: "length (written_trace n t) = n"
  by (simp add: written_trace_def)

text \<open>The classified checksum of a trace as the target writes it.\<close>

definition trace_sum :: "(buf \<Rightarrow> u64) \<Rightarrow> nat \<Rightarrow> buf \<Rightarrow> u64" where
  "trace_sum xxh n t = hash64 xxh (take n (classify_loop (n div 8) (written_trace n t))) HASH_CONST"

section \<open>Trimming\<close>

definition trim_inv :: "(buf \<Rightarrow> u64) \<Rightarrow> (buf \<Rightarrow> buf) \<Rightarrow> bool \<Rightarrow> nat \<Rightarrow> buf \<Rightarrow> 'e rn \<Rightarrow> 'e tr \<Rightarrow> bool" where
  "trim_inv xxh cov same q x s0 t \<longleftrightarrow>
    (let a0 = rn_afl s0; a = rn_afl (tr_s t); n = q_len (entry a q) in
     length (tr_buf t) = length x \<and> 4 \<le> n \<and> n \<le> length x \<and>
     subseq (take n (tr_buf t)) x \<and> take 4 (tr_buf t) = take 4 x \<and>
     (tr_write t \<longleftrightarrow> n < length x) \<and> (\<not> tr_write t \<longrightarrow> tr_buf t = x) \<and>
     (tr_write t \<longrightarrow> trace_sum xxh (map_size (fsrv a0)) (cov (take n (tr_buf t))) = q_exec_cksum (entry a0 q)) \<and>
     map_size (fsrv a) = map_size (fsrv a0) \<and> rn_file (tr_s t) = rn_file s0 \<and>
     length (queue_buf a) = length (queue_buf a0) \<and> q_exec_cksum (entry a q) = q_exec_cksum (entry a0 q) \<and>
     q_testcase_buf (entry a q) = (if same then Some (tr_buf t) else None) \<and>
     (\<forall>p < length (queue_buf a). p \<noteq> q \<longrightarrow> entry a p = entry a0 p))"

lemma removed_block:
  assumes "pos + avail \<le> n" and "n \<le> length b" and "4 \<le> pos"
  defines "b' \<equiv> take pos b @ take (n - pos - avail) (drop (pos + avail) b) @ drop (pos + (n - pos - avail)) b"
  shows "length b' = length b" and "take (n - avail) b' = write_with_gap b n pos avail"
    and "subseq (take (n - avail) b') (take n b)" and "take 4 b' = take 4 b"
proof -
  define P A T R where d: "P = take pos b" "A = take avail (drop pos b)" "T = take (n - pos - avail) (drop (pos + avail) b)" "R = drop n b"
  have l: "length P = pos" "length A = avail" "length T = n - pos - avail" using assms(1,2) by (simp_all add: d)
  have "drop pos b = A @ drop (pos + avail) b"
    using append_take_drop_id [of avail "drop pos b"] by (simp add: d(2) add.commute)
  moreover have "drop (pos + avail) b = T @ R"
  proof -
    have "drop (n - pos - avail) (drop (pos + avail) b) = R" using assms(1) by (simp add: d)
    then show ?thesis using append_take_drop_id [of "n - pos - avail" "drop (pos + avail) b"] by (simp add: d(3))
  qed
  ultimately have b: "b = P @ A @ T @ R" using append_take_drop_id [of pos b] by (simp add: d(1))
  have n: "n = pos + (avail + length T)" using assms(1) l by simp
  have b': "b' = P @ T @ drop (pos + (n - pos - avail)) b" by (simp add: b'_def d)
  show "length b' = length b" using assms(1,2) l by (simp add: b')
  show g: "take (n - avail) b' = write_with_gap b n pos avail"
    unfolding b' write_with_gap_def d(1) [symmetric] d(3) [symmetric] using l n by simp
  have "take n (P @ A @ T @ R) = P @ A @ T" using l n by simp
  then have "take n b = P @ A @ T" using b by simp
  moreover have "write_with_gap b n pos avail = P @ T" by (simp add: write_with_gap_def d)
  ultimately show "subseq (take (n - avail) b') (take n b)"
    unfolding g using subseq_append [of P T "P @ A"] subseq_rev_drop_many [OF subseq_order.refl, of P A] by simp
  show "take 4 b' = take 4 b" proof -
    have "take 4 (P @ r) = take 4 P" for r using assms(3) l by simp
    then show ?thesis using b b' by metis
  qed
qed

lemma upd_q_sel [simp]:
  "rn_env (upd_q q f s) = rn_env s" "rn_file (upd_q q f s) = rn_file s" "stop_soon (upd_q q f s) = stop_soon s"
  "rn_afl (upd_q q f s) = upd_entry q f (rn_afl s)" "rn_afl (upd_afl g s) = g (rn_afl s)" "rn_file (upd_afl g s) = rn_file s"
  "rn_env (upd_afl g s) = rn_env s" "stop_soon (upd_afl g s) = stop_soon s"
  by (simp_all add: upd_q_def upd_afl_def)

text \<open>A target whose trace depends on the input only.\<close>

definition deterministic :: "'e target \<Rightarrow> (buf \<Rightarrow> buf) \<Rightarrow> bool" where
  "deterministic tg cov \<longleftrightarrow> (\<forall>b m t e. an_trace (fst (tg_answer tg b m t e)) = cov m)"

lemma trim_step_inv:
  assumes det: "deterministic tg cov" and inv: "trim_inv xxh cov same q x s0 t"
    and q: "q < length (queue_buf (rn_afl (tr_s t)))"
    and pos: "4 \<le> remove_len" "remove_len \<le> pos" "pos < q_len (entry (rn_afl (tr_s t)) q)"
  shows "case trim_step tg xxh same q remove_len pos t of
      Inl e \<Rightarrow> \<exists>m. e = RX_FATAL (FatalMsg m)
    | Inr (abort, pos', t') \<Rightarrow> trim_inv xxh cov same q x s0 t' \<and> length (queue_buf (rn_afl (tr_s t'))) = length (queue_buf (rn_afl (tr_s t))) \<and>
        remove_len \<le> pos' \<and> (abort \<longrightarrow> stop_soon (tr_s t') \<or> tr_fault t' = FSRV_RUN_ERROR) \<and>
        (\<not> abort \<longrightarrow> \<not> stop_soon (tr_s t') \<and> tr_fault t' \<noteq> FSRV_RUN_ERROR \<and>
           q_len (entry (rn_afl (tr_s t')) q) - pos' < q_len (entry (rn_afl (tr_s t)) q) - pos)"
proof -
  let ?s = "tr_s t" let ?a = "rn_afl ?s" let ?n = "q_len (entry ?a q)" let ?av = "min remove_len (?n - pos)"
  let ?in = "write_with_gap (tr_buf t) ?n pos ?av"
  obtain an e where an: "tg_answer tg (last_run_timed_out ?s) ?in (exec_tmout (fsrv ?a)) (rn_env ?s) = (an, e)" by fastforce
  then have cov: "an_trace an = cov ?in" using det unfolding deterministic_def by (metis fst_conv)
  have i: "length (tr_buf t) = length x" "?n \<le> length x" using inv by (auto simp: trim_inv_def Let_def)
  show ?thesis
  proof (cases "fuzz_run_target tg ?in (exec_tmout (fsrv ?a)) ?s")
    case (Inl e)
    then show ?thesis using run_target_error [OF Inl] by (auto simp: trim_step_def Let_def)
  next
    case (Inr y)
    obtain f s' where y: "y = (f, s')" by (cases y)
    note s' = run_target_effect [OF Inr [unfolded y] an]
    show ?thesis
    proof (cases "stop_soon s' \<or> f = FSRV_RUN_ERROR")
      case True
      then have "trim_step tg xxh same q remove_len pos t = Inr (True, pos, t\<lparr>tr_s := s', tr_fault := f\<rparr>)"
        using Inr by (simp add: trim_step_def Let_def y)
      moreover have "trim_inv xxh cov same q x s0 (t\<lparr>tr_s := s', tr_fault := f\<rparr>)"
        using inv by (simp add: trim_inv_def Let_def s')
      ultimately show ?thesis using True pos by (simp add: s')
    next
      case False
      define s1 where "s1 = upd_afl (\<lambda>a. a\<lparr>fsrv := classify_counts (fsrv a)\<rparr>) (s'\<lparr>trim_execs := trim_execs s' + 1\<rparr>)"
      define t1 where "t1 = t\<lparr>tr_fault := f, tr_s := s1\<rparr>"
      have a1: "queue_buf (rn_afl s1) = queue_buf ?a" "map_size (fsrv (rn_afl s1)) = map_size (fsrv ?a)" "rn_file s1 = rn_file ?s"
        "stop_soon s1 = stop_soon s'"
        by (simp_all add: s1_def upd_afl_def s' classify_counts_def)
      have ck: "cal_checksum xxh (rn_afl s1) = trace_sum xxh (map_size (fsrv ?a)) (cov ?in)"
        by (simp add: s1_def upd_afl_def s' cov trace_sum_def cal_checksum_def classify_counts_def)
      have st: "trim_step tg xxh same q remove_len pos t =
          (if trace_sum xxh (map_size (fsrv ?a)) (cov ?in) = q_exec_cksum (entry ?a q)
           then Inr (False, pos, trim_remove same q pos ?av t1) else Inr (False, pos + remove_len, t1))"
        using False Inr by (simp add: trim_step_def Let_def y s1_def [symmetric] t1_def ck a1)
      have inv1: "trim_inv xxh cov same q x s0 t1" using inv by (simp add: trim_inv_def Let_def t1_def a1)
      show ?thesis
      proof (cases "trace_sum xxh (map_size (fsrv ?a)) (cov ?in) = q_exec_cksum (entry ?a q)")
        case False
        with st inv1 pos \<open>\<not> (stop_soon s' \<or> f = FSRV_RUN_ERROR)\<close> show ?thesis by (simp add: t1_def a1)
      next
        case True
        let ?b = "take pos (tr_buf t) @ take (?n - pos - ?av) (drop (pos + ?av) (tr_buf t)) @ drop (pos + (?n - pos - ?av)) (tr_buf t)"
        let ?t = "trim_remove same q pos ?av t1"
        have r: "pos + ?av \<le> ?n" "?n \<le> length (tr_buf t)" "4 \<le> pos" "0 < ?av" using pos i by auto
        obtain B where B: "B = ?b" by simp
        note rb = removed_block [OF r(1-3), folded B]
        have tt: "tr_buf ?t = B" "tr_write ?t" "tr_fault ?t = f" "rn_file (tr_s ?t) = rn_file ?s" "stop_soon (tr_s ?t) = stop_soon s'"
          "map_size (fsrv (rn_afl (tr_s ?t))) = map_size (fsrv ?a)"
          "queue_buf (rn_afl (tr_s ?t)) = (queue_buf ?a)[q := (if same then (entry ?a q)\<lparr>q_len := ?n - ?av, q_testcase_buf := Some B\<rparr>
              else (entry ?a q)\<lparr>q_len := ?n - ?av\<rparr>)]"
          by (simp_all add: B trim_remove_def Let_def t1_def a1 upd_entry_def upd_afl_def upd_q_def)
        have o: "length (tr_buf t) = length x" "4 \<le> ?n" "?n \<le> length x" "subseq (take ?n (tr_buf t)) x" "take 4 (tr_buf t) = take 4 x"
          "map_size (fsrv ?a) = map_size (fsrv (rn_afl s0))" "rn_file ?s = rn_file s0" "length (queue_buf ?a) = length (queue_buf (rn_afl s0))"
          "q_exec_cksum (entry ?a q) = q_exec_cksum (entry (rn_afl s0) q)" "q_testcase_buf (entry ?a q) = (if same then Some (tr_buf t) else None)"
          "\<forall>p < length (queue_buf ?a). p \<noteq> q \<longrightarrow> entry ?a p = entry (rn_afl s0) p"
          using inv by (simp_all add: trim_inv_def Let_def)
        have b: "length B = length x" "take 4 B = take 4 x" "subseq (take (?n - ?av) B) x" "take (?n - ?av) B = ?in"
          by (rule trans [OF rb(1) o(1)], rule trans [OF rb(4) o(5)], rule subseq_order.trans [OF rb(3) o(4)], rule rb(2))
        have n': "4 \<le> ?n - ?av" "?n - ?av < length x" using r o(3) by linarith+
        have e: "q_len (entry (rn_afl (tr_s ?t)) q) = ?n - ?av" "q_exec_cksum (entry (rn_afl (tr_s ?t)) q) = q_exec_cksum (entry ?a q)"
          "q_testcase_buf (entry (rn_afl (tr_s ?t)) q) = (if same then Some B else None)"
          unfolding tt using q o(10) by simp_all
        have ot: "\<forall>p < length (queue_buf (rn_afl (tr_s ?t))). p \<noteq> q \<longrightarrow> entry (rn_afl (tr_s ?t)) p = entry (rn_afl s0) p"
          unfolding tt using o(11) by simp
        have c: "trace_sum xxh (map_size (fsrv (rn_afl s0))) (cov ?in) = q_exec_cksum (entry (rn_afl s0) q)" using True o(6,9) by simp
        have lq: "length (queue_buf (rn_afl (tr_s ?t))) = length (queue_buf (rn_afl s0))" unfolding tt using o(8) by simp
        have "trim_inv xxh cov same q x s0 ?t"
          unfolding trim_inv_def Let_def e using c lq ot b(1-3) n' less_imp_le [OF n'(2)] o(6,7,9) by (simp only: tt(1,2,4,6) b(4) simp_thms)
        moreover have "?n - ?av - pos < ?n - pos" using r(4) pos(3) by linarith
        ultimately show ?thesis
          using st True pos q \<open>\<not> (stop_soon s' \<or> f = FSRV_RUN_ERROR)\<close> by (simp add: tt)
      qed
    qed
  qed
qed

definition trim_ended :: "(buf \<Rightarrow> u64) \<Rightarrow> (buf \<Rightarrow> buf) \<Rightarrow> bool \<Rightarrow> nat \<Rightarrow> buf \<Rightarrow> 'e rn \<Rightarrow> run_exit + bool \<times> 'e tr \<Rightarrow> bool" where
  "trim_ended xxh cov same q x s0 y \<longleftrightarrow> (case y of
      Inl e \<Rightarrow> \<exists>m. e = RX_FATAL (FatalMsg m)
    | Inr (abort, t) \<Rightarrow> trim_inv xxh cov same q x s0 t \<and>
        (abort \<longrightarrow> stop_soon (tr_s t) \<or> tr_fault t = FSRV_RUN_ERROR))"

lemma trim_inv_queue: "trim_inv xxh cov same q x s0 t \<Longrightarrow> length (queue_buf (rn_afl (tr_s t))) = length (queue_buf (rn_afl s0))"
  by (simp add: trim_inv_def Let_def)

lemma trim_pass_ok:
  assumes "deterministic tg cov" and "trim_inv xxh cov same q x s0 t" and "q < length (queue_buf (rn_afl s0))"
    and "4 \<le> remove_len" "remove_len \<le> pos"
  shows "\<exists>y. trim_pass tg xxh same q remove_len pos t = Some y \<and> trim_ended xxh cov same q x s0 y"
  using assms(2,5)
proof (induction "q_len (entry (rn_afl (tr_s t)) q) - pos" arbitrary: t pos rule: less_induct)
  case less
  show ?case
  proof (cases "pos < q_len (entry (rn_afl (tr_s t)) q)")
    case False
    then show ?thesis using less.prems by (subst trim_pass.simps) (simp add: trim_ended_def)
  next
    case True
    have q: "q < length (queue_buf (rn_afl (tr_s t)))" using assms(3) trim_inv_queue [OF less.prems(1)] by simp
    note st = trim_step_inv [OF assms(1) less.prems(1) q assms(4) less.prems(2) True]
    show ?thesis
    proof (cases "trim_step tg xxh same q remove_len pos t")
      case (Inl e)
      then show ?thesis using st True by (subst trim_pass.simps) (simp add: trim_ended_def)
    next
      case (Inr y)
      obtain abort pos' t' where y: "y = (abort, pos', t')" by (cases y) auto
      have i: "trim_inv xxh cov same q x s0 t'" "remove_len \<le> pos'"
        "abort \<longrightarrow> stop_soon (tr_s t') \<or> tr_fault t' = FSRV_RUN_ERROR"
        "\<not> abort \<longrightarrow> q_len (entry (rn_afl (tr_s t')) q) - pos' < q_len (entry (rn_afl (tr_s t)) q) - pos"
        using st unfolding Inr y by auto
      show ?thesis
      proof (cases abort)
        case True
        then show ?thesis using i \<open>pos < _\<close> by (subst trim_pass.simps) (simp add: Inr y trim_ended_def)
      next
        case False
        from less.hyps [OF _ i(1,2)] i(4) False obtain z where
          "trim_pass tg xxh same q remove_len pos' t' = Some z" "trim_ended xxh cov same q x s0 z" by blast
        then show ?thesis using False \<open>pos < _\<close> by (subst trim_pass.simps) (simp add: Inr y)
      qed
    qed
  qed
qed

lemma trim_loop_ok:
  assumes "deterministic tg cov" and "trim_inv xxh cov same q x s0 t" and "q < length (queue_buf (rn_afl s0))"
  shows "\<exists>y. trim_loop tg xxh same q remove_len t = Some y \<and> trim_ended xxh cov same q x s0 y"
  using assms(2)
proof (induction remove_len arbitrary: t rule: less_induct)
  case (less remove_len)
  show ?case
  proof (cases "remove_len \<ge> max (tr_p2 t div TRIM_END_STEPS) TRIM_MIN_BYTES")
    case False
    then have "trim_loop tg xxh same q remove_len t = Some (Inr (False, t))" by (subst trim_loop.simps) (rule if_not_P)
    then show ?thesis using less.prems by (simp add: trim_ended_def)
  next
    case True
    note big = True
    then have r: "4 \<le> remove_len" by (simp add: TRIM_MIN_BYTES_def)
    obtain y where y: "trim_pass tg xxh same q remove_len remove_len t = Some y" "trim_ended xxh cov same q x s0 y"
      using trim_pass_ok [OF assms(1) less.prems assms(3) r order_refl] by blast
    show ?thesis
    proof (cases y)
      case (Inl e)
      then show ?thesis using True y by (subst trim_loop.simps) simp
    next
      case (Inr z)
      obtain abort t' where z: "z = (abort, t')" by (cases z)
      show ?thesis
      proof (cases abort)
        case True
        then show ?thesis using big y by (subst trim_loop.simps) (simp add: Inr z)
      next
        case False
        have "trim_inv xxh cov same q x s0 t'" using y(2) by (simp add: Inr z trim_ended_def)
        moreover have "remove_len div 2 < remove_len" using r by simp
        ultimately obtain w where "trim_loop tg xxh same q (remove_len div 2) t' = Some w" "trim_ended xxh cov same q x s0 w"
          using less.IH by blast
        then show ?thesis using big False y(1) by (subst trim_loop.simps) (simp add: Inr z)
      qed
    qed
  qed
qed

text \<open>What rating an entry leaves alone.\<close>

lemma same_keys_rating: "same_keys (update_bitmap_score a q have_trace) a"
proof -
  have "same_keys (fold (\<lambda>i a. if f i a then contest_slot (n a) p v q a i else a) xs b) b" for f n p v xs b
    by (induction xs arbitrary: b) (auto intro: same_keys_trans same_keys_contest)
  then show ?thesis by (simp add: update_bitmap_score_def Let_def)
qed

lemma rating_len:
  assumes "p < length (queue_buf a)"
  shows "q_len (entry (update_bitmap_score a q have_trace) p) = q_len (entry a p)"
  using same_keys_entry [OF same_keys_rating assms] by (simp add: entry_keys_def)

text \<open>What the invariant says of the bytes that are left, and the step that writes them back.\<close>

lemma trim_inv_left:
  assumes "trim_inv xxh cov same q x s u"
  defines "z \<equiv> take (q_len (entry (rn_afl (tr_s u)) q)) (tr_buf u)"
  shows "length z = q_len (entry (rn_afl (tr_s u)) q)" "subseq z x" "4 \<le> length z" "take 4 z = take 4 x" "z \<noteq> x \<longleftrightarrow> tr_write u"
    "z \<noteq> x \<longrightarrow> trace_sum xxh (map_size (fsrv (rn_afl s))) (cov z) = q_exec_cksum (entry (rn_afl s) q)"
proof -
  let ?n = "q_len (entry (rn_afl (tr_s u)) q)"
  have o: "length (tr_buf u) = length x" "4 \<le> ?n" "?n \<le> length x" "subseq z x" "take 4 (tr_buf u) = take 4 x"
    "tr_write u \<longleftrightarrow> ?n < length x" "\<not> tr_write u \<longrightarrow> tr_buf u = x"
    "tr_write u \<longrightarrow> trace_sum xxh (map_size (fsrv (rn_afl s))) (cov z) = q_exec_cksum (entry (rn_afl s) q)"
    using assms(1) by (simp_all add: trim_inv_def Let_def z_def)
  show lz: "length z = ?n" "subseq z x" "4 \<le> length z" "take 4 z = take 4 x" using o by (simp_all add: z_def min_def)
  show zx: "z \<noteq> x \<longleftrightarrow> tr_write u"
  proof
    assume "z \<noteq> x" then show "tr_write u" using o(1,3,6,7) by (cases "tr_write u") (auto simp: z_def)
  next
    assume "tr_write u" then show "z \<noteq> x" using o(6) lz by auto
  qed
  then show "z \<noteq> x \<longrightarrow> trace_sum xxh (map_size (fsrv (rn_afl s))) (cov z) = q_exec_cksum (entry (rn_afl s) q)" using o(8) by simp
qed

lemma trim_finish_ok:
  assumes i: "trim_inv xxh cov same q x s u" and q: "q < length (queue_buf (rn_afl s))"
  shows "\<exists>v. trim_finish same q (length x) u = Inr v \<and> q_len (entry (rn_afl v) q) = q_len (entry (rn_afl (tr_s u)) q) \<and>
    rn_file v q = (if tr_write u then Some (take (q_len (entry (rn_afl (tr_s u)) q)) (tr_buf u)) else rn_file s q)"
proof (cases "tr_write u")
  case False
  then show ?thesis using i by (simp add: trim_finish_def trim_inv_def Let_def)
next
  case True
  let ?a = "rn_afl (tr_s u)" let ?n = "q_len (entry ?a q)" let ?z = "take ?n (tr_buf u)"
  have "q_testcase_buf (entry ?a q) = (if same then Some (tr_buf u) else None)" using i by (simp add: trim_inv_def Let_def)
  then have "\<exists>b. queue_testcase_retake_mem q same ?z ?n (length x) ?a = Inr b \<and> length (queue_buf b) = length (queue_buf ?a) \<and> q_len (entry b q) = ?n"
    by (cases same) (simp_all add: queue_testcase_retake_mem_def)
  then obtain b where b: "queue_testcase_retake_mem q same ?z ?n (length x) ?a = Inr b"
    "length (queue_buf b) = length (queue_buf ?a)" "q_len (entry b q) = ?n" by blast
  have "q_len (entry (update_bitmap_score (set_trace (clean_trace b) b) q True) q) = ?n"
    using rating_len [of q "set_trace (clean_trace b) b"] b(2,3) trim_inv_queue [OF i] q by simp
  then show ?thesis using True b(1) by (simp add: trim_finish_def Let_def)
qed

text \<open>C6. Trimming returns, whatever the target answers. For a target whose trace depends on the input only, the new
  test case is a subsequence of the old one with the same first four bytes; if it is shorter, it has the checksum
  of the entry, and unless the fuzzer is stopping it is what the file of the entry holds afterwards.\<close>

theorem trim_case_correct:
  assumes det: "deterministic tg cov" and q: "q < length (queue_buf (rn_afl s))" and x: "length x = q_len (entry (rn_afl s) q)"
    and same: "q_testcase_buf (entry (rn_afl s) q) = (if same then Some x else None)"
  shows "\<exists>y. trim_case tg xxh same q x s = Some y \<and> (case y of
      Inl e \<Rightarrow> \<exists>m. e = RX_FATAL (FatalMsg m)
    | Inr (fault, s') \<Rightarrow> \<exists>z. subseq z x \<and> q_len (entry (rn_afl s') q) = length z \<and>
        (5 \<le> length x \<longrightarrow> 4 \<le> length z \<and> take 4 z = take 4 x) \<and>
        (z \<noteq> x \<longrightarrow> trace_sum xxh (map_size (fsrv (rn_afl s))) (cov z) = q_exec_cksum (entry (rn_afl s) q)) \<and>
        (stop_soon s' \<or> fault = FSRV_RUN_ERROR \<or> rn_file s' q = (if z = x then rn_file s q else Some z)))"
proof (cases "length x < 5")
  case True
  then show ?thesis using x by (simp add: trim_case_def Let_def exI [of _ x])
next
  case long: False
  define s1 where "s1 = s\<lparr>bytes_trim_in := bytes_trim_in s + of_nat (q_len (entry (rn_afl s) q))\<rparr>"
  define t where "t = \<lparr>tr_s = s1, tr_buf = x, tr_write = False, tr_p2 = len_p2 (length x), tr_fault = FSRV_RUN_OK\<rparr>"
  have s1: "rn_afl s1 = rn_afl s" "rn_file s1 = rn_file s" by (simp_all add: s1_def)
  have "trim_inv xxh cov same q x s t"
    using long x same by (simp add: trim_inv_def Let_def t_def s1)
  then obtain y where y: "trim_loop tg xxh same q (max (len_p2 (length x) div TRIM_START_STEPS) TRIM_MIN_BYTES) t = Some y"
    "trim_ended xxh cov same q x s y"
    using trim_loop_ok [OF det _ q] by blast
  show ?thesis
  proof (cases y)
    case (Inl e)
    then show ?thesis using long y x by (simp add: trim_case_def Let_def s1_def [symmetric] t_def trim_ended_def)
  next
    case (Inr w)
    obtain abort u where w: "w = (abort, u)" by (cases w)
    let ?a = "rn_afl (tr_s u)" let ?z = "take (q_len (entry ?a q)) (tr_buf u)"
    have i: "trim_inv xxh cov same q x s u" and ab: "abort \<longrightarrow> stop_soon (tr_s u) \<or> tr_fault u = FSRV_RUN_ERROR"
      using y(2) by (auto simp: Inr w trim_ended_def)
    note z = trim_inv_left [OF i]
    obtain v where v: "trim_finish same q (length x) u = Inr v" "q_len (entry (rn_afl v) q) = length ?z"
      "rn_file v q = (if ?z = x then rn_file s q else Some ?z)"
      using trim_finish_ok [OF i q] z(1,5) by auto
    define s' where "s' = (let v = if abort then tr_s u else v in v\<lparr>bytes_trim_out := bytes_trim_out v + of_nat (q_len (entry (rn_afl v) q))\<rparr>)"
    have "trim_case tg xxh same q x s = Some (Inr (tr_fault u, s'))"
      using long y(1) x v(1) by (simp add: trim_case_def Let_def s1_def [symmetric] t_def Inr w s'_def)
    moreover have "q_len (entry (rn_afl s') q) = length ?z" using v(2) z(1) by (simp add: s'_def Let_def)
    moreover have "stop_soon s' \<or> tr_fault u = FSRV_RUN_ERROR \<or> rn_file s' q = (if ?z = x then rn_file s q else Some ?z)"
      using ab v(3) by (auto simp: s'_def Let_def)
    ultimately show ?thesis using z(2-4,6) by (intro exI [of _ "Inr (tr_fault u, s')"], unfold sum.case prod.case) blast
  qed
qed

section \<open>Calibration\<close>

text \<open>The state during a calibration of \<open>q\<close> that started in \<open>a\<close>.\<close>

definition cal_at :: "afl_state \<Rightarrow> nat \<Rightarrow> buf \<Rightarrow> nat \<Rightarrow> buf \<Rightarrow> bool \<Rightarrow> buf \<Rightarrow> buf \<Rightarrow> u64 \<Rightarrow> afl_state" where
  "cal_at a q tr te vb bc var ft ck =
    (upd_entry q (\<lambda>e. e\<lparr>q_exec_cksum := ck\<rparr>) a)\<lparr>fsrv := (fsrv a)\<lparr>trace_bits := tr, total_execs := te\<rparr>,
       virgin_bits := vb, bitmap_changed := bc, var_bytes := var, first_trace := ft\<rparr>"

lemma cal_at_sel [simp]:
  "fsrv (cal_at a q tr te vb bc var ft ck) = (fsrv a)\<lparr>trace_bits := tr, total_execs := te\<rparr>"
  "var_bytes (cal_at a q tr te vb bc var ft ck) = var" "first_trace (cal_at a q tr te vb bc var ft ck) = ft"
  "virgin_bits (cal_at a q tr te vb bc var ft ck) = vb"
  "crash_mode (cal_at a q tr te vb bc var ft ck) = crash_mode a"
  "non_instrumented_mode (cal_at a q tr te vb bc var ft ck) = non_instrumented_mode a"
  "max_length (cal_at a q tr te vb bc var ft ck) = max_length a"
  "queued_variable (cal_at a q tr te vb bc var ft ck) = queued_variable a"
  "length (queue_buf (cal_at a q tr te vb bc var ft ck)) = length (queue_buf a)"
  by (simp_all add: cal_at_def upd_entry_def)

lemma cal_at_entry [simp]:
  "q < length (queue_buf a) \<Longrightarrow> entry (cal_at a q tr te vb bc var ft ck) q = (entry a q)\<lparr>q_exec_cksum := ck\<rparr>"
  by (simp add: cal_at_def upd_entry_def)

lemma cal_at_upd [simp]:
  "cal_at a q tr te vb bc var ft ck\<lparr>fsrv := (fsrv a)\<lparr>trace_bits := tr', total_execs := te'\<rparr>\<rparr> = cal_at a q tr' te' vb bc var ft ck"
  "cal_at a q tr te vb bc var ft ck\<lparr>virgin_bits := vb'\<rparr> = cal_at a q tr te vb' bc var ft ck"
  "cal_at a q tr te vb bc var ft ck\<lparr>bitmap_changed := bc'\<rparr> = cal_at a q tr te vb bc' var ft ck"
  "cal_at a q tr te vb bc var ft ck\<lparr>var_bytes := var', virgin_bits := vb'\<rparr> = cal_at a q tr te vb' bc var' ft ck"
  "cal_at a q tr te vb bc var ft ck\<lparr>first_trace := ft'\<rparr> = cal_at a q tr te vb bc var ft' ck"
  by (simp_all add: cal_at_def)

lemma cal_at_cksum [simp]:
  "upd_entry q (\<lambda>e. e\<lparr>q_exec_cksum := ck'\<rparr>) (cal_at a q tr te vb bc var ft ck) = cal_at a q tr te vb bc var ft ck'"
  by (cases "q < length (queue_buf a)") (simp_all add: cal_at_def upd_entry_def list_update_beyond)

lemma mark_vars_fold:
  "\<exists>V W. fold (\<lambda>i a. mark_var a i) [0..<n] a = a\<lparr>var_bytes := V, virgin_bits := W\<rparr> \<and> length V = length (var_bytes a) \<and>
    (\<forall>i < length (var_bytes a). V ! i = (if i < n \<and> var_bytes a ! i = 0 \<and> first_trace a ! i \<noteq> trace a ! i then 1 else var_bytes a ! i))"
proof (induction n)
  case 0
  show ?case by (intro exI [of _ "var_bytes a"] exI [of _ "virgin_bits a"]) simp
next
  case (Suc n)
  then obtain V W where v: "fold (\<lambda>i a. mark_var a i) [0..<n] a = a\<lparr>var_bytes := V, virgin_bits := W\<rparr>" "length V = length (var_bytes a)"
    "\<forall>i < length (var_bytes a). V ! i = (if i < n \<and> var_bytes a ! i = 0 \<and> first_trace a ! i \<noteq> trace a ! i then 1 else var_bytes a ! i)"
    by blast
  have f: "fold (\<lambda>i a. mark_var a i) [0..<Suc n] a =
      (if V ! n = 0 \<and> first_trace a ! n \<noteq> trace a ! n then a\<lparr>var_bytes := V[n := 1], virgin_bits := W[n := 0]\<rparr>
       else a\<lparr>var_bytes := V, virgin_bits := W\<rparr>)"
  proof -
    have "fold (\<lambda>i a. mark_var a i) [0..<Suc n] a = mark_var (fold (\<lambda>i a. mark_var a i) [0..<n] a) n" by simp
    then show ?thesis unfolding v(1) by (simp add: mark_var_def)
  qed
  show ?case
  proof (cases "V ! n = 0 \<and> first_trace a ! n \<noteq> trace a ! n")
    case True
    have "V[n := 1] ! i = (if i < Suc n \<and> var_bytes a ! i = 0 \<and> first_trace a ! i \<noteq> trace a ! i then 1 else var_bytes a ! i)"
      if "i < length (var_bytes a)" for i
      using v(2,3) that True by (cases "i = n") (auto simp: less_Suc_eq)
    moreover have "length (V[n := 1]) = length (var_bytes a)" using v(2) by simp
    ultimately show ?thesis unfolding f if_P [OF True] by blast
  next
    case False
    have "V ! i = (if i < Suc n \<and> var_bytes a ! i = 0 \<and> first_trace a ! i \<noteq> trace a ! i then 1 else var_bytes a ! i)"
      if "i < length (var_bytes a)" for i
      using v(2,3) that False by (cases "i = n") (auto simp: less_Suc_eq)
    then show ?thesis unfolding f if_not_P [OF False] using v(2) by blast
  qed
qed

lemma has_new_bits_at:
  "\<exists>r vb' bc'. has_new_bits (cal_at a q tr te vb bc var ft ck) VIRGIN_BITS = (r, cal_at a q tr te vb' bc' var ft ck)"
proof -
  obtain r w where "has_new_bits_loop ((real_map_size (fsrv a) + 7) div 8) 0 tr (virgin_of VIRGIN_BITS (cal_at a q tr te vb bc var ft ck)) = (r, w)"
    by fastforce
  then have "has_new_bits (cal_at a q tr te vb bc var ft ck) VIRGIN_BITS = (r, cal_at a q tr te w (r \<noteq> 0 \<or> bc) var ft ck)"
    by (cases "r = 0"; cases bc) (simp_all add: has_new_bits_def set_virgin_def cal_at_def)
  then show ?thesis by blast
qed

lemma look_for_bits_at:
  assumes "rn_afl (cl_s c) = cal_at a q tr te vb bc var ft ck"
  shows "\<exists>vb' bc' nb. look_for_bits c = c\<lparr>cl_s := (cl_s c)\<lparr>rn_afl := cal_at a q tr te vb' bc' var ft ck\<rparr>, cl_new_bits := nb\<rparr>"
proof -
  obtain r vb' bc' where "has_new_bits (cal_at a q tr te vb bc var ft ck) VIRGIN_BITS = (r, cal_at a q tr te vb' bc' var ft ck)"
    using has_new_bits_at by blast
  then have "look_for_bits c = c\<lparr>cl_s := (cl_s c)\<lparr>rn_afl := cal_at a q tr te vb' bc' var ft ck\<rparr>,
      cl_new_bits := (if r > cl_new_bits c then r else cl_new_bits c)\<rparr>"
    by (simp add: look_for_bits_def assms)
  then show ?thesis by blast
qed

text \<open>An answer without a fault.\<close>

definition good_answer :: "'e target \<Rightarrow> nat \<Rightarrow> nat \<Rightarrow> answer \<Rightarrow> bool" where
  "good_answer tg m timeout an \<longleftrightarrow> 0 < an_ms an \<and> an_ms an \<le> timeout \<and> \<not> an_stop an \<and> \<not> is_crash tg (an_status an) \<and>
     le_word (take 4 (written_trace m (an_trace an))) \<noteq> EXEC_FAIL_SIG"

lemma run_good:
  assumes "tg_answer tg (last_run_timed_out s) mem timeout (rn_env s) = (an, e)"
    and "good_answer tg (map_size (fsrv (rn_afl s))) timeout an" and "\<not> stop_soon s"
  shows "\<exists>s'. fuzz_run_target tg mem timeout s = Inr (FSRV_RUN_OK, s') \<and> rn_env s' = e \<and> \<not> stop_soon s' \<and> rn_file s' = rn_file s \<and>
     rn_afl s' = (rn_afl s)\<lparr>fsrv := (fsrv (rn_afl s))\<lparr>trace_bits := written_trace (map_size (fsrv (rn_afl s))) (an_trace an),
         total_execs := total_execs (fsrv (rn_afl s)) + 1\<rparr>\<rparr>"
  using assms by (auto simp: fuzz_run_target_def afl_fsrv_run_target_def Let_def good_answer_def)

definition classified :: "nat \<Rightarrow> buf \<Rightarrow> buf" where
  "classified n t = classify_loop (n div 8) (written_trace n t)"

lemma cal_compare_at:
  fixes xxh :: "buf \<Rightarrow> u64"
  assumes at: "rn_afl (cl_s c) = cal_at a q T te vb bc var ft ck" and q: "q < length (queue_buf a)"
  defines "h \<equiv> hash64 xxh (take (map_size (fsrv a)) T) HASH_CONST"
  shows "\<exists>vb' bc' var' nb. cal_compare xxh fast q c = c\<lparr>cl_s := (cl_s c)\<lparr>rn_afl :=
        cal_at a q T te vb' bc' var' (if ck = h \<or> ck \<noteq> 0 then ft else T) (if ck = 0 then h else ck)\<rparr>,
      cl_new_bits := nb, cl_var := (cl_var c \<or> ck \<noteq> h \<and> ck \<noteq> 0),
      cl_max := (if ck \<noteq> h \<and> ck \<noteq> 0 then if fast then CAL_CYCLES else CAL_CYCLES_LONG else cl_max c)\<rparr> \<and>
    length var' = length var \<and>
    (\<forall>i < length var. i < map_size (fsrv a) \<longrightarrow> (var' ! i \<noteq> 0 \<longleftrightarrow> var ! i \<noteq> 0 \<or> ck \<noteq> h \<and> ck \<noteq> 0 \<and> T ! i \<noteq> ft ! i))"
proof -
  have ck: "cal_checksum xxh (rn_afl (cl_s c)) = h" by (simp add: cal_checksum_def at h_def)
  have e: "q_exec_cksum (entry (rn_afl (cl_s c)) q) = ck" using q by (simp add: at)
  show ?thesis
  proof (cases "ck = h")
    case True
    then have "cal_compare xxh fast q c = c" by (simp add: cal_compare_def ck e)
    with True show ?thesis using at
      by (intro exI [of _ vb], intro exI [of _ bc], intro exI [of _ var], intro exI [of _ "cl_new_bits c"]) simp
  next
    case False
    obtain vb' bc' nb where l: "look_for_bits c = c\<lparr>cl_s := (cl_s c)\<lparr>rn_afl := cal_at a q T te vb' bc' var ft ck\<rparr>, cl_new_bits := nb\<rparr>"
      using look_for_bits_at [OF at] by blast
    have u: "cal_compare xxh fast q c =
       (if ck \<noteq> 0
        then c\<lparr>cl_s := (cl_s c)\<lparr>rn_afl := mark_vars (cal_at a q T te vb' bc' var ft ck)\<rparr>, cl_new_bits := nb, cl_var := True,
               cl_max := (if fast then CAL_CYCLES else CAL_CYCLES_LONG)\<rparr>
        else c\<lparr>cl_s := (cl_s c)\<lparr>rn_afl := cal_at a q T te vb' bc' var T h\<rparr>, cl_new_bits := nb\<rparr>)"
      using False q by (simp add: cal_compare_def ck e l Let_def upd_afl_def)
    show ?thesis
    proof (cases "ck = 0")
      case True
      then show ?thesis using False u
        by (intro exI [of _ vb'], intro exI [of _ bc'], intro exI [of _ var], intro exI [of _ nb]) simp
    next
      case ck0: False
      obtain V W where m: "mark_vars (cal_at a q T te vb' bc' var ft ck) = (cal_at a q T te vb' bc' var ft ck)\<lparr>var_bytes := V, virgin_bits := W\<rparr>"
        "length V = length var"
        "\<forall>i < length var. V ! i = (if i < map_size (fsrv a) \<and> var ! i = 0 \<and> ft ! i \<noteq> T ! i then 1 else var ! i)"
        using mark_vars_fold [of "map_size (fsrv a)" "cal_at a q T te vb' bc' var ft ck"] unfolding mark_vars_def by auto
      have "\<forall>i < length var. i < map_size (fsrv a) \<longrightarrow> (V ! i \<noteq> 0 \<longleftrightarrow> var ! i \<noteq> 0 \<or> ck \<noteq> h \<and> ck \<noteq> 0 \<and> T ! i \<noteq> ft ! i)"
        using m(3) False ck0 by auto
      then show ?thesis using False ck0 u m(1,2)
        by (intro exI [of _ W], intro exI [of _ bc'], intro exI [of _ V], intro exI [of _ nb]) simp
    qed
  qed
qed

lemma cal_iter_at:
  fixes xxh :: "buf \<Rightarrow> u64"
  assumes at: "rn_afl (cl_s c) = cal_at a q tr te vb bc var ft ck" and q: "q < length (queue_buf a)"
    and an: "tg_answer tg (last_run_timed_out (cl_s c)) (take (q_len (entry a q)) mem) use_tmout (rn_env (cl_s c)) = (an, e)"
    and good: "good_answer tg (map_size (fsrv a)) use_tmout an" and go: "\<not> stop_soon (cl_s c)"
    and len: "q_len (entry a q) \<le> length mem" "q_len (entry a q) \<le> max_length a"
    and crash: "crash_mode a = FSRV_RUN_OK" and bytes: "count_bytes a (written_trace (map_size (fsrv a)) (an_trace an)) \<noteq> 0"
  defines "T \<equiv> classified (map_size (fsrv a)) (an_trace an)"
  defines "h \<equiv> trace_sum xxh (map_size (fsrv a)) (an_trace an)"
  shows "\<exists>c' te' vb' bc' var'. cal_iter tg xxh fast use_tmout q mem c = Inr (False, FSRV_RUN_OK, c') \<and>
     rn_afl (cl_s c') = cal_at a q T te' vb' bc' var' (if ck = h \<or> ck \<noteq> 0 then ft else T) (if ck = 0 then h else ck) \<and>
     rn_env (cl_s c') = e \<and> \<not> stop_soon (cl_s c') \<and>
     cl_var c' = (cl_var c \<or> ck \<noteq> h \<and> ck \<noteq> 0) \<and>
     cl_max c' = (if ck \<noteq> h \<and> ck \<noteq> 0 then if fast then CAL_CYCLES else CAL_CYCLES_LONG else cl_max c) \<and>
     length var' = length var \<and>
     (\<forall>i < length var. i < map_size (fsrv a) \<longrightarrow> (var' ! i \<noteq> 0 \<longleftrightarrow> var ! i \<noteq> 0 \<or> ck \<noteq> h \<and> ck \<noteq> 0 \<and> T ! i \<noteq> ft ! i))"
proof -
  have w: "write_to_testcase (rn_afl (cl_s c)) mem (q_len (entry (rn_afl (cl_s c)) q)) True = Inr (take (q_len (entry a q)) mem)"
    using q len by (simp add: at write_to_testcase_def)
  obtain s' where s': "fuzz_run_target tg (take (q_len (entry a q)) mem) use_tmout (cl_s c) = Inr (FSRV_RUN_OK, s')" "rn_env s' = e"
    "\<not> stop_soon s'" "rn_afl s' = cal_at a q (written_trace (map_size (fsrv a)) (an_trace an)) (te + 1) vb bc var ft ck"
    using run_good [OF an] good go by (auto simp: at)
  define c1 where "c1 = c\<lparr>cl_s := upd_afl (\<lambda>a. a\<lparr>fsrv := classify_counts (fsrv a)\<rparr>) s'\<rparr>"
  have at1: "rn_afl (cl_s c1) = cal_at a q T (te + 1) vb bc var ft ck"
    by (simp add: c1_def s'(4) classify_counts_def T_def classified_def) (simp add: cal_at_def)
  have hh: "hash64 xxh (take (map_size (fsrv a)) T) HASH_CONST = h" by (simp add: h_def T_def classified_def trace_sum_def)
  have "count_bytes (rn_afl s') (trace (rn_afl s')) \<noteq> 0" using bytes by (simp add: s'(4) count_bytes_def scanned_words_def)
  then have it: "cal_iter tg xxh fast use_tmout q mem c = Inr (False, FSRV_RUN_OK, cal_compare xxh fast q c1)"
    using w s'(1,3) crash by (simp add: cal_iter_def Let_def c1_def s'(4))
  have c1: "rn_env (cl_s c1) = e" "\<not> stop_soon (cl_s c1)" "cl_var c1 = cl_var c" "cl_max c1 = cl_max c"
    by (simp_all add: c1_def s'(2,3))
  from cal_compare_at [OF at1 q, of xxh fast, unfolded hh] obtain vb' bc' var' nb where
    e: "cal_compare xxh fast q c1 = c1\<lparr>cl_s := (cl_s c1)\<lparr>rn_afl :=
        cal_at a q T (te + 1) vb' bc' var' (if ck = h \<or> ck \<noteq> 0 then ft else T) (if ck = 0 then h else ck)\<rparr>,
      cl_new_bits := nb, cl_var := (cl_var c1 \<or> ck \<noteq> h \<and> ck \<noteq> 0),
      cl_max := (if ck \<noteq> h \<and> ck \<noteq> 0 then if fast then CAL_CYCLES else CAL_CYCLES_LONG else cl_max c1)\<rparr>"
    and v: "length var' = length var"
    "\<forall>i < length var. i < map_size (fsrv a) \<longrightarrow> (var' ! i \<noteq> 0 \<longleftrightarrow> var ! i \<noteq> 0 \<or> ck \<noteq> h \<and> ck \<noteq> 0 \<and> T ! i \<noteq> ft ! i)"
    by blast
  show ?thesis
  proof (intro exI conjI)
    show "cal_iter tg xxh fast use_tmout q mem c = Inr (False, FSRV_RUN_OK, cal_compare xxh fast q c1)" by (rule it)
    show "rn_afl (cl_s (cal_compare xxh fast q c1)) =
        cal_at a q T (te + 1) vb' bc' var' (if ck = h \<or> ck \<noteq> 0 then ft else T) (if ck = 0 then h else ck)" by (simp add: e)
  qed (use v c1 in \<open>simp_all add: e\<close>)
qed

text \<open>A target that follows a script: the run number \<open>e\<close> is answered by \<open>an e\<close>.\<close>

definition scripted :: "nat target \<Rightarrow> (nat \<Rightarrow> answer) \<Rightarrow> bool" where
  "scripted tg an \<longleftrightarrow> (\<forall>b m t e. tg_answer tg b m t e = (an e, e + 1)) \<and> (\<forall>e. snd (tg_now tg e) = e)"

definition cal_inv :: "(buf \<Rightarrow> u64) \<Rightarrow> bool \<Rightarrow> nat \<Rightarrow> afl_state \<Rightarrow> (nat \<Rightarrow> buf) \<Rightarrow> nat \<Rightarrow> nat \<Rightarrow> nat cal \<Rightarrow> bool" where
  "cal_inv xxh fast q a tr e0 j c \<longleftrightarrow> (\<exists>cur te vb bc var.
     rn_afl (cl_s c) = cal_at a q cur te vb bc var (classified (map_size (fsrv a)) (tr 0)) (trace_sum xxh (map_size (fsrv a)) (tr 0)) \<and>
     rn_env (cl_s c) = e0 + j \<and> \<not> stop_soon (cl_s c) \<and>
     (cl_var c \<longleftrightarrow> (\<exists>i < j. trace_sum xxh (map_size (fsrv a)) (tr i) \<noteq> trace_sum xxh (map_size (fsrv a)) (tr 0))) \<and>
     cl_max c = (if cl_var c then if fast then CAL_CYCLES else CAL_CYCLES_LONG else if fast then CAL_CYCLES_FAST else CAL_CYCLES) \<and>
     length var = length (var_bytes a) \<and>
     (\<forall>i < length (var_bytes a). i < map_size (fsrv a) \<longrightarrow> (var ! i \<noteq> 0 \<longleftrightarrow> var_bytes a ! i \<noteq> 0 \<or>
        (\<exists>m < j. trace_sum xxh (map_size (fsrv a)) (tr m) \<noteq> trace_sum xxh (map_size (fsrv a)) (tr 0) \<and>
           classified (map_size (fsrv a)) (tr m) ! i \<noteq> classified (map_size (fsrv a)) (tr 0) ! i))))"

text \<open>How many runs a calibration makes.\<close>

definition cal_runs :: "(buf \<Rightarrow> u64) \<Rightarrow> bool \<Rightarrow> nat \<Rightarrow> (nat \<Rightarrow> buf) \<Rightarrow> nat" where
  "cal_runs xxh fast n tr =
    (if \<exists>i < (if fast then CAL_CYCLES_FAST else CAL_CYCLES). trace_sum xxh n (tr i) \<noteq> trace_sum xxh n (tr 0)
     then if fast then CAL_CYCLES else CAL_CYCLES_LONG
     else if fast then CAL_CYCLES_FAST else CAL_CYCLES)"

definition all_good :: "nat target \<Rightarrow> afl_state \<Rightarrow> nat \<Rightarrow> nat \<Rightarrow> (nat \<Rightarrow> answer) \<Rightarrow> nat \<Rightarrow> buf \<Rightarrow> bool" where
  "all_good tg a q use_tmout an e0 mem \<longleftrightarrow> scripted tg an \<and> q < length (queue_buf a) \<and>
     q_len (entry a q) \<le> length mem \<and> q_len (entry a q) \<le> max_length a \<and> crash_mode a = FSRV_RUN_OK \<and>
     (\<forall>j. good_answer tg (map_size (fsrv a)) use_tmout (an (e0 + j)) \<and>
        count_bytes a (written_trace (map_size (fsrv a)) (an_trace (an (e0 + j)))) \<noteq> 0)"

lemma cal_inv_step:
  assumes g: "all_good tg a q use_tmout an e0 mem" and inv: "cal_inv xxh fast q a (\<lambda>j. an_trace (an (e0 + j))) e0 j c"
    and j: "1 \<le> j" and h0: "trace_sum xxh (map_size (fsrv a)) (an_trace (an e0)) \<noteq> 0"
  shows "\<exists>c'. cal_iter tg xxh fast use_tmout q mem c = Inr (False, FSRV_RUN_OK, c') \<and>
     cal_inv xxh fast q a (\<lambda>j. an_trace (an (e0 + j))) e0 (Suc j) c'"
proof -
  let ?M = "map_size (fsrv a)" let ?h = "\<lambda>j. trace_sum xxh ?M (an_trace (an (e0 + j)))" let ?T = "\<lambda>j. classified ?M (an_trace (an (e0 + j)))"
  obtain cur te vb bc var where at: "rn_afl (cl_s c) = cal_at a q cur te vb bc var (?T 0) (?h 0)"
    and i: "rn_env (cl_s c) = e0 + j" "\<not> stop_soon (cl_s c)" "cl_var c \<longleftrightarrow> (\<exists>i < j. ?h i \<noteq> ?h 0)"
    "cl_max c = (if cl_var c then if fast then CAL_CYCLES else CAL_CYCLES_LONG else if fast then CAL_CYCLES_FAST else CAL_CYCLES)"
    "length var = length (var_bytes a)"
    "\<forall>i < length (var_bytes a). i < ?M \<longrightarrow> (var ! i \<noteq> 0 \<longleftrightarrow> var_bytes a ! i \<noteq> 0 \<or> (\<exists>m < j. ?h m \<noteq> ?h 0 \<and> ?T m ! i \<noteq> ?T 0 ! i))"
    using inv unfolding cal_inv_def by blast
  have an: "tg_answer tg (last_run_timed_out (cl_s c)) (take (q_len (entry a q)) mem) use_tmout (rn_env (cl_s c)) = (an (e0 + j), e0 + Suc j)"
    using g i(1) by (simp add: all_good_def scripted_def)
  have q: "q < length (queue_buf a)" "good_answer tg ?M use_tmout (an (e0 + j))" "q_len (entry a q) \<le> length mem"
    "q_len (entry a q) \<le> max_length a" "crash_mode a = FSRV_RUN_OK" "count_bytes a (written_trace ?M (an_trace (an (e0 + j)))) \<noteq> 0"
    using g by (simp_all add: all_good_def)
  have h00: "?h 0 \<noteq> 0" using h0 by simp
  from cal_iter_at [OF at q(1) an q(2) i(2) q(3-6), of xxh fast] obtain c' te' vb' bc' var' where
    it: "cal_iter tg xxh fast use_tmout q mem c = Inr (False, FSRV_RUN_OK, c')"
    and at': "rn_afl (cl_s c') = cal_at a q (?T j) te' vb' bc' var' (?T 0) (?h 0)"
    and i': "rn_env (cl_s c') = e0 + Suc j" "\<not> stop_soon (cl_s c')" "cl_var c' = (cl_var c \<or> ?h 0 \<noteq> ?h j)"
    "cl_max c' = (if ?h 0 \<noteq> ?h j then if fast then CAL_CYCLES else CAL_CYCLES_LONG else cl_max c)" "length var' = length var"
    "\<forall>i < length var. i < ?M \<longrightarrow> (var' ! i \<noteq> 0 \<longleftrightarrow> var ! i \<noteq> 0 \<or> ?h 0 \<noteq> ?h j \<and> ?T j ! i \<noteq> ?T 0 ! i)"
    by (simp only: h00 simp_thms if_True if_False) blast
  have "cal_inv xxh fast q a (\<lambda>j. an_trace (an (e0 + j))) e0 (Suc j) c'"
    unfolding cal_inv_def
  proof (intro exI conjI)
    show "rn_afl (cl_s c') = cal_at a q (?T j) te' vb' bc' var' (?T 0) (?h 0)" by (rule at')
    show "cl_var c' \<longleftrightarrow> (\<exists>i < Suc j. ?h i \<noteq> ?h 0)" unfolding i'(3) i(3) less_Suc_eq by metis
    show "cl_max c' = (if cl_var c' then if fast then CAL_CYCLES else CAL_CYCLES_LONG else if fast then CAL_CYCLES_FAST else CAL_CYCLES)"
      unfolding i'(3,4) i(4) by simp
    show "length var' = length (var_bytes a)" using i(5) i'(5) by simp
    show "\<forall>i < length (var_bytes a). i < ?M \<longrightarrow> (var' ! i \<noteq> 0 \<longleftrightarrow> var_bytes a ! i \<noteq> 0 \<or> (\<exists>m < Suc j. ?h m \<noteq> ?h 0 \<and> ?T m ! i \<noteq> ?T 0 ! i))"
      using i(5,6) i'(6) unfolding less_Suc_eq by metis
  qed (use i' in simp_all)
  with it show ?thesis by blast
qed

lemma runs_left:
  fixes N L j :: nat
  assumes "N \<le> L" and "j \<le> (if \<exists>i < N. d i then L else N)"
  shows "j < (if \<exists>i < j. d i then L else N) \<longleftrightarrow> j < (if \<exists>i < N. d i then L else N)"
proof (cases "\<exists>i < j. d i")
  case True
  have "\<exists>i < N. d i"
  proof (rule ccontr)
    assume n: "\<not> ?thesis"
    with assms(2) have "j \<le> N" by simp
    with True n show False using less_le_trans by blast
  qed
  with True show ?thesis by simp
next
  case False
  show ?thesis
  proof (cases "j < N")
    case True
    with assms(1) False show ?thesis by simp
  next
    case nj: False
    then have n: "\<not> (\<exists>i < N. d i)" using False by (meson less_le_trans not_le)
    show ?thesis unfolding if_not_P [OF False] if_not_P [OF n] by simp
  qed
qed

lemma cal_inv_left:
  assumes "cal_inv xxh fast q a tr e0 j c" and "j \<le> cal_runs xxh fast (map_size (fsrv a)) tr"
  shows "j < cl_max c \<longleftrightarrow> j < cal_runs xxh fast (map_size (fsrv a)) tr"
proof -
  let ?d = "\<lambda>i. trace_sum xxh (map_size (fsrv a)) (tr i) \<noteq> trace_sum xxh (map_size (fsrv a)) (tr 0)"
  let ?N = "if fast then CAL_CYCLES_FAST else CAL_CYCLES" let ?L = "if fast then CAL_CYCLES else CAL_CYCLES_LONG"
  have k: "cal_runs xxh fast (map_size (fsrv a)) tr = (if \<exists>i < ?N. ?d i then ?L else ?N)" by (simp only: cal_runs_def)
  have "(cl_var c \<longleftrightarrow> (\<exists>i < j. ?d i)) \<and> cl_max c = (if cl_var c then ?L else ?N)"
    using assms(1) unfolding cal_inv_def by (elim exE conjE) (intro conjI)
  then have m: "cl_max c = (if \<exists>i < j. ?d i then ?L else ?N)" by (simp only:)
  have "?N \<le> ?L" by (simp add: CAL_CYCLES_FAST_def CAL_CYCLES_def CAL_CYCLES_LONG_def)
  from runs_left [OF this assms(2) [unfolded k]] show ?thesis unfolding k m .
qed

lemma cal_loop_at:
  assumes g: "all_good tg a q use_tmout an e0 mem" and h0: "trace_sum xxh (map_size (fsrv a)) (an_trace (an e0)) \<noteq> 0"
    and inv: "cal_inv xxh fast q a (\<lambda>j. an_trace (an (e0 + j))) e0 j c" and j: "1 \<le> j"
  defines "K \<equiv> cal_runs xxh fast (map_size (fsrv a)) (\<lambda>j. an_trace (an (e0 + j)))"
  assumes "j \<le> K"
  shows "\<exists>c'. cal_loop tg xxh fast use_tmout q mem j FSRV_RUN_OK c = Some (Inr (False, FSRV_RUN_OK, c')) \<and>
     cal_inv xxh fast q a (\<lambda>j. an_trace (an (e0 + j))) e0 K c'"
  using inv j \<open>j \<le> K\<close>
proof (induction "K - j" arbitrary: j c)
  case 0
  then have "j = K" by simp
  have "\<not> K < cl_max c" using cal_inv_left [OF 0(2)] unfolding \<open>j = K\<close> K_def by simp
  then have "cal_loop tg xxh fast use_tmout q mem j FSRV_RUN_OK c = Some (Inr (False, FSRV_RUN_OK, c))"
    unfolding \<open>j = K\<close> by (subst cal_loop.simps) simp
  with 0(2) \<open>j = K\<close> show ?case by blast
next
  case (Suc d)
  then have jk: "j < K" by simp
  have "j < cl_max c"
    using cal_inv_left [OF Suc.prems(1)] jk unfolding K_def by simp
  moreover obtain c' where c': "cal_iter tg xxh fast use_tmout q mem c = Inr (False, FSRV_RUN_OK, c')"
    "cal_inv xxh fast q a (\<lambda>j. an_trace (an (e0 + j))) e0 (Suc j) c'"
    using cal_inv_step [OF g Suc.prems(1,2) h0] by blast
  ultimately have "cal_loop tg xxh fast use_tmout q mem j FSRV_RUN_OK c = cal_loop tg xxh fast use_tmout q mem (Suc j) FSRV_RUN_OK c'"
    by (subst cal_loop.simps) simp
  with Suc.hyps(1) [OF _ c'(2)] Suc.hyps(2) jk show ?case by simp
qed

text \<open>What rating an entry leaves alone, beside the keys.\<close>

definition core :: "afl_state \<Rightarrow> queue_entry list \<times> buf \<times> buf \<times> nat \<times> nat" where
  "core a = (map (\<lambda>e. e\<lparr>q_tc_ref := 0, q_trace_mini := None\<rparr>) (queue_buf a), var_bytes a, first_trace a, queued_variable a, total_cal_cycles a)"

lemma core_upd [simp]:
  "core (upd_entry i (\<lambda>e. e\<lparr>q_tc_ref := g e\<rparr>) a) = core a"
  "core (upd_entry i (\<lambda>e. e\<lparr>q_trace_mini := h e\<rparr>) a) = core a"
  "core (a\<lparr>top_rated := t\<rparr>) = core a" "core (a\<lparr>score_changed := c\<rparr>) = core a"
  by (simp_all add: core_def upd_entry_def map_update_same)

lemma core_contest: "core (contest_slot n p f q a i) = core a"
  by (simp add: contest_slot_def take_slot_def release_slot_def Let_def split: option.split)

lemma core_rating: "core (update_bitmap_score a q have_trace) = core a"
proof -
  have "core (fold (\<lambda>i a. if f i a then contest_slot (n a) p v q a i else a) xs b) = core b" for f n p v xs b
    by (induction xs arbitrary: b) (auto simp: core_contest)
  then show ?thesis by (simp add: update_bitmap_score_def Let_def)
qed

lemma rating_frame:
  fixes have_trace :: bool
  assumes "q < length (queue_buf a)"
  defines "b \<equiv> update_bitmap_score a q have_trace"
  shows "q_exec_cksum (entry b q) = q_exec_cksum (entry a q)" and "q_cal_failed (entry b q) = q_cal_failed (entry a q)"
    and "q_handicap (entry b q) = q_handicap (entry a q)" and "q_var_behavior (entry b q) = q_var_behavior (entry a q)"
    and "length (queue_buf b) = length (queue_buf a)"
    and "var_bytes b = var_bytes a" and "first_trace b = first_trace a" and "queued_variable b = queued_variable a"
    and "total_cal_cycles b = total_cal_cycles a"
proof -
  have c: "core b = core a" unfolding b_def by (rule core_rating)
  then have m: "map (\<lambda>e. e\<lparr>q_tc_ref := 0, q_trace_mini := None\<rparr>) (queue_buf b) = map (\<lambda>e. e\<lparr>q_tc_ref := 0, q_trace_mini := None\<rparr>) (queue_buf a)"
    by (simp add: core_def)
  from map_eq_imp_length_eq [OF m] show l: "length (queue_buf b) = length (queue_buf a)" .
  from arg_cong [OF m, of "\<lambda>l. l ! q"] have e: "(entry b q)\<lparr>q_tc_ref := 0, q_trace_mini := None\<rparr> = (entry a q)\<lparr>q_tc_ref := 0, q_trace_mini := None\<rparr>"
    using assms(1) l by simp
  from arg_cong [OF e, of q_exec_cksum] arg_cong [OF e, of q_cal_failed] arg_cong [OF e, of q_handicap] arg_cong [OF e, of q_var_behavior]
  show "q_exec_cksum (entry b q) = q_exec_cksum (entry a q)" "q_cal_failed (entry b q) = q_cal_failed (entry a q)"
    "q_handicap (entry b q) = q_handicap (entry a q)" "q_var_behavior (entry b q) = q_var_behavior (entry a q)" by simp_all
  show "var_bytes b = var_bytes a" "first_trace b = first_trace a" "queued_variable b = queued_variable a" "total_cal_cycles b = total_cal_cycles a"
    using c by (simp_all add: core_def)
qed

lemma cal_at_self:
  assumes "q_exec_cksum (entry a q) = 0"
  shows "a = cal_at a q (trace a) (total_execs (fsrv a)) (virgin_bits a) (bitmap_changed a) (var_bytes a) (first_trace a) 0"
proof -
  have "upd_entry q (\<lambda>e. e\<lparr>q_exec_cksum := 0\<rparr>) a = a" by (rule upd_entry_id) (simp add: assms [symmetric])
  then show ?thesis by (simp add: cal_at_def)
qed

lemma cal_at_cycles [simp]:
  "total_cal_cycles (cal_at a q tr te vb bc var ft ck) = total_cal_cycles a" "fixed_seed (cal_at a q tr te vb bc var ft ck) = fixed_seed a"
  by (simp_all add: cal_at_def upd_entry_def)

text \<open>The two ends of a calibration.\<close>

lemma cal_record_at:
  fixes handicap start_us :: nat
  assumes "rn_afl (cl_s c) = cal_at a q tr te vb bc var ft ck" and q: "q < length (queue_buf a)" and now: "\<forall>e. snd (tg_now tg e) = e"
  defines "s' \<equiv> cl_s (cal_record tg q handicap start_us c)"
  shows "q_exec_cksum (entry (rn_afl s') q) = ck" and "q_cal_failed (entry (rn_afl s') q) = 0"
    and "q_handicap (entry (rn_afl s') q) = handicap" and "q_var_behavior (entry (rn_afl s') q) = q_var_behavior (entry a q)"
    and "length (queue_buf (rn_afl s')) = length (queue_buf a)" and "var_bytes (rn_afl s') = var" and "first_trace (rn_afl s') = ft"
    and "queued_variable (rn_afl s') = queued_variable a" and "total_cal_cycles (rn_afl s') = total_cal_cycles a + cl_max c"
    and "rn_env s' = rn_env (cl_s c)" and "cl_var (cal_record tg q handicap start_us c) = cl_var c"
proof -
  obtain d e where d: "(if fixed_seed (rn_afl (cl_s c)) then ((exec_tmout (fsrv (rn_afl (cl_s c))) + 2 ^ 32 - 1) mod 2 ^ 32 * cl_max c, cl_s c)
      else let (now, e) = tg_now tg (rn_env (cl_s c)) in (if now = start_us then 1 else (now + 2 ^ 64 - start_us) mod 2 ^ 64, (cl_s c)\<lparr>rn_env := e\<rparr>)) = (d, (cl_s c)\<lparr>rn_env := e\<rparr>)"
    and e: "e = rn_env (cl_s c)"
  proof (cases "fixed_seed (rn_afl (cl_s c))")
    case True
    then show ?thesis using that [of _ "rn_env (cl_s c)"] by simp
  next
    case False
    obtain n e where ne: "tg_now tg (rn_env (cl_s c)) = (n, e)" by fastforce
    with now have "e = rn_env (cl_s c)" by (metis snd_conv)
    with False ne show ?thesis using that [of _ e] by simp
  qed
  define b where "b = rn_afl (upd_afl (\<lambda>a. a\<lparr>total_bitmap_size := total_bitmap_size a + count_bytes (rn_afl (cl_s c)) (trace (rn_afl (cl_s c))), total_bitmap_entries := total_bitmap_entries a + 1\<rparr>)
     (upd_q q (\<lambda>e. e\<lparr>q_exec_us := (if d div cl_max c = 0 then 1 else d div cl_max c), q_bitmap_size := count_bytes (rn_afl (cl_s c)) (trace (rn_afl (cl_s c))),
         q_handicap := handicap, q_cal_failed := 0\<rparr>)
       (upd_afl (\<lambda>a. a\<lparr>total_cal_us := total_cal_us a + d, total_cal_cycles := total_cal_cycles a + cl_max c\<rparr>) ((cl_s c)\<lparr>rn_env := e\<rparr>))))"
  have s': "rn_afl s' = update_bitmap_score b q True" "rn_env s' = e" "cl_var (cal_record tg q handicap start_us c) = cl_var c"
    unfolding s'_def cal_record_def Let_def [of "cl_s c"] Let_def [of "rn_afl (cl_s c)"] d
    by (simp_all add: b_def Let_def)
  have b: "q < length (queue_buf b)" "q_exec_cksum (entry b q) = ck" "q_cal_failed (entry b q) = 0" "q_handicap (entry b q) = handicap"
    "q_var_behavior (entry b q) = q_var_behavior (entry a q)" "length (queue_buf b) = length (queue_buf a)" "var_bytes b = var"
    "first_trace b = ft" "queued_variable b = queued_variable a" "total_cal_cycles b = total_cal_cycles a + cl_max c"
    using q assms(1) by (simp_all add: b_def upd_entry_def)
  note r = rating_frame [OF b(1), of True, folded s'(1)]
  show "q_exec_cksum (entry (rn_afl s') q) = ck" "q_cal_failed (entry (rn_afl s') q) = 0"
    "q_handicap (entry (rn_afl s') q) = handicap" "q_var_behavior (entry (rn_afl s') q) = q_var_behavior (entry a q)"
    "length (queue_buf (rn_afl s')) = length (queue_buf a)" "var_bytes (rn_afl s') = var" "first_trace (rn_afl s') = ft"
    "queued_variable (rn_afl s') = queued_variable a" "total_cal_cycles (rn_afl s') = total_cal_cycles a + cl_max c"
    using r b by simp_all
  show "rn_env s' = rn_env (cl_s c)" "cl_var (cal_record tg q handicap start_us c) = cl_var c" using s' e by simp_all
qed

lemma cal_finish_at:
  assumes "q < length (queue_buf (rn_afl (cl_s c)))"
  defines "a \<equiv> rn_afl (cl_s c)" and "b \<equiv> rn_afl (cal_finish q c)"
  shows "q_exec_cksum (entry b q) = q_exec_cksum (entry a q)" and "q_cal_failed (entry b q) = q_cal_failed (entry a q)"
    and "q_handicap (entry b q) = q_handicap (entry a q)" and "q_var_behavior (entry b q) = q_var_behavior (entry a q)"
    and "var_bytes b = var_bytes a" and "first_trace b = first_trace a" and "total_cal_cycles b = total_cal_cycles a"
    and "queued_variable b = queued_variable a + (if cl_var c \<and> \<not> q_var_behavior (entry a q) then 1 else 0)"
    and "rn_env (cal_finish q c) = rn_env (cl_s c)"
  using assms(1) by (simp_all add: a_def b_def cal_finish_def Let_def upd_entry_def)

lemma cal_loop_start:
  fixes s :: "nat rn" and xxh :: "buf \<Rightarrow> u64" and fast :: bool
  assumes g: "all_good tg (rn_afl s) q t an (rn_env s) mem" and ck: "q_exec_cksum (entry (rn_afl s) q) = 0" and go: "\<not> stop_soon s"
  defines "tr \<equiv> \<lambda>j. an_trace (an (rn_env s + j))"
  assumes h0: "trace_sum xxh (map_size (fsrv (rn_afl s))) (tr 0) \<noteq> 0"
  defines "K \<equiv> cal_runs xxh fast (map_size (fsrv (rn_afl s))) tr"
  shows "\<exists>c. cal_loop tg xxh fast t q mem 0 FSRV_RUN_OK \<lparr>cl_s = s, cl_new_bits = 0, cl_var = False, cl_max = (if fast then CAL_CYCLES_FAST else CAL_CYCLES)\<rparr> =
      Some (Inr (False, FSRV_RUN_OK, c)) \<and> cal_inv xxh fast q (rn_afl s) tr (rn_env s) K c"
proof -
  let ?b = "rn_afl s" let ?M = "map_size (fsrv ?b)"
  let ?c = "\<lparr>cl_s = s, cl_new_bits = 0, cl_var = False, cl_max = (if fast then CAL_CYCLES_FAST else CAL_CYCLES)\<rparr>"
  have at0: "rn_afl (cl_s ?c) = cal_at ?b q (trace ?b) (total_execs (fsrv ?b)) (virgin_bits ?b) (bitmap_changed ?b) (var_bytes ?b) (first_trace ?b) 0"
    using cal_at_self [OF ck] by simp
  have an0: "tg_answer tg (last_run_timed_out (cl_s ?c)) (take (q_len (entry ?b q)) mem) t (rn_env (cl_s ?c)) = (an (rn_env s + 0), rn_env s + 1)"
    using g by (simp add: all_good_def scripted_def)
  have g': "q < length (queue_buf ?b)" "good_answer tg ?M t (an (rn_env s + 0))" "q_len (entry ?b q) \<le> length mem"
    "q_len (entry ?b q) \<le> max_length ?b" "crash_mode ?b = FSRV_RUN_OK" "count_bytes ?b (written_trace ?M (an_trace (an (rn_env s + 0)))) \<noteq> 0"
    using g unfolding all_good_def by blast+
  from cal_iter_at [OF at0 g'(1) an0 g'(2) _ g'(3-6), of xxh fast] obtain c' te' vb' bc' var' where
    it: "cal_iter tg xxh fast t q mem ?c = Inr (False, FSRV_RUN_OK, c')"
    and c1: "rn_afl (cl_s c') = cal_at ?b q (classified ?M (tr 0)) te' vb' bc' var' (classified ?M (tr 0)) (trace_sum xxh ?M (tr 0))"
    "rn_env (cl_s c') = rn_env s + 1" "\<not> stop_soon (cl_s c')" "cl_var c' = False" "cl_max c' = cl_max ?c" "length var' = length (var_bytes ?b)"
    "\<forall>i < length (var_bytes ?b). i < ?M \<longrightarrow> (var' ! i \<noteq> 0 \<longleftrightarrow> var_bytes ?b ! i \<noteq> 0)"
    using h0 go by (auto simp: tr_def)
  have inv1: "cal_inv xxh fast q ?b tr (rn_env s) 1 c'"
    unfolding cal_inv_def by (intro exI conjI, rule c1(1)) (use c1 in simp_all)
  have "1 \<le> K" by (simp add: K_def cal_runs_def CAL_CYCLES_FAST_def CAL_CYCLES_def CAL_CYCLES_LONG_def)
  then obtain c where "cal_loop tg xxh fast t q mem 1 FSRV_RUN_OK c' = Some (Inr (False, FSRV_RUN_OK, c))" "cal_inv xxh fast q ?b tr (rn_env s) K c"
    using cal_loop_at [OF g _ inv1 [unfolded tr_def]] h0 unfolding K_def tr_def by auto
  moreover have "0 < cl_max ?c" by (simp add: CAL_CYCLES_FAST_def CAL_CYCLES_def)
  ultimately show ?thesis using it by (subst cal_loop.simps) simp
qed

lemma cal_inv_end:
  assumes inv: "cal_inv xxh fast q a tr e0 (cal_runs xxh fast (map_size (fsrv a)) tr) c"
  shows "cl_max c = cal_runs xxh fast (map_size (fsrv a)) tr"
    and "cl_var c \<longleftrightarrow> (\<exists>j < cal_runs xxh fast (map_size (fsrv a)) tr. trace_sum xxh (map_size (fsrv a)) (tr j) \<noteq> trace_sum xxh (map_size (fsrv a)) (tr 0))"
proof -
  let ?K = "cal_runs xxh fast (map_size (fsrv a)) tr" let ?h = "\<lambda>j. trace_sum xxh (map_size (fsrv a)) (tr j)"
  have v: "cl_var c \<longleftrightarrow> (\<exists>j < ?K. ?h j \<noteq> ?h 0)"
    "cl_max c = (if cl_var c then if fast then CAL_CYCLES else CAL_CYCLES_LONG else if fast then CAL_CYCLES_FAST else CAL_CYCLES)"
    using inv unfolding cal_inv_def by blast+
  show "cl_var c \<longleftrightarrow> (\<exists>j < ?K. ?h j \<noteq> ?h 0)" by (rule v(1))
  show "cl_max c = ?K"
  proof (cases "\<exists>i < (if fast then CAL_CYCLES_FAST else CAL_CYCLES). ?h i \<noteq> ?h 0")
    case True
    then have k: "?K = (if fast then CAL_CYCLES else CAL_CYCLES_LONG)" unfolding cal_runs_def by (rule if_P)
    have "(if fast then CAL_CYCLES_FAST else CAL_CYCLES) \<le> ?K" unfolding k by (simp add: CAL_CYCLES_FAST_def CAL_CYCLES_def CAL_CYCLES_LONG_def)
    then have "cl_var c" using True v(1) less_le_trans by blast
    then show ?thesis using v(2) k by simp
  next
    case False
    then have k: "?K = (if fast then CAL_CYCLES_FAST else CAL_CYCLES)" unfolding cal_runs_def by (rule if_not_P)
    have "\<not> cl_var c" unfolding v(1) k by (rule False)
    then show ?thesis using v(2) k by simp
  qed
qed

text \<open>C11. The first calibration of an entry by runs without a fault: it makes 7 runs, or 12 when the checksum of one of
  these differs from the first (3 or 7 in fast mode). The entry gets the checksum of the first run, and a byte of the
  map becomes variable exactly when a run with another checksum has another count there. The entry counts as variable
  again each time, because nothing sets its mark.\<close>

theorem calibrate_case_runs:
  fixes s :: "nat rn" and an :: "nat \<Rightarrow> answer" and xxh :: "buf \<Rightarrow> u64" and fast :: bool
  defines "a \<equiv> rn_afl s"
  defines "tr \<equiv> \<lambda>j. an_trace (an (rn_env s + j))"
  defines "K \<equiv> cal_runs xxh fast (map_size (fsrv a)) tr"
  defines "h \<equiv> \<lambda>j. trace_sum xxh (map_size (fsrv a)) (tr j)"
  defines "T \<equiv> \<lambda>j. classified (map_size (fsrv a)) (tr j)"
  assumes good: "all_good tg a q (cal_tmout a (\<not> from_queue \<or> resuming)) an (rn_env s) mem"
    and first: "q_exec_cksum (entry a q) = 0 \<or> cmplog_mode" and go: "\<not> stop_soon s" and h0: "h 0 \<noteq> 0"
  shows "\<exists>f s'. calibrate_case tg xxh cmplog_mode resuming fast q mem handicap from_queue s = Some (Inr (f, s')) \<and>
    f \<in> {FSRV_RUN_OK, FSRV_RUN_NOBITS} \<and> rn_env s' = rn_env s + K \<and>
    q_exec_cksum (entry (rn_afl s') q) = h 0 \<and> q_cal_failed (entry (rn_afl s') q) = 0 \<and> q_handicap (entry (rn_afl s') q) = handicap \<and>
    total_cal_cycles (rn_afl s') = total_cal_cycles a + K \<and> first_trace (rn_afl s') = T 0 \<and>
    (\<forall>i < length (var_bytes a). i < map_size (fsrv a) \<longrightarrow>
       (var_bytes (rn_afl s') ! i \<noteq> 0 \<longleftrightarrow> var_bytes a ! i \<noteq> 0 \<or> (\<exists>j < K. h j \<noteq> h 0 \<and> T j ! i \<noteq> T 0 ! i))) \<and>
    q_var_behavior (entry (rn_afl s') q) = q_var_behavior (entry a q) \<and>
    queued_variable (rn_afl s') = queued_variable a + (if (\<exists>j < K. h j \<noteq> h 0) \<and> \<not> q_var_behavior (entry a q) then 1 else 0)"
proof -
  define s1 where "s1 = (if cmplog_mode then upd_q q (\<lambda>e. e\<lparr>q_exec_cksum := 0\<rparr>) s else s)"
  define s2 where "s2 = upd_q q (\<lambda>e. e\<lparr>q_cal_failed := (q_cal_failed e + 1) mod 2 ^ 8\<rparr>) s1"
  let ?b = "rn_afl s2" let ?t = "cal_tmout a (\<not> from_queue \<or> resuming)"
  have q: "q < length (queue_buf a)" using good by (simp add: all_good_def)
  have b: "fsrv ?b = fsrv a" "length (queue_buf ?b) = length (queue_buf a)" "q_exec_cksum (entry ?b q) = 0" "q_len (entry ?b q) = q_len (entry a q)"
    "q_var_behavior (entry ?b q) = q_var_behavior (entry a q)" "max_length ?b = max_length a" "crash_mode ?b = crash_mode a"
    "var_bytes ?b = var_bytes a" "queued_variable ?b = queued_variable a" "total_cal_cycles ?b = total_cal_cycles a"
    "rn_env s2 = rn_env s" "stop_soon s2 = stop_soon s" "fsrv (rn_afl s1) = fsrv a"
    using q first by (auto simp: s1_def s2_def a_def upd_entry_def)
  have g: "all_good tg ?b q ?t an (rn_env s) mem"
    using good by (simp add: all_good_def b count_bytes_def scanned_words_def)
  obtain start_us where now: "tg_now tg (rn_env s) = (start_us, rn_env s)"
    using good unfolding all_good_def scripted_def by (metis prod.collapse)
  have se: "s2\<lparr>rn_env := rn_env s\<rparr> = s2" by (subst b(11) [symmetric]) simp
  define c where "c = \<lparr>cl_s = s2, cl_new_bits = 0, cl_var = False, cl_max = (if fast then CAL_CYCLES_FAST else CAL_CYCLES)\<rparr>"
  have cs: "calibrate_case tg xxh cmplog_mode resuming fast q mem handicap from_queue s =
      map_option (\<lambda>r. bind_err r (\<lambda>(stop, fault, c).
          if stop then Inr (fault, cal_finish q c)
          else let c = cal_record tg q handicap start_us c
               in Inr (if \<not> non_instrumented_mode (rn_afl (cl_s c)) \<and> q_exec_cksum (entry (rn_afl s) q) = 0 \<and> fault = FSRV_RUN_OK \<and> cl_new_bits c = 0
                       then FSRV_RUN_NOBITS else fault, cal_finish q c)))
        (cal_loop tg xxh fast ?t q mem 0 FSRV_RUN_OK c)"
    unfolding calibrate_case_def Let_def s1_def [symmetric] s2_def [symmetric]
    using b(3) now b(11) by (simp add: c_def cal_tmout_def b(13) se)
  have g': "q < length (queue_buf ?b)" using g by (simp add: all_good_def)
  have h0': "trace_sum xxh (map_size (fsrv ?b)) (an_trace (an (rn_env s2 + 0))) \<noteq> 0" using h0 by (simp add: h_def tr_def b(1,11))
  obtain c'' where l0: "cal_loop tg xxh fast ?t q mem 0 FSRV_RUN_OK c = Some (Inr (False, FSRV_RUN_OK, c''))"
    and inv: "cal_inv xxh fast q ?b tr (rn_env s) K c''"
    using cal_loop_start [of tg s2 q ?t an mem, OF _ b(3) _ h0'] g go unfolding c_def K_def tr_def b(1,11,12) by blast
  then obtain cur te vb bc var where at: "rn_afl (cl_s c'') = cal_at ?b q cur te vb bc var (T 0) (h 0)" and i: "rn_env (cl_s c'') = rn_env s + K"
    "\<forall>i < length (var_bytes a). i < map_size (fsrv a) \<longrightarrow> (var ! i \<noteq> 0 \<longleftrightarrow> var_bytes a ! i \<noteq> 0 \<or> (\<exists>j < K. h j \<noteq> h 0 \<and> T j ! i \<noteq> T 0 ! i))"
    unfolding cal_inv_def b(1,8) h_def T_def by blast
  have e: "cl_max c'' = K" "cl_var c'' \<longleftrightarrow> (\<exists>j < K. h j \<noteq> h 0)"
    using cal_inv_end [of xxh fast q ?b tr "rn_env s" c''] inv unfolding K_def h_def b(1) by blast+
  define r where "r = cal_record tg q handicap start_us c''"
  have nw: "\<forall>e. snd (tg_now tg e) = e" using good by (simp add: all_good_def scripted_def)
  note rc = cal_record_at [OF at g' nw, of handicap start_us, folded r_def]
  have qr: "q < length (queue_buf (rn_afl (cl_s r)))" using rc(5) g' by simp
  note fi = cal_finish_at [OF qr]
  define f where "f = (if \<not> non_instrumented_mode (rn_afl (cl_s r)) \<and> q_exec_cksum (entry (rn_afl s) q) = 0 \<and> cl_new_bits r = 0 then FSRV_RUN_NOBITS else FSRV_RUN_OK)"
  have res: "calibrate_case tg xxh cmplog_mode resuming fast q mem handicap from_queue s = Some (Inr (f, cal_finish q r))"
    unfolding cs l0 by (simp add: r_def [symmetric] Let_def f_def)
  show ?thesis
    by (rule exI [of _ f], rule exI [of _ "cal_finish q r"])
      (use res rc fi i e b in \<open>simp add: f_def\<close>)
qed

text \<open>A target whose trace is one byte for every input, and an entry of six bytes.\<close>

definition one_byte_answer :: answer where
  "one_byte_answer = \<lparr>an_ms = 1, an_status = 0, an_trace = [1], an_stop = False, an_skip = False\<rparr>"

definition one_byte_target :: "nat target" where
  "one_byte_target = \<lparr>tg_answer = \<lambda>_ _ _ e. (one_byte_answer, e + 1), tg_now = \<lambda>e. (0, e), tg_uses_asan = 0,
     tg_uses_crash_exitcode = False, tg_crash_exitcode = 0\<rparr>"

definition six_bytes :: "u64 \<Rightarrow> nat rn" where
  "six_bytes ck = \<lparr>rn_afl = (campaign_start 4)\<lparr>queue_buf := [queue_entry_zero\<lparr>q_len := 6, q_exec_cksum := ck\<rparr>]\<rparr>, rn_env = 0, rn_file = (\<lambda>_. Some [1, 2, 3, 4, 5, 6]),
     last_run_timed_out = False, stop_soon = False, skip_requested = False, subseq_tmouts = 0, cur_skipped_items = 0,
     trim_execs = 0, bytes_trim_in = 0, bytes_trim_out = 0\<rparr>"

lemma one_byte_deterministic: "deterministic one_byte_target (\<lambda>_. [1])"
  by (simp add: deterministic_def one_byte_target_def one_byte_answer_def)

lemma six_bytes_entry:
  "length (queue_buf (rn_afl (six_bytes ck))) = 1" "q_len (entry (rn_afl (six_bytes ck)) 0) = 6"
  "q_exec_cksum (entry (rn_afl (six_bytes ck)) 0) = ck" "q_testcase_buf (entry (rn_afl (six_bytes ck)) 0) = None"
  "q_var_behavior (entry (rn_afl (six_bytes ck)) 0) = False"
  "fsrv (rn_afl (six_bytes ck)) = fsrv (campaign_start 4)" "rn_file (six_bytes ck) 0 = Some [1, 2, 3, 4, 5, 6]"
  "stop_soon (six_bytes ck) = False" "rn_env (six_bytes ck) = 0" "crash_mode (rn_afl (six_bytes ck)) = FSRV_RUN_OK"
  "max_length (rn_afl (six_bytes ck)) = 1048576" "queued_variable (rn_afl (six_bytes ck)) = 0"
  "total_cal_cycles (rn_afl (six_bytes ck)) = 0"
  by (simp_all add: six_bytes_def queue_entry_zero_def campaign_start_eq)

theorem trim_case_correct_witness:
  "\<exists>y. trim_case one_byte_target (\<lambda>_. 1) False 0 [1, 2, 3, 4, 5, 6] (six_bytes 1) = Some y \<and>
    (case y of Inl e \<Rightarrow> \<exists>m. e = RX_FATAL (FatalMsg m)
     | Inr (fault, s') \<Rightarrow> \<exists>z. subseq z [1, 2, 3, 4, 5, 6] \<and> q_len (entry (rn_afl s') 0) = length z \<and> 4 \<le> length z \<and> take 4 z = [1, 2, 3, 4] \<and>
         (stop_soon s' \<or> fault = FSRV_RUN_ERROR \<or> rn_file s' 0 = Some z))"
proof -
  have "0 < length (queue_buf (rn_afl (six_bytes 1)))" "length [1, 2, 3, 4, 5, 6 :: u8] = q_len (entry (rn_afl (six_bytes 1)) 0)"
    "q_testcase_buf (entry (rn_afl (six_bytes 1)) 0) = (if False then Some [1, 2, 3, 4, 5, 6] else None)"
    by (simp_all add: six_bytes_entry)
  from trim_case_correct [OF one_byte_deterministic this, of "\<lambda>_. 1"] obtain y where
    y: "trim_case one_byte_target (\<lambda>_. 1) False 0 [1, 2, 3, 4, 5, 6] (six_bytes 1) = Some y"
    "case y of Inl e \<Rightarrow> \<exists>m. e = RX_FATAL (FatalMsg m)
     | Inr (fault, s') \<Rightarrow> \<exists>z. subseq z [1, 2, 3, 4, 5, 6] \<and> q_len (entry (rn_afl s') 0) = length z \<and>
        (5 \<le> length [1, 2, 3, 4, 5, 6 :: u8] \<longrightarrow> 4 \<le> length z \<and> take 4 z = take 4 [1, 2, 3, 4, 5, 6]) \<and>
        (z \<noteq> [1, 2, 3, 4, 5, 6] \<longrightarrow> trace_sum (\<lambda>_. 1) (map_size (fsrv (rn_afl (six_bytes 1)))) [1] = q_exec_cksum (entry (rn_afl (six_bytes 1)) 0)) \<and>
        (stop_soon s' \<or> fault = FSRV_RUN_ERROR \<or> rn_file s' 0 = (if z = [1, 2, 3, 4, 5, 6] then rn_file (six_bytes 1) 0 else Some z))"
    by blast
  show ?thesis
  proof (intro exI [of _ y] conjI y(1))
    show "case y of Inl e \<Rightarrow> \<exists>m. e = RX_FATAL (FatalMsg m)
     | Inr (fault, s') \<Rightarrow> \<exists>z. subseq z [1, 2, 3, 4, 5, 6] \<and> q_len (entry (rn_afl s') 0) = length z \<and> 4 \<le> length z \<and> take 4 z = [1, 2, 3, 4] \<and>
         (stop_soon s' \<or> fault = FSRV_RUN_ERROR \<or> rn_file s' 0 = Some z)"
      using y(2) unfolding six_bytes_entry(7) by (cases y) (auto split: if_splits)
  qed
qed

lemma one_byte_written: "take 4 (written_trace 64 [1]) = [1, 0, 0, 0]" "(le_word [1, 0, 0, 0] :: u32) = 1"
  by (simp_all add: written_trace_def take_Cons numeral_eq_Suc)

lemma one_byte_counted: "count_bytes (rn_afl (six_bytes ck)) (written_trace 64 [1]) \<noteq> 0"
proof -
  have "scanned_words (rn_afl (six_bytes ck)) = Suc 0" by (simp add: scanned_words_def six_bytes_entry)
  then show ?thesis by (simp add: count_bytes_def one_byte_written)
qed

lemma one_byte_good: "all_good one_byte_target (rn_afl (six_bytes 0)) 0 1000 (\<lambda>_. one_byte_answer) 0 [1, 2, 3, 4, 5, 6]"
  using one_byte_counted [of 0]
  by (simp add: all_good_def scripted_def good_answer_def is_crash_def WIFSIGNALED_def six_bytes_entry one_byte_written EXEC_FAIL_SIG_def
      one_byte_target_def one_byte_answer_def)

theorem calibrate_case_runs_witness:
  "\<exists>f s'. calibrate_case one_byte_target (\<lambda>_. 1) False False False 0 [1, 2, 3, 4, 5, 6] 3 True (six_bytes 0) = Some (Inr (f, s')) \<and>
     rn_env s' = 7 \<and> q_exec_cksum (entry (rn_afl s') 0) = 1 \<and> q_handicap (entry (rn_afl s') 0) = 3 \<and> queued_variable (rn_afl s') = 0"
proof -
  have ts: "trace_sum (\<lambda>_. 1) n t = 1" for n t by (simp add: trace_sum_def hash64_def)
  have K: "cal_runs (\<lambda>_. 1) False n t = 7" for n t by (simp add: cal_runs_def ts CAL_CYCLES_def)
  have tm: "cal_tmout (rn_afl (six_bytes 0)) (\<not> True \<or> False) = 1000"
    by (simp add: cal_tmout_def six_bytes_entry campaign_start_eq)
  have "all_good one_byte_target (rn_afl (six_bytes 0)) 0 (cal_tmout (rn_afl (six_bytes 0)) (\<not> True \<or> False)) (\<lambda>_. one_byte_answer) (rn_env (six_bytes 0)) [1, 2, 3, 4, 5, 6]"
    using one_byte_good by (simp only: tm six_bytes_entry)
  from calibrate_case_runs [OF this, of False "\<lambda>_. 1" False 3]
  have "\<exists>f s'. calibrate_case one_byte_target (\<lambda>_. 1) False False False 0 [1, 2, 3, 4, 5, 6] 3 True (six_bytes 0) = Some (Inr (f, s')) \<and>
     f \<in> {FSRV_RUN_OK, FSRV_RUN_NOBITS} \<and> rn_env s' = 0 + 7 \<and> q_exec_cksum (entry (rn_afl s') 0) = 1 \<and>
     q_handicap (entry (rn_afl s') 0) = 3 \<and> queued_variable (rn_afl s') = 0"
    unfolding ts K six_bytes_entry by simp blast
  then show ?thesis by auto
qed

end
