(* ===== verification/Skipdet.thy ===== *)
theory Skipdet
  imports Detstage
begin

unbundle bit_operations_syntax

text \<open>
  The inference of the effector map (\<open>src/afl-fuzz-skipdet.c\<close>): \<open>should_det_fuzz\<close> decides whether an
  entry covers enough bits that no deterministic stage has seen, \<open>skip_deterministic_stage\<close> then finds
  the bytes worth fuzzing. Blocks whose inversion does not change the trace are skipped; each other byte
  is replaced by a random one, and selected when that finds something. What the stage calls is the
  \<open>host\<close> of the deterministic stages. The environment variables are the arguments
  \<open>repeat_eff\<close> and \<open>fuzz_nearby\<close>. The profiling fields \<open>inf_execs_cost\<close> and \<open>inf_time_cost\<close> are left out.
\<close>

section \<open>State\<close>

record skipdet_entry =
  continue_inf :: bool
  done_eff :: bool
  undet_bits :: nat
  quick_eff_bytes :: nat
  skip_eff_map :: "buf option"
  done_inf_map :: "buf option"

record skipdet_global =
  undet_bits_threshold :: nat
  last_cov_undet :: u64
  virgin_det_bits :: "buf option"
  inf_skipped_bytes :: nat

record 'e sd =
  sd_out :: buf
  sd_afl :: afl_state
  sd_env :: 'e
  sd_g :: skipdet_global
  sd_e :: "nat \<Rightarrow> skipdet_entry"
  sd_inf_eff_map :: buf
  sd_non_eff :: buf
  sd_stage_cur :: nat
  sd_stage_max :: nat
  sd_finds :: "stage \<Rightarrow> u64"
  sd_cycles :: "stage \<Rightarrow> u64"

definition MINIMAL_BLOCK_SIZE :: nat where "MINIMAL_BLOCK_SIZE = 64"
definition MAXIMUM_QUICK_EFF_EXECS :: nat where "MAXIMUM_QUICK_EFF_EXECS = 65536"
definition THRESHOLD_DEC_TIME :: u64 where "THRESHOLD_DEC_TIME = 1200000"

section \<open>Which entries are inferred\<close>

definition trace_mini_bit :: "buf \<Rightarrow> nat \<Rightarrow> bool" where
  "trace_mini_bit tm i \<longleftrightarrow> tm ! (i div 8) AND push_bit (i mod 8) 1 \<noteq> 0"

definition new_det_bits :: "nat \<Rightarrow> buf \<Rightarrow> buf \<Rightarrow> nat" where
  "new_det_bits n tm v = length (filter (\<lambda>i. trace_mini_bit tm i \<and> v ! i = 0) [0..<n])"

definition mark_det_bits :: "nat \<Rightarrow> buf \<Rightarrow> buf \<Rightarrow> buf" where
  "mark_det_bits n tm v = fold (\<lambda>i v. if trace_mini_bit tm i \<and> v ! i = 0 then v[i := 1] else v) [0..<n] v"

text \<open>The threshold is an unsigned integer: \<open>*= 0.75\<close> and \<open>* 0.05\<close> truncate, which is the division
  written here for all 32-bit values.\<close>

definition decay :: "('e \<Rightarrow> u64 \<times> 'e) \<Rightarrow> skipdet_global \<Rightarrow> 'e \<Rightarrow> skipdet_global \<times> 'e" where
  "decay clock g e =
    (let (g, e) = (if last_cov_undet g = 0 then let (t, e) = clock e in (g\<lparr>last_cov_undet := t\<rparr>, e) else (g, e));
         (now, e) = clock e
     in if now - last_cov_undet g \<ge> THRESHOLD_DEC_TIME \<and> undet_bits_threshold g \<ge> 2
        then let (t, e) = clock e
             in (g\<lparr>undet_bits_threshold := undet_bits_threshold g * 3 div 4, last_cov_undet := t\<rparr>, e)
        else (g, e))"

definition should_det_fuzz ::
    "('e \<Rightarrow> u64 \<times> 'e) \<Rightarrow> nat \<Rightarrow> queue_entry \<Rightarrow> skipdet_entry \<Rightarrow> skipdet_global \<Rightarrow> 'e
      \<Rightarrow> bool \<times> skipdet_entry \<times> skipdet_global \<times> 'e" where
  "should_det_fuzz clock n q k g e =
    (let g = (if virgin_det_bits g = None then g\<lparr>virgin_det_bits := Some (replicate n 0)\<rparr> else g)
     in if \<not> q_favored q \<or> q_passed_det q then (False, k, g, e)
        else case q_trace_mini q of
            None \<Rightarrow> (False, k, g, e)
          | Some tm \<Rightarrow>
              let (g, e) = decay clock g e; v = the (virgin_det_bits g); new = new_det_bits n tm v;
                  g = (if undet_bits_threshold g = 0 then g\<lparr>undet_bits_threshold := new div 20\<rparr> else g)
              in if new \<ge> undet_bits_threshold g
                 then let (t, e) = clock e
                      in (True, k\<lparr>undet_bits := new\<rparr>, g\<lparr>last_cov_undet := t, virgin_det_bits := Some (mark_det_bits n tm v)\<rparr>, e)
                 else (False, k, g, e))"

section \<open>Blocks that do not matter\<close>

definition flip_range :: "nat \<Rightarrow> nat \<Rightarrow> buf \<Rightarrow> buf" where
  "flip_range pos n input = fold (\<lambda>i b. b[pos + i := b ! (pos + i) XOR 0xFF]) [0..<n] input"

definition zero_range :: "nat \<Rightarrow> nat \<Rightarrow> buf \<Rightarrow> buf" where
  "zero_range pos n m = take pos m @ replicate n 0 @ drop (pos + n) m"

definition sd_submit :: "'e host \<Rightarrow> buf \<Rightarrow> 'e sd \<Rightarrow> bool \<times> 'e sd" where
  "sd_submit h mem s =
    (let (bail, a, e) = h_fuzz h mem (sd_afl s, sd_env s) in (bail, s\<lparr>sd_afl := a, sd_env := e\<rparr>))"

definition sd_cksum :: "'e host \<Rightarrow> 'e sd \<Rightarrow> u64" where
  "sd_cksum h s = hash64 (h_xxh3 h) (take (map_size (fsrv (sd_afl s))) (trace (sd_afl s))) HASH_CONST"

definition sd_edit :: "(buf \<Rightarrow> buf) \<Rightarrow> 'e sd \<Rightarrow> 'e sd" where
  "sd_edit f s = s\<lparr>sd_out := f (sd_out s)\<rparr>"

text \<open>The block at \<open>pos\<close> is doubled as long as its inversion changes nothing. The result has the size
  reached, and whether to abandon the entry.\<close>

partial_function (option) inf_grow ::
    "'e host \<Rightarrow> u64 \<Rightarrow> nat \<Rightarrow> nat \<Rightarrow> nat \<Rightarrow> nat \<Rightarrow> 'e sd \<Rightarrow> (bool \<times> nat \<times> 'e sd) option" where
  "inf_grow h prev len pos max_block cur s =
    (if cur < max_block
     then
       let n = (if cur + pos < len then cur else len - 1 - pos);
           s = sd_edit (flip_range pos n) (s\<lparr>sd_stage_cur := sd_stage_cur s + 1\<rparr>);
           (bail, s) = sd_submit h (sd_out s) s
       in if bail then Some (True, cur, s)
          else
            let s = sd_edit (flip_range pos n) s
            in if sd_cksum h s = prev
               then if cur * 2 \<ge> len - 1 - pos then Some (False, cur * 2, s)
                    else inf_grow h prev len pos max_block (cur * 2) s
               else Some (False, cur, s)
     else Some (False, cur, s))"

definition skip_block :: "nat \<Rightarrow> nat \<Rightarrow> nat \<Rightarrow> 'e sd \<Rightarrow> nat \<times> 'e sd" where
  "skip_block len pos cur s =
    (if cur = MINIMAL_BLOCK_SIZE then (pos + cur, s)
     else let n = (if cur div 2 + pos < len then cur div 2 else len - pos - 1)
          in (pos + n, s\<lparr>sd_inf_eff_map := zero_range pos n (sd_inf_eff_map s),
                sd_g := (sd_g s)\<lparr>inf_skipped_bytes := inf_skipped_bytes (sd_g s) + n\<rparr>\<rparr>))"

partial_function (option) inf_loop :: "'e host \<Rightarrow> u64 \<Rightarrow> nat \<Rightarrow> nat \<Rightarrow> 'e sd \<Rightarrow> (bool \<times> 'e sd) option" where
  "inf_loop h prev len pos s =
    (if pos < len - 1
     then (case inf_grow h prev len pos (len div 8) MINIMAL_BLOCK_SIZE s of
         None \<Rightarrow> None
       | Some (bail, cur, s) \<Rightarrow>
           if bail then Some (True, s)
           else let (pos, s) = skip_block len pos cur s in inf_loop h prev len pos s)
     else Some (False, s))"

definition inference :: "'e host \<Rightarrow> u64 \<Rightarrow> nat \<Rightarrow> 'e sd \<Rightarrow> (bool \<times> 'e sd) option" where
  "inference h prev len s =
    (if MINIMAL_BLOCK_SIZE * 8 < len then inf_loop h prev len 0 s
     else Some (False, s\<lparr>sd_inf_eff_map := replicate len 1\<rparr>))"

section \<open>Bytes that find something\<close>

text \<open>\<open>replace = rand_below(afl, 256); while (replace == orig) \<dots>\<close>; \<open>None\<close> when it does not end.\<close>

partial_function (option) other_byte :: "'e host \<Rightarrow> u8 \<Rightarrow> 'e \<Rightarrow> (u8 \<times> 'e) option" where
  "other_byte h orig e =
    (let (v, e) = h_rand_below h 256 e in if of_nat v = orig then other_byte h orig e else Some (of_nat v, e))"

definition upd_sd_entry :: "nat \<Rightarrow> (skipdet_entry \<Rightarrow> skipdet_entry) \<Rightarrow> 'e sd \<Rightarrow> 'e sd" where
  "upd_sd_entry q f s = s\<lparr>sd_e := (sd_e s)(q := f (sd_e s q))\<rparr>"

abbreviation eff_map_of :: "nat \<Rightarrow> 'e sd \<Rightarrow> buf" where
  "eff_map_of q s \<equiv> the (skip_eff_map (sd_e s q))"

text \<open>The byte at \<open>stage_cur\<close> was submitted with another value; the result says whether another round follows.\<close>

definition quick_record :: "'e host \<Rightarrow> bool \<Rightarrow> bool \<Rightarrow> u64 \<Rightarrow> nat \<Rightarrow> nat \<Rightarrow> bool \<Rightarrow> 'e sd \<Rightarrow> bool \<times> 'e sd" where
  "quick_record h repeat_eff fuzz_nearby prev q before cont s =
    (let i = sd_stage_cur s;
         s = (if fuzz_nearby \<and> prev = sd_cksum h s then s\<lparr>sd_non_eff := (sd_non_eff s)[i := 1]\<rparr> else s);
         (cont, s) = (if queued_items (sd_afl s) \<noteq> before
            then let s = upd_sd_entry q (\<lambda>k. k\<lparr>skip_eff_map := Some (bitmap_set (the (skip_eff_map k)) i),
                         quick_eff_bytes := quick_eff_bytes k + 1\<rparr>) s;
                     s = (if sd_stage_max s < MAXIMUM_QUICK_EFF_EXECS then s\<lparr>sd_stage_max := sd_stage_max s * 2\<rparr> else s)
                 in (if sd_stage_max s = MAXIMUM_QUICK_EFF_EXECS \<and> repeat_eff then True else cont, s)
            else (cont, s))
     in (cont, upd_sd_entry q (\<lambda>k. k\<lparr>done_inf_map := Some (bitmap_set (the (done_inf_map k)) i)\<rparr>) s))"

datatype quick_exit = Q_BAIL | Q_TIMEOUT | Q_DONE

partial_function (option) quick_loop ::
    "'e host \<Rightarrow> bool \<Rightarrow> bool \<Rightarrow> u64 \<Rightarrow> nat \<Rightarrow> nat \<Rightarrow> u64 \<Rightarrow> bool \<Rightarrow> 'e sd \<Rightarrow> (quick_exit \<times> bool \<times> 'e sd) option" where
  "quick_loop h repeat_eff fuzz_nearby prev len q t0 cont s =
    (let i = sd_stage_cur s; next_byte = (\<lambda>s. s\<lparr>sd_stage_cur := sd_stage_cur s + 1\<rparr>)
     in if \<not> (i < sd_stage_max s \<and> i < len) then Some (Q_DONE, cont, s)
        else if sd_inf_eff_map s ! i = 0 \<or> bitmap_read (eff_map_of q s) i \<noteq> 0
        then quick_loop h repeat_eff fuzz_nearby prev len q t0 cont (next_byte s)
        else
          let (now, e) = get_cur_time h (sd_env s); s = s\<lparr>sd_env := e\<rparr>
          in if is_det_timeout now t0 True then Some (Q_TIMEOUT, cont, s)
             else case other_byte h (sd_out s ! i) (sd_env s) of
                 None \<Rightarrow> None
               | Some (v, e) \<Rightarrow>
                   let orig = sd_out s ! i; s = sd_edit (\<lambda>b. b[i := v]) (s\<lparr>sd_env := e\<rparr>); before = queued_items (sd_afl s);
                       (bail, s) = sd_submit h (sd_out s) s
                   in if bail then Some (Q_BAIL, cont, s)
                      else let (cont, s) = quick_record h repeat_eff fuzz_nearby prev q before cont (sd_edit (\<lambda>b. b[i := orig]) s)
                           in quick_loop h repeat_eff fuzz_nearby prev len q t0 cont (next_byte s))"

text \<open>At most eight rounds; the argument counts down.\<close>

fun eff_rounds :: "'e host \<Rightarrow> bool \<Rightarrow> bool \<Rightarrow> u64 \<Rightarrow> nat \<Rightarrow> nat \<Rightarrow> u64 \<Rightarrow> nat \<Rightarrow> 'e sd \<Rightarrow> (quick_exit \<times> 'e sd) option" where
  "eff_rounds h repeat_eff fuzz_nearby prev len q t0 0 s = Some (Q_DONE, s)"
| "eff_rounds h repeat_eff fuzz_nearby prev len q t0 (Suc n) s =
    (case quick_loop h repeat_eff fuzz_nearby prev len q t0 False (s\<lparr>sd_stage_max := 32 * 1024\<rparr>) of
       None \<Rightarrow> None
     | Some (Q_DONE, cont, s) \<Rightarrow>
         let s = s\<lparr>sd_stage_cur := 0\<rparr>
         in if cont then eff_rounds h repeat_eff fuzz_nearby prev len q t0 n s else Some (Q_DONE, s)
     | Some (ex, _, s) \<Rightarrow> Some (ex, s))"

text \<open>The bytes near a selected one.\<close>

function nearby :: "buf \<Rightarrow> nat \<Rightarrow> nat \<Rightarrow> buf \<Rightarrow> buf" where
  "nearby eff len i m =
    (if i < len
     then if bitmap_read eff i \<noteq> 0
          then let n = (if i + 3 < len then 7 else len - i + 2)
               in nearby eff len (i + 3) (take (i - 3) m @ replicate n 1 @ drop (i - 3 + n) m)
          else nearby eff len (i + 1) m
     else m)"
  by pat_completeness auto
termination by (relation "measure (\<lambda>(_, len, i, _). len - i)") auto

declare nearby.simps [simp del]

definition add_nearby :: "nat \<Rightarrow> buf \<Rightarrow> buf \<Rightarrow> buf" where
  "add_nearby len non_eff eff =
    (let m = nearby eff len 3 (replicate len 0)
     in fold (\<lambda>i eff. if m ! i \<noteq> 0 \<and> non_eff ! i = 0 then bitmap_set eff i else eff) [0..<len] eff)"

section \<open>The stage\<close>

definition first_undone :: "buf \<Rightarrow> nat \<Rightarrow> nat" where
  "first_undone m len = (case find (\<lambda>i. bitmap_read m i = 0) [0..<len] of None \<Rightarrow> len | Some i \<Rightarrow> i)"

text \<open>The maps of the entry: the effector map is cleared; the other map says where to go on.\<close>

definition quick_start :: "nat \<Rightarrow> nat \<Rightarrow> 'e sd \<Rightarrow> 'e sd" where
  "quick_start len q s =
    (let k = sd_e s q; n = (len + 7) div 8
     in upd_sd_entry q (\<lambda>k. k\<lparr>skip_eff_map := Some (case skip_eff_map k of None \<Rightarrow> replicate n 0 | Some m \<Rightarrow> replicate n 0 @ drop n m),
            done_inf_map := Some (case done_inf_map k of None \<Rightarrow> replicate n 0 | Some m \<Rightarrow> m)\<rparr>)
          (s\<lparr>sd_stage_cur := (case done_inf_map k of None \<Rightarrow> 0 | Some m \<Rightarrow> first_undone m len), sd_stage_max := 32 * 1024\<rparr>))"

definition sd_hits :: "'e sd \<Rightarrow> u64" where
  "sd_hits s = of_nat (queued_items (sd_afl s) + saved_crashes (sd_afl s))"

definition quick_end :: "bool \<Rightarrow> nat \<Rightarrow> nat \<Rightarrow> bool \<Rightarrow> 'e sd \<Rightarrow> 'e sd" where
  "quick_end fuzz_nearby len q finished s =
    (let s = (if fuzz_nearby then upd_sd_entry q (\<lambda>k. k\<lparr>skip_eff_map := Some (add_nearby len (sd_non_eff s) (the (skip_eff_map k)))\<rparr>) s else s)
     in upd_sd_entry q (\<lambda>k. if finished then k\<lparr>continue_inf := False, done_eff := True\<rparr> else k\<lparr>continue_inf := True\<rparr>) s)"

text \<open>\<open>done_eff\<close> is set before a later round can time out.\<close>

definition quick_stage :: "'e host \<Rightarrow> bool \<Rightarrow> bool \<Rightarrow> u64 \<Rightarrow> nat \<Rightarrow> nat \<Rightarrow> u64 \<Rightarrow> 'e sd \<Rightarrow> (bool \<times> 'e sd) option" where
  "quick_stage h repeat_eff fuzz_nearby prev len q t0 s =
    (let hits = sd_hits s; execs = total_execs (fsrv (sd_afl s)); s = quick_start len q s;
         (bail, prev, s) =
           (if fuzz_nearby
            then let (bail, s) = sd_submit h (sd_out s) (s\<lparr>sd_non_eff := replicate len 0\<rparr>) in (bail, sd_cksum h s, s)
            else (False, prev, s))
     in if bail then Some (False, s)
        else case quick_loop h repeat_eff fuzz_nearby prev len q t0 False (s\<lparr>sd_stage_max := 32 * 1024\<rparr>) of
            None \<Rightarrow> None
          | Some (Q_BAIL, _, s) \<Rightarrow> Some (False, s)
          | Some (Q_TIMEOUT, _, s) \<Rightarrow> Some (True, quick_end fuzz_nearby len q False s)
          | Some (Q_DONE, cont, s) \<Rightarrow>
              (case (if cont then eff_rounds h repeat_eff fuzz_nearby prev len q t0 7 (s\<lparr>sd_stage_cur := 0\<rparr>)
                     else Some (Q_DONE, s\<lparr>sd_stage_cur := 0\<rparr>)) of
                 None \<Rightarrow> None
               | Some (Q_BAIL, s) \<Rightarrow> Some (False, s)
               | Some (Q_TIMEOUT, s) \<Rightarrow> Some (True, quick_end fuzz_nearby len q True s)
               | Some (Q_DONE, s) \<Rightarrow>
                   Some (True, quick_end fuzz_nearby len q True
                     (s\<lparr>sd_finds := (sd_finds s)(STAGE_QUICK := sd_finds s STAGE_QUICK + (sd_hits s - hits)),
                        sd_cycles := (sd_cycles s)(STAGE_QUICK := sd_cycles s STAGE_QUICK + (of_nat (total_execs (fsrv (sd_afl s))) - of_nat execs))\<rparr>))))"

text \<open>The result is the returned value, 0 when the entry is to be abandoned.\<close>

definition skip_deterministic_stage ::
    "'e host \<Rightarrow> bool \<Rightarrow> bool \<Rightarrow> buf \<Rightarrow> nat \<Rightarrow> nat \<Rightarrow> u64 \<Rightarrow> 'e sd \<Rightarrow> (bool \<times> 'e sd) option" where
  "skip_deterministic_stage h repeat_eff fuzz_nearby orig_buf len q t0 s =
    (if done_eff (sd_e s q) then Some (True, s)
     else
       let (go, k, g, e) = should_det_fuzz (get_cur_time h) (map_size (fsrv (sd_afl s))) (entry (sd_afl s) q) (sd_e s q) (sd_g s) (sd_env s);
           s = (upd_sd_entry q (\<lambda>_. k) s)\<lparr>sd_g := g, sd_env := e\<rparr>
       in if \<not> go then Some (True, s)
          else
            let s = s\<lparr>sd_stage_cur := 0, sd_inf_eff_map := replicate len 1\<rparr>; hits = sd_hits s;
                (bail, s) = sd_submit h orig_buf s
            in if bail then Some (False, s)
               else let prev = sd_cksum h s in
               case inference h prev len s of
                 None \<Rightarrow> None
               | Some (bail, s) \<Rightarrow>
                   if bail then Some (False, s)
                   else quick_stage h repeat_eff fuzz_nearby prev len q t0
                          (s\<lparr>sd_finds := (sd_finds s)(STAGE_INF := sd_finds s STAGE_INF + (sd_hits s - hits)),
                             sd_cycles := (sd_cycles s)(STAGE_INF := sd_cycles s STAGE_INF + of_nat (sd_stage_cur s))\<rparr>))"

section \<open>The inversion of a block\<close>

lemma length_flip_range [simp]: "length (flip_range pos n b) = length b"
  unfolding flip_range_def by (induction n) auto

lemma nth_flip_range:
  "i < length b \<Longrightarrow> flip_range pos n b ! i = (if pos \<le> i \<and> i < pos + n then b ! i XOR 0xFF else b ! i)"
proof (induction n)
  case (Suc n)
  have "flip_range pos (Suc n) b = (flip_range pos n b)[pos + n := flip_range pos n b ! (pos + n) XOR 0xFF]" by (simp add: flip_range_def)
  with Suc show ?case by (cases "i = pos + n") auto
qed (auto simp: flip_range_def)

lemma flip_range_twice [simp]: "flip_range pos n (flip_range pos n b) = b"
  by (rule nth_equalityI) (auto simp: nth_flip_range xor.assoc)

lemma length_zero_range [simp]: "pos + n \<le> length m \<Longrightarrow> length (zero_range pos n m) = length m"
  by (simp add: zero_range_def)

lemma nth_zero_range:
  "pos + n \<le> length m \<Longrightarrow> i < length m \<Longrightarrow> zero_range pos n m ! i = (if pos \<le> i \<and> i < pos + n then 0 else m ! i)"
  by (auto simp: zero_range_def nth_append)

section \<open>The inference\<close>

text \<open>The checksum of the trace depends on the input only.\<close>

definition traces_by :: "'e host \<Rightarrow> (buf \<Rightarrow> u64) \<Rightarrow> bool" where
  "traces_by h ck \<longleftrightarrow> (\<forall>mem a e. case h_fuzz h mem (a, e) of
     (_, a', _) \<Rightarrow> hash64 (h_xxh3 h) (take (map_size (fsrv a')) (trace a')) HASH_CONST = ck mem)"

lemma submit_sel:
  assumes "sd_submit h mem s = (bail, s')"
  shows "sd_out s' = sd_out s" "sd_e s' = sd_e s" "sd_inf_eff_map s' = sd_inf_eff_map s" "sd_stage_cur s' = sd_stage_cur s"
    "sd_stage_max s' = sd_stage_max s" "sd_non_eff s' = sd_non_eff s" "sd_g s' = sd_g s" "traces_by h ck \<Longrightarrow> sd_cksum h s' = ck mem"
  using assms by (auto simp: sd_submit_def traces_by_def sd_cksum_def split: prod.splits) metis

text \<open>The block at \<open>pos\<close> of size \<open>n\<close>, cut off before the last byte.\<close>

definition cut :: "nat \<Rightarrow> nat \<Rightarrow> nat \<Rightarrow> nat" where
  "cut len pos n = (if n + pos < len then n else len - 1 - pos)"

definition neutral :: "(buf \<Rightarrow> u64) \<Rightarrow> u64 \<Rightarrow> buf \<Rightarrow> nat \<Rightarrow> bool" where
  "neutral ck prev x i \<longleftrightarrow> (\<exists>p n. p \<le> i \<and> i < p + n \<and> p + n \<le> length x \<and> ck (flip_range p n x) = prev)"

definition grown :: "'e host \<Rightarrow> (buf \<Rightarrow> u64) \<Rightarrow> u64 \<Rightarrow> buf \<Rightarrow> nat \<Rightarrow> nat \<Rightarrow> bool" where
  "grown h ck prev x pos cur \<longleftrightarrow> MINIMAL_BLOCK_SIZE \<le> cur \<and>
     (cur \<noteq> MINIMAL_BLOCK_SIZE \<longrightarrow> 2 * MINIMAL_BLOCK_SIZE \<le> cur \<and>
        (traces_by h ck \<longrightarrow> ck (flip_range pos (cut (length x) pos (cur div 2)) x) = prev))"

lemma inf_grow_ok:
  assumes "sd_out s = x" and "grown h ck prev x pos cur"
  shows "\<exists>bail cur' s'. inf_grow h prev (length x) pos mx cur s = Some (bail, cur', s') \<and>
    (\<not> bail \<longrightarrow> sd_out s' = x) \<and> sd_e s' = sd_e s \<and> sd_inf_eff_map s' = sd_inf_eff_map s \<and> grown h ck prev x pos cur'"
  using assms
proof (induction "mx - cur" arbitrary: cur s rule: less_induct)
  case less
  have c: "0 < cur" using less.prems(2) by (simp add: grown_def MINIMAL_BLOCK_SIZE_def)
  show ?case
  proof (cases "cur < mx")
    case False
    then show ?thesis using less.prems by (subst inf_grow.simps) auto
  next
    case True
    let ?n = "cut (length x) pos cur"
    let ?s1 = "sd_edit (flip_range pos ?n) (s\<lparr>sd_stage_cur := sd_stage_cur s + 1\<rparr>)"
    obtain bail s2 where sub: "sd_submit h (sd_out ?s1) ?s1 = (bail, s2)" by fastforce
    let ?s3 = "sd_edit (flip_range pos ?n) s2"
    have eq: "inf_grow h prev (length x) pos mx cur s = (if bail then Some (True, cur, s2)
        else if sd_cksum h ?s3 = prev
          then if cur * 2 \<ge> length x - 1 - pos then Some (False, cur * 2, ?s3) else inf_grow h prev (length x) pos mx (cur * 2) ?s3
          else Some (False, cur, ?s3))"
      using True sub by (subst inf_grow.simps) (simp add: Let_def cut_def)
    note sel = submit_sel [OF sub]
    have o: "sd_out ?s3 = x" "sd_e ?s3 = sd_e s" "sd_inf_eff_map ?s3 = sd_inf_eff_map s" using sel less.prems(1) by (simp_all add: sd_edit_def)
    have ck: "traces_by h ck \<Longrightarrow> sd_cksum h ?s3 = ck (flip_range pos ?n x)"
      using sel(8) less.prems(1) by (simp add: sd_edit_def sd_cksum_def)
    have g: "grown h ck prev x pos (cur * 2)" if "sd_cksum h ?s3 = prev"
      using less.prems(2) that ck by (auto simp: grown_def)
    show ?thesis
    proof (cases "bail \<or> sd_cksum h ?s3 \<noteq> prev \<or> cur * 2 \<ge> length x - 1 - pos")
      case True
      then show ?thesis unfolding eq using o g less.prems(2) sel(2,3) by (auto simp: sd_edit_def)
    next
      case False
      then have "mx - cur * 2 < mx - cur" using c \<open>cur < mx\<close> by simp
      from less.hyps [OF this o(1) g] False show ?thesis unfolding eq using o(2,3) by auto
    qed
  qed
qed

definition inf_ok :: "'e host \<Rightarrow> (buf \<Rightarrow> u64) \<Rightarrow> u64 \<Rightarrow> buf \<Rightarrow> buf \<Rightarrow> bool" where
  "inf_ok h ck prev x m \<longleftrightarrow> length m = length x \<and> (traces_by h ck \<longrightarrow> (\<forall>i < length x. m ! i = 0 \<longrightarrow> neutral ck prev x i))"

lemma skip_block_ok:
  assumes "grown h ck prev x pos cur" and "pos < length x - 1" and "inf_ok h ck prev x (sd_inf_eff_map s)"
    and "skip_block (length x) pos cur s = (pos', s')"
  shows "pos < pos'" "inf_ok h ck prev x (sd_inf_eff_map s')" "sd_out s' = sd_out s" "sd_e s' = sd_e s"
proof -
  let ?n = "cut (length x) pos (cur div 2)"
  have n: "0 < ?n" if "cur \<noteq> MINIMAL_BLOCK_SIZE"
    using assms(1,2) that by (auto simp: cut_def grown_def MINIMAL_BLOCK_SIZE_def)
  have b: "pos + ?n \<le> length x" using assms(2) by (auto simp: cut_def)
  have s': "pos' = (if cur = MINIMAL_BLOCK_SIZE then pos + cur else pos + ?n)" "sd_out s' = sd_out s" "sd_e s' = sd_e s"
    "sd_inf_eff_map s' = (if cur = MINIMAL_BLOCK_SIZE then sd_inf_eff_map s else zero_range pos ?n (sd_inf_eff_map s))"
    using assms(4) by (auto simp: skip_block_def Let_def cut_def split: if_splits)
  show "pos < pos'" using n s'(1) by (auto simp: MINIMAL_BLOCK_SIZE_def)
  show "sd_out s' = sd_out s" "sd_e s' = sd_e s" using s' by simp_all
  have "neutral ck prev x i" if "cur \<noteq> MINIMAL_BLOCK_SIZE" "traces_by h ck" "pos \<le> i" "i < pos + ?n" for i
    using assms(1) that b unfolding neutral_def grown_def by blast
  then show "inf_ok h ck prev x (sd_inf_eff_map s')"
    using assms(3) b s'(4) by (auto simp: inf_ok_def nth_zero_range)
qed

lemma inf_loop_ok:
  assumes "sd_out s = x" and "inf_ok h ck prev x (sd_inf_eff_map s)"
  shows "\<exists>bail s'. inf_loop h prev (length x) pos s = Some (bail, s') \<and> sd_e s' = sd_e s \<and>
    (\<not> bail \<longrightarrow> sd_out s' = x \<and> inf_ok h ck prev x (sd_inf_eff_map s'))"
  using assms
proof (induction "length x - pos" arbitrary: pos s rule: less_induct)
  case less
  show ?case
  proof (cases "pos < length x - 1")
    case False
    then show ?thesis using less.prems by (subst inf_loop.simps) auto
  next
    case True
    have "grown h ck prev x pos MINIMAL_BLOCK_SIZE" by (simp add: grown_def)
    from inf_grow_ok [OF less.prems(1) this] obtain bail cur s1 where
      g: "inf_grow h prev (length x) pos (length x div 8) MINIMAL_BLOCK_SIZE s = Some (bail, cur, s1)"
      "\<not> bail \<longrightarrow> sd_out s1 = x" "sd_e s1 = sd_e s" "sd_inf_eff_map s1 = sd_inf_eff_map s" "grown h ck prev x pos cur" by blast
    show ?thesis
    proof (cases bail)
      case True
      then show ?thesis using g \<open>pos < _\<close> by (subst inf_loop.simps) auto
    next
      case False
      obtain pos' s2 where sk: "skip_block (length x) pos cur s1 = (pos', s2)" by fastforce
      have i: "inf_ok h ck prev x (sd_inf_eff_map s1)" using g(4) less.prems(2) by simp
      note k = skip_block_ok [OF g(5) True i sk]
      have "length x - pos' < length x - pos" using k(1) True by linarith
      from less.hyps [OF this, of s2] k(2-4) g(2,3) False
      show ?thesis using True g(1) sk by (subst inf_loop.simps) simp
    qed
  qed
qed

lemma inference_ok:
  assumes "sd_out s = x" and "inf_ok h ck prev x (sd_inf_eff_map s)"
  shows "\<exists>bail s'. inference h prev (length x) s = Some (bail, s') \<and> sd_e s' = sd_e s \<and>
    (\<not> bail \<longrightarrow> sd_out s' = x \<and> inf_ok h ck prev x (sd_inf_eff_map s'))"
  using inf_loop_ok [OF assms, of 0] assms(1) by (auto simp: inference_def inf_ok_def)

section \<open>The quick pass\<close>

text \<open>The random numbers end every loop that waits for another byte.\<close>

definition draws_end :: "'e host \<Rightarrow> bool" where
  "draws_end h \<longleftrightarrow> (\<forall>orig e. other_byte h orig e \<noteq> None)"

lemma other_byte_differs: "other_byte h orig e = Some (v, e') \<Longrightarrow> v \<noteq> orig"
proof (induction h orig e "(v, e')" arbitrary: v e' rule: other_byte.raw_induct [rotated, consumes 1, case_names step])
  case (step u h orig e)
  then show ?case by (auto split: prod.splits if_splits)
qed

text \<open>Another value at this place made the queue grow.\<close>

definition finds_at :: "'e host \<Rightarrow> buf \<Rightarrow> nat \<Rightarrow> bool" where
  "finds_at h x i \<longleftrightarrow> (\<exists>v a e a' e'. v \<noteq> x ! i \<and> h_fuzz h (x[i := v]) (a, e) = (False, a', e') \<and> queued_items a' \<noteq> queued_items a)"

definition eff_ok :: "'e host \<Rightarrow> buf \<Rightarrow> buf \<Rightarrow> buf \<Rightarrow> bool" where
  "eff_ok h x im eff \<longleftrightarrow> (length x + 7) div 8 \<le> length eff \<and>
     (\<forall>i < length x. bitmap_read eff i \<noteq> 0 \<longrightarrow> im ! i \<noteq> 0 \<and> finds_at h x i)"

definition q_ok :: "'e host \<Rightarrow> buf \<Rightarrow> buf \<Rightarrow> nat \<Rightarrow> 'e sd \<Rightarrow> bool" where
  "q_ok h x im q s \<longleftrightarrow> sd_out s = x \<and> sd_inf_eff_map s = im \<and> (\<exists>eff. skip_eff_map (sd_e s q) = Some eff \<and> eff_ok h x im eff)"

lemma bitmap_length [simp]: "length (bitmap_set m i) = length m"
  by (simp add: bitmap_set_def)

lemma eff_ok_set:
  assumes "eff_ok h x im eff" and "i < length x" and "im ! i \<noteq> 0" and "finds_at h x i"
  shows "eff_ok h x im (bitmap_set eff i)"
proof -
  have "i div 8 < length eff" using assms(1,2) unfolding eff_ok_def by linarith
  then show ?thesis using assms by (auto simp: eff_ok_def bitmap_read_set split: if_splits)
qed

lemma upd_sd_entry_sel [simp]:
  "sd_e (upd_sd_entry q f s) q = f (sd_e s q)" "sd_out (upd_sd_entry q f s) = sd_out s" "sd_inf_eff_map (upd_sd_entry q f s) = sd_inf_eff_map s"
  "sd_stage_cur (upd_sd_entry q f s) = sd_stage_cur s" "sd_stage_max (upd_sd_entry q f s) = sd_stage_max s"
  "sd_afl (upd_sd_entry q f s) = sd_afl s" "sd_non_eff (upd_sd_entry q f s) = sd_non_eff s" "sd_env (upd_sd_entry q f s) = sd_env s"
  "sd_g (upd_sd_entry q f s) = sd_g s"
  by (simp_all add: upd_sd_entry_def)

lemma quick_record_ok:
  assumes "q_ok h x im q s" and "sd_stage_cur s < length x" and "im ! sd_stage_cur s \<noteq> 0"
    and "queued_items (sd_afl s) \<noteq> before \<longrightarrow> finds_at h x (sd_stage_cur s)"
  shows "case quick_record h repeat_eff fuzz_nearby prev q before cont s of (cont', s') \<Rightarrow> q_ok h x im q s' \<and> sd_stage_cur s' = sd_stage_cur s"
  using assms by (auto simp: quick_record_def Let_def q_ok_def intro!: eff_ok_set)

lemma quick_loop_ok:
  assumes "draws_end h" and "q_ok h x im q s"
  shows "\<exists>ex cont' s'. quick_loop h repeat_eff fuzz_nearby prev (length x) q t0 cont s = Some (ex, cont', s') \<and>
    (ex \<noteq> Q_BAIL \<longrightarrow> q_ok h x im q s')"
  using assms(2)
proof (induction "length x - sd_stage_cur s" arbitrary: cont s rule: less_induct)
  case less
  let ?i = "sd_stage_cur s"
  let ?next = "\<lambda>s :: 'a sd. s\<lparr>sd_stage_cur := sd_stage_cur s + 1\<rparr>"
  have dec: "length x - sd_stage_cur (?next u) < length x - ?i" if "sd_stage_cur u = ?i" "?i < length x" for u using that by simp
  show ?case
  proof (cases "?i < sd_stage_max s \<and> ?i < length x")
    case False
    then show ?thesis using less.prems by (subst quick_loop.simps) (auto simp: Let_def)
  next
    case True
    note in_range = this
    show ?thesis
    proof (cases "sd_inf_eff_map s ! ?i = 0 \<or> bitmap_read (eff_map_of q s) ?i \<noteq> 0")
      case True
      have "q_ok h x im q (?next s)" using less.prems by (simp add: q_ok_def)
      from less.hyps [OF dec this, of cont] in_range True show ?thesis by (subst quick_loop.simps) (simp add: Let_def)
    next
      case False
      have im: "im ! ?i \<noteq> 0" using False less.prems by (simp add: q_ok_def)
      obtain now e where now: "get_cur_time h (sd_env s) = (now, e)" by fastforce
      let ?s1 = "s\<lparr>sd_env := e\<rparr>"
      show ?thesis
      proof (cases "is_det_timeout now t0 True")
        case True
        then show ?thesis using less.prems in_range False now by (subst quick_loop.simps) (auto simp: Let_def q_ok_def)
      next
        case no_timeout: False
        obtain v e' where ob: "other_byte h (sd_out s ! ?i) e = Some (v, e')" using assms(1) unfolding draws_end_def by (metis not_None_eq prod.exhaust)
        let ?s2 = "sd_edit (\<lambda>b. b[?i := v]) (?s1\<lparr>sd_env := e'\<rparr>)"
        obtain bail s3 where sub: "sd_submit h (sd_out ?s2) ?s2 = (bail, s3)" by fastforce
        let ?s4 = "sd_edit (\<lambda>b. b[?i := sd_out s ! ?i]) s3"
        obtain cont' s5 where qr: "quick_record h repeat_eff fuzz_nearby prev q (queued_items (sd_afl s)) cont ?s4 = (cont', s5)" by fastforce
        have eq: "quick_loop h repeat_eff fuzz_nearby prev (length x) q t0 cont s =
            (if bail then Some (Q_BAIL, cont, s3) else quick_loop h repeat_eff fuzz_nearby prev (length x) q t0 cont' (?next s5))"
          using in_range False now no_timeout ob sub qr by (subst quick_loop.simps) (simp add: Let_def sd_edit_def)
        show ?thesis
        proof (cases bail)
          case True
          then show ?thesis unfolding eq by simp
        next
          case False
          note sel = submit_sel [OF sub]
          have x: "sd_out s = x" using less.prems by (simp add: q_ok_def)
          have q4: "q_ok h x im q ?s4" "sd_stage_cur ?s4 = ?i"
            using less.prems sel x in_range by (auto simp: q_ok_def sd_edit_def)
          have f: "queued_items (sd_afl ?s4) \<noteq> queued_items (sd_afl s) \<longrightarrow> finds_at h x ?i"
          proof
            assume "queued_items (sd_afl ?s4) \<noteq> queued_items (sd_afl s)"
            moreover have "v \<noteq> x ! ?i" using other_byte_differs [OF ob] x by simp
            ultimately show "finds_at h x ?i" using sub False x
              unfolding finds_at_def sd_submit_def by (fastforce simp: sd_edit_def split: prod.splits)
          qed
          from quick_record_ok [OF q4(1), unfolded q4(2), OF _ im f, of repeat_eff fuzz_nearby prev cont] in_range qr
          have "q_ok h x im q (?next s5)" "sd_stage_cur s5 = ?i" by (auto simp: q_ok_def)
          from less.hyps [OF dec [OF this(2)] this(1)] in_range show ?thesis unfolding eq using False by simp
        qed
      qed
    qed
  qed
qed

lemma eff_rounds_ok:
  assumes "draws_end h" and "q_ok h x im q s"
  shows "\<exists>ex s'. eff_rounds h repeat_eff fuzz_nearby prev (length x) q t0 n s = Some (ex, s') \<and> (ex \<noteq> Q_BAIL \<longrightarrow> q_ok h x im q s')"
  using assms(2)
proof (induction n arbitrary: s)
  case (Suc n)
  have "q_ok h x im q (s\<lparr>sd_stage_max := 32 * 1024\<rparr>)" using Suc.prems by (simp add: q_ok_def)
  from quick_loop_ok [OF assms(1) this] obtain ex cont s1 where
    l: "quick_loop h repeat_eff fuzz_nearby prev (length x) q t0 False (s\<lparr>sd_stage_max := 32 * 1024\<rparr>) = Some (ex, cont, s1)"
    "ex \<noteq> Q_BAIL \<longrightarrow> q_ok h x im q s1" by blast
  show ?case
  proof (cases ex)
    case Q_DONE
    then have "q_ok h x im q (s1\<lparr>sd_stage_cur := 0\<rparr>)" using l(2) by (simp add: q_ok_def)
    from Suc.IH [OF this] this l(1) Q_DONE show ?thesis by (cases cont) auto
  qed (use l in auto)
qed simp

section \<open>The whole stage\<close>

lemma quick_start_ok:
  assumes "sd_out s = x"
  shows "q_ok h x (sd_inf_eff_map s) q (quick_start (length x) q s)"
proof -
  have "bitmap_read (replicate ((length x + 7) div 8) 0 @ m) i = 0" if "i < length x" for i and m :: buf
  proof -
    have "i div 8 < (length x + 7) div 8" using that by linarith
    then show ?thesis by (simp add: bitmap_read_def nth_append)
  qed
  from this this [where m = "[]"] show ?thesis
    using assms by (auto simp: q_ok_def quick_start_def Let_def eff_ok_def split: option.split)
qed

lemma quick_end_sel [simp]:
  "sd_out (quick_end fz len q fin s) = sd_out s" "sd_inf_eff_map (quick_end fz len q fin s) = sd_inf_eff_map s"
  by (simp_all add: quick_end_def Let_def)

lemma quick_end_map:
  assumes "q_ok h x im q s"
  shows "\<exists>eff. skip_eff_map (sd_e (quick_end fz (length x) q fin s) q) = Some eff \<and> (\<not> fz \<longrightarrow> eff_ok h x im eff)"
  using assms by (auto simp: q_ok_def quick_end_def Let_def)

definition stage_ok :: "'e host \<Rightarrow> bool \<Rightarrow> buf \<Rightarrow> buf \<Rightarrow> nat \<Rightarrow> (bool \<times> 'e sd) option \<Rightarrow> bool" where
  "stage_ok h fz x im q y \<longleftrightarrow> (\<exists>r s'. y = Some (r, s') \<and> (r \<longrightarrow> sd_out s' = x \<and> sd_inf_eff_map s' = im \<and>
     (\<exists>eff. skip_eff_map (sd_e s' q) = Some eff \<and> (\<not> fz \<longrightarrow> eff_ok h x im eff))))"

lemma stage_ok_end:
  "q_ok h x im q s \<Longrightarrow> stage_ok h fz x im q (Some (True, quick_end fz (length x) q fin s))"
  using quick_end_map [of h x im q s fz fin] by (auto simp: stage_ok_def q_ok_def)

lemma quick_stage_ok:
  assumes "draws_end h" and "sd_out s = x"
  shows "stage_ok h fz x (sd_inf_eff_map s) q (quick_stage h rep fz prev (length x) q t0 s)"
proof -
  let ?im = "sd_inf_eff_map s" let ?s1 = "quick_start (length x) q s"
  define y where "y = (if fz then let (bail, s) = sd_submit h (sd_out ?s1) (?s1\<lparr>sd_non_eff := replicate (length x) 0\<rparr>) in (bail, sd_cksum h s, s)
      else (False, prev, ?s1))"
  obtain bail prev' s2 where p: "y = (bail, prev', s2)" by (cases y)
  have q2: "q_ok h x ?im q s2"
  proof (cases fz)
    case True
    obtain s' where sub: "sd_submit h (sd_out ?s1) (?s1\<lparr>sd_non_eff := replicate (length x) 0\<rparr>) = (bail, s')" "s2 = s'"
      using p True unfolding y_def by (cases "sd_submit h (sd_out ?s1) (?s1\<lparr>sd_non_eff := replicate (length x) 0\<rparr>)") simp
    show ?thesis using submit_sel(1-3) [OF sub(1)] sub(2) quick_start_ok [OF assms(2), of h q] by (simp add: q_ok_def)
  next
    case False
    then show ?thesis using p quick_start_ok [OF assms(2), of h q] unfolding y_def by auto
  qed
  have qs: "quick_stage h rep fz prev (length x) q t0 s = (case y of (bail, prev, s2) \<Rightarrow>
      if bail then Some (False, s2)
      else case quick_loop h rep fz prev (length x) q t0 False (s2\<lparr>sd_stage_max := 32 * 1024\<rparr>) of
            None \<Rightarrow> None
          | Some (Q_BAIL, _, s) \<Rightarrow> Some (False, s)
          | Some (Q_TIMEOUT, _, s) \<Rightarrow> Some (True, quick_end fz (length x) q False s)
          | Some (Q_DONE, cont, s3) \<Rightarrow>
              (case (if cont then eff_rounds h rep fz prev (length x) q t0 7 (s3\<lparr>sd_stage_cur := 0\<rparr>)
                     else Some (Q_DONE, s3\<lparr>sd_stage_cur := 0\<rparr>)) of
                 None \<Rightarrow> None
               | Some (Q_BAIL, s) \<Rightarrow> Some (False, s)
               | Some (Q_TIMEOUT, s) \<Rightarrow> Some (True, quick_end fz (length x) q True s)
               | Some (Q_DONE, s4) \<Rightarrow> Some (True, quick_end fz (length x) q True
                     (s4\<lparr>sd_finds := (sd_finds s4)(STAGE_QUICK := sd_finds s4 STAGE_QUICK + (sd_hits s4 - sd_hits s)),
                        sd_cycles := (sd_cycles s4)(STAGE_QUICK := sd_cycles s4 STAGE_QUICK + (of_nat (total_execs (fsrv (sd_afl s4))) - of_nat (total_execs (fsrv (sd_afl s)))))\<rparr>))))"
    unfolding quick_stage_def Let_def [of "sd_hits s"] Let_def [of "total_execs (fsrv (sd_afl s))"] Let_def [of ?s1] y_def [symmetric] Let_def [of y] ..
  show ?thesis
  proof (cases bail)
    case True
    then show ?thesis by (auto simp add: qs p stage_ok_def)
  next
    case False
    have "q_ok h x ?im q (s2\<lparr>sd_stage_max := 32 * 1024\<rparr>)" using q2 by (simp add: q_ok_def)
    from quick_loop_ok [OF assms(1) this, of rep fz prev' t0 False] obtain ex cont s3 where
      l: "quick_loop h rep fz prev' (length x) q t0 False (s2\<lparr>sd_stage_max := 32 * 1024\<rparr>) = Some (ex, cont, s3)"
      "ex \<noteq> Q_BAIL \<longrightarrow> q_ok h x ?im q s3" by blast
    show ?thesis
    proof (cases ex)
      case Q_BAIL
      then show ?thesis using l False by (auto simp add: qs p stage_ok_def)
    next
      case Q_TIMEOUT
      then show ?thesis using l False stage_ok_end by (simp add: qs p)
    next
      case Q_DONE
      then have "q_ok h x ?im q (s3\<lparr>sd_stage_cur := 0\<rparr>)" using l(2) by (simp add: q_ok_def)
      from eff_rounds_ok [OF assms(1) this, of rep fz prev' t0 7] this obtain ex' s4 where
        r: "(if cont then eff_rounds h rep fz prev' (length x) q t0 7 (s3\<lparr>sd_stage_cur := 0\<rparr>) else Some (Q_DONE, s3\<lparr>sd_stage_cur := 0\<rparr>)) = Some (ex', s4)"
        "ex' \<noteq> Q_BAIL \<longrightarrow> q_ok h x ?im q s4" by (cases cont) auto
      have u: "q_ok h x ?im q (s4\<lparr>sd_finds := f, sd_cycles := g\<rparr>)" if "ex' \<noteq> Q_BAIL" for f g using r(2) that by (simp add: q_ok_def)
      have eq: "quick_stage h rep fz prev (length x) q t0 s = (case ex' of
          Q_BAIL \<Rightarrow> Some (False, s4)
        | Q_TIMEOUT \<Rightarrow> Some (True, quick_end fz (length x) q True s4)
        | Q_DONE \<Rightarrow> Some (True, quick_end fz (length x) q True
            (s4\<lparr>sd_finds := (sd_finds s4)(STAGE_QUICK := sd_finds s4 STAGE_QUICK + (sd_hits s4 - sd_hits s)),
               sd_cycles := (sd_cycles s4)(STAGE_QUICK := sd_cycles s4 STAGE_QUICK + (of_nat (total_execs (fsrv (sd_afl s4))) - of_nat (total_execs (fsrv (sd_afl s)))))\<rparr>)))"
        using l(1) False Q_DONE r(1) by (simp add: qs p split del: if_split split: quick_exit.split)
      show ?thesis
      proof (cases ex')
        case Q_BAIL
        then show ?thesis unfolding eq by (auto simp: stage_ok_def)
      next
        case Q_TIMEOUT
        then show ?thesis unfolding eq using stage_ok_end r(2) by simp
      next
        case Q_DONE
        then show ?thesis unfolding eq using stage_ok_end [OF u] by simp
      qed
    qed
  qed
qed

text \<open>Whether the stage does its work.\<close>

definition infers :: "'e host \<Rightarrow> nat \<Rightarrow> 'e sd \<Rightarrow> bool" where
  "infers h q s \<longleftrightarrow> \<not> done_eff (sd_e s q) \<and>
     fst (should_det_fuzz (get_cur_time h) (map_size (fsrv (sd_afl s))) (entry (sd_afl s) q) (sd_e s q) (sd_g s) (sd_env s))"

lemma skip_stage_core:
  assumes "draws_end h" and "sd_out s = x"
  shows "\<exists>r s'. skip_deterministic_stage h rep fz orig (length x) q t0 s = Some (r, s') \<and> (r \<longrightarrow> sd_out s' = x) \<and>
    (\<not> infers h q s \<longrightarrow> r \<and> skip_eff_map (sd_e s' q) = skip_eff_map (sd_e s q) \<and> quick_eff_bytes (sd_e s' q) = quick_eff_bytes (sd_e s q)) \<and>
    (r \<and> infers h q s \<longrightarrow> inf_ok h ck (ck orig) x (sd_inf_eff_map s') \<and>
      (\<exists>eff. skip_eff_map (sd_e s' q) = Some eff \<and> (\<not> fz \<longrightarrow> eff_ok h x (sd_inf_eff_map s') eff)))"
proof (cases "done_eff (sd_e s q)")
  case True
  then show ?thesis using assms(2) by (auto simp: skip_deterministic_stage_def infers_def)
next
  case nd: False
  obtain go k g e where sh: "should_det_fuzz (get_cur_time h) (map_size (fsrv (sd_afl s))) (entry (sd_afl s) q) (sd_e s q) (sd_g s) (sd_env s) = (go, k, g, e)"
    by (metis prod_cases4)
  let ?s1 = "(upd_sd_entry q (\<lambda>_. k) s)\<lparr>sd_g := g, sd_env := e\<rparr>"
  have k: "\<not> go \<longrightarrow> k = sd_e s q"
    using sh by (auto simp: should_det_fuzz_def Let_def split: if_splits option.splits prod.splits)
  show ?thesis
  proof (cases go)
    case False
    then show ?thesis using nd sh assms(2) k by (auto simp add: skip_deterministic_stage_def infers_def)
  next
    case True
    let ?s2 = "?s1\<lparr>sd_stage_cur := 0, sd_inf_eff_map := replicate (length x) 1\<rparr>"
    obtain bail s3 where sub: "sd_submit h orig ?s2 = (bail, s3)" by fastforce
    note sel = submit_sel [OF sub]
    show ?thesis
    proof (cases bail)
      case True
      then show ?thesis using nd sh \<open>go\<close> sub by (auto simp add: skip_deterministic_stage_def infers_def Let_def)
    next
      case False
      let ?p = "sd_cksum h s3"
      have "sd_out s3 = x" "inf_ok h ck ?p x (sd_inf_eff_map s3)" using sel assms(2) by (auto simp: inf_ok_def)
      from inference_ok [OF this] obtain bail' s4 where
        i: "inference h ?p (length x) s3 = Some (bail', s4)" "\<not> bail' \<longrightarrow> sd_out s4 = x \<and> inf_ok h ck ?p x (sd_inf_eff_map s4)" by blast
      have pck: "traces_by h ck \<Longrightarrow> ?p = ck orig" using sel(8) by simp
      show ?thesis
      proof (cases bail')
        case True
        then show ?thesis using nd sh \<open>go\<close> sub False i(1) by (auto simp add: skip_deterministic_stage_def infers_def Let_def)
      next
        case nb: False
        let ?s5 = "s4\<lparr>sd_finds := (sd_finds s4)(STAGE_INF := sd_finds s4 STAGE_INF + (sd_hits s4 - sd_hits ?s2)),
                     sd_cycles := (sd_cycles s4)(STAGE_INF := sd_cycles s4 STAGE_INF + of_nat (sd_stage_cur s4))\<rparr>"
        have "sd_out ?s5 = x" using i(2) nb by simp
        from quick_stage_ok [OF assms(1) this, of fz q rep ?p t0]
        have "stage_ok h fz x (sd_inf_eff_map s4) q (quick_stage h rep fz ?p (length x) q t0 ?s5)" by simp
        moreover have "skip_deterministic_stage h rep fz orig (length x) q t0 s = quick_stage h rep fz ?p (length x) q t0 ?s5"
          using nd sh \<open>go\<close> sub False i(1) nb by (simp add: skip_deterministic_stage_def Let_def)
        moreover have "inf_ok h ck (ck orig) x (sd_inf_eff_map s4)" using i(2) nb pck by (auto simp: inf_ok_def)
        ultimately show ?thesis using nd sh \<open>go\<close> by (auto simp: stage_ok_def infers_def)
      qed
    qed
  qed
qed

text \<open>C17. The inference of the effector map returns when the random numbers do, whatever the target answers. When
  it does not abandon the entry, \<open>out_buf\<close> holds the input again. An entry with effective bytes has an effector map
  afterwards when it had one before, so the deterministic stages never follow a null pointer.\<close>

theorem skip_stage_returns:
  assumes "draws_end h" and "quick_eff_bytes (sd_e s q) \<noteq> 0 \<longrightarrow> skip_eff_map (sd_e s q) \<noteq> None"
  shows "\<exists>r s'. skip_deterministic_stage h repeat_eff fuzz_nearby orig (length (sd_out s)) q t0 s = Some (r, s') \<and>
    (r \<longrightarrow> sd_out s' = sd_out s \<and> (quick_eff_bytes (sd_e s' q) \<noteq> 0 \<longrightarrow> skip_eff_map (sd_e s' q) \<noteq> None))"
  using skip_stage_core [OF assms(1), of s "sd_out s" repeat_eff fuzz_nearby orig q t0, OF refl] assms(2) by (cases "infers h q s") fastforce+

text \<open>C12. What the inference selects and what it skips. A selected byte is one for which another value was run
  and made the queue grow. For a target whose trace depends on the input only, a byte that the inference
  skips lies in a block whose inversion gives the trace of the original input.\<close>

theorem effector_map_sound:
  assumes "draws_end h" and "infers h q s"
    and "skip_deterministic_stage h repeat_eff False orig (length (sd_out s)) q t0 s = Some (True, s')" and "i < length (sd_out s)"
  shows "(bitmap_read (the (skip_eff_map (sd_e s' q))) i \<noteq> 0 \<longrightarrow> finds_at h (sd_out s) i \<and> sd_inf_eff_map s' ! i \<noteq> 0) \<and>
    (traces_by h ck \<and> sd_inf_eff_map s' ! i = 0 \<longrightarrow>
       (\<exists>p n. p \<le> i \<and> i < p + n \<and> p + n \<le> length (sd_out s) \<and> ck (flip_range p n (sd_out s)) = ck orig))"
  using skip_stage_core [OF assms(1), of s "sd_out s" repeat_eff False orig q t0 ck, OF refl] assms(2-4)
  by (auto simp: inf_ok_def eff_ok_def neutral_def)

section \<open>Inference is done once\<close>

text \<open>All bits of this trace were seen, and the threshold is not zero.\<close>

definition covered :: "nat \<Rightarrow> buf \<Rightarrow> skipdet_global \<Rightarrow> bool" where
  "covered n tm g \<longleftrightarrow> (\<exists>v. virgin_det_bits g = Some v \<and> n \<le> length v \<and> (\<forall>i < n. trace_mini_bit tm i \<longrightarrow> v ! i \<noteq> 0)) \<and> 1 \<le> undet_bits_threshold g"

text \<open>Later calls for any entries.\<close>

fun asked :: "('e \<Rightarrow> u64 \<times> 'e) \<Rightarrow> nat \<Rightarrow> (queue_entry \<times> skipdet_entry \<times> 'e) list \<Rightarrow> skipdet_global \<Rightarrow> skipdet_global" where
  "asked clock n [] g = g"
| "asked clock n ((q, k, e) # qs) g = asked clock n qs (fst (snd (snd (should_det_fuzz clock n q k g e))))"

section \<open>A small target\<close>

text \<open>Every input other than \<open>A\<close> is new; the random numbers count.\<close>

definition finding_host :: "nat host" where
  "finding_host = \<lparr>h_fuzz = (\<lambda>mem (a, e). (False, if mem = [0x41] then a else a\<lparr>queued_items := queued_items a + 1\<rparr>, e)),
     get_cur_time = (\<lambda>e. (1, e)), h_rand_below = (\<lambda>n e. (e mod 256, e + 1)), h_xxh3 = (\<lambda>_. 0), h_qsort = sort_key\<rparr>"

lemma finding_host_draws: "draws_end finding_host"
proof -
  have m: "of_nat (e mod 256) = (of_nat e :: u8)" for e
    by (simp add: word_of_nat_eq_iff take_bit_eq_mod)
  have "other_byte finding_host orig e \<noteq> None" for orig e
  proof (cases "of_nat e = orig")
    case True
    then have "of_nat (e + 1) \<noteq> orig" by auto
    then show ?thesis using True m [of "e + 1"] by (subst other_byte.simps, subst other_byte.simps) (simp add: finding_host_def m)
  next
    case False
    then show ?thesis by (subst other_byte.simps) (simp add: finding_host_def m)
  qed
  then show ?thesis by (simp add: draws_end_def)
qed

definition blank_entry :: skipdet_entry where
  "blank_entry = \<lparr>continue_inf = False, done_eff = False, undet_bits = 0, quick_eff_bytes = 0, skip_eff_map = None, done_inf_map = None\<rparr>"

definition blank_global :: skipdet_global where
  "blank_global = \<lparr>undet_bits_threshold = 0, last_cov_undet = 0, virgin_det_bits = None, inf_skipped_bytes = 0\<rparr>"

definition favored_entry :: queue_entry where
  "favored_entry = queue_entry_zero\<lparr>q_len := 1, q_favored := True, q_trace_mini := Some [1]\<rparr>"

definition one_letter :: "nat sd" where
  "one_letter = \<lparr>sd_out = [0x41], sd_afl = (campaign_start 0)\<lparr>queue_buf := [favored_entry]\<rparr>, sd_env = 0, sd_g = blank_global, sd_e = (\<lambda>_. blank_entry),
     sd_inf_eff_map = [], sd_non_eff = [], sd_stage_cur = 0, sd_stage_max = 0, sd_finds = (\<lambda>_. 0), sd_cycles = (\<lambda>_. 0)\<rparr>"

lemma one_letter_sel:
  "sd_out one_letter = [0x41]" "sd_e one_letter q = blank_entry" "sd_g one_letter = blank_global" "sd_env one_letter = 0"
  "map_size (fsrv (sd_afl one_letter)) = 0" "entry (sd_afl one_letter) 0 = favored_entry" "queued_items (sd_afl one_letter) = 0"
  by (simp_all add: one_letter_def campaign_start_eq)

theorem skip_stage_returns_witness:
  "\<exists>r s'. skip_deterministic_stage finding_host False False [0x41] 1 0 0 one_letter = Some (r, s') \<and> (r \<longrightarrow> sd_out s' = [0x41])"
  using skip_stage_returns [OF finding_host_draws, of one_letter 0 False False "[0x41]" 0] by (auto simp: one_letter_sel blank_entry_def)

lemma one_letter_asks:
  "\<exists>k g. should_det_fuzz (get_cur_time finding_host) 0 favored_entry blank_entry blank_global 0 = (True, k, g, 0) \<and>
     skip_eff_map k = None \<and> done_inf_map k = None \<and> quick_eff_bytes k = 0"
  by (simp add: should_det_fuzz_def decay_def finding_host_def favored_entry_def queue_entry_zero_def blank_entry_def blank_global_def
      new_det_bits_def THRESHOLD_DEC_TIME_def)

lemma one_letter_infers: "infers finding_host 0 one_letter"
  using one_letter_asks by (auto simp: infers_def one_letter_sel blank_entry_def)

lemma one_letter_byte: "other_byte finding_host 0x41 0 = Some (0, 1)"
  by (subst other_byte.simps) (simp add: finding_host_def)

lemma first_bit: "bitmap_set [0] 0 = [1]" "bitmap_read [0] 0 = 0" "bitmap_read [1] 0 = 1"
  by (simp_all add: bitmap_set_def bitmap_read_def)

lemma one_letter_loop:
  assumes "sd_out s = [0x41]" "sd_inf_eff_map s = [1]" "sd_env s = 0" "sd_stage_cur s = 0" "sd_stage_max s = 32 * 1024"
    "skip_eff_map (sd_e s 0) = Some [0]"
  shows "\<exists>s'. quick_loop finding_host False False prev 1 0 0 False s = Some (Q_DONE, False, s') \<and> skip_eff_map (sd_e s' 0) = Some [1]"
proof -
  have now: "get_cur_time finding_host e = (1, e)" for e by (simp add: finding_host_def)
  have run: "sd_submit finding_host [0] u = (False, u\<lparr>sd_afl := (sd_afl u)\<lparr>queued_items := queued_items (sd_afl u) + 1\<rparr>\<rparr>)" for u
    by (simp add: sd_submit_def finding_host_def)
  show ?thesis
    using assms
    by (subst quick_loop.simps, subst quick_loop.simps)
      (simp add: now run first_bit one_letter_byte sd_edit_def quick_record_def is_det_timeout_def MAX_EFF_TIMEOUT_def MAXIMUM_QUICK_EFF_EXECS_def Let_def)
qed

lemma one_letter_stage:
  assumes "sd_out s = [0x41]" "sd_inf_eff_map s = [1]" "sd_env s = 0" "skip_eff_map (sd_e s 0) = None" "done_inf_map (sd_e s 0) = None"
  shows "\<exists>s'. quick_stage finding_host False False prev 1 0 0 s = Some (True, s') \<and> skip_eff_map (sd_e s' 0) = Some [1]"
proof -
  let ?s = "(quick_start 1 0 s)\<lparr>sd_stage_max := 32 * 1024\<rparr>"
  have "sd_out ?s = [0x41]" "sd_inf_eff_map ?s = [1]" "sd_env ?s = 0" "sd_stage_cur ?s = 0" "sd_stage_max ?s = 32 * 1024"
    "skip_eff_map (sd_e ?s 0) = Some [0]"
    using assms by (simp_all add: quick_start_def Let_def)
  from one_letter_loop [OF this, of prev] obtain s' where
    "quick_loop finding_host False False prev 1 0 0 False ?s = Some (Q_DONE, False, s')" "skip_eff_map (sd_e s' 0) = Some [1]" by blast
  then show ?thesis by (simp add: quick_stage_def Let_def quick_end_def)
qed

lemma one_letter_effective:
  "\<exists>s'. skip_deterministic_stage finding_host False False [0x41] 1 0 0 one_letter = Some (True, s') \<and> skip_eff_map (sd_e s' 0) = Some [1]"
proof -
  obtain k g where k: "should_det_fuzz (get_cur_time finding_host) 0 favored_entry blank_entry blank_global 0 = (True, k, g, 0)"
    "skip_eff_map k = None" "done_inf_map k = None" using one_letter_asks by blast
  define s1 where "s1 = ((upd_sd_entry 0 (\<lambda>_. k) one_letter)\<lparr>sd_g := g, sd_env := 0\<rparr>)\<lparr>sd_stage_cur := 0, sd_inf_eff_map := replicate 1 1\<rparr>"
  have run: "sd_submit finding_host [0x41] s1 = (False, s1)" by (simp add: sd_submit_def finding_host_def)
  have inf: "inference finding_host p 1 s1 = Some (False, s1\<lparr>sd_inf_eff_map := [1]\<rparr>)" for p by (simp add: inference_def MINIMAL_BLOCK_SIZE_def)
  define s2 where "s2 = s1\<lparr>sd_inf_eff_map := [1], sd_finds := (sd_finds s1)(STAGE_INF := sd_finds s1 STAGE_INF + (sd_hits (s1\<lparr>sd_inf_eff_map := [1]\<rparr>) - sd_hits s1)),
    sd_cycles := (sd_cycles s1)(STAGE_INF := sd_cycles s1 STAGE_INF + of_nat (sd_stage_cur s1))\<rparr>"
  have s2: "sd_out s2 = [0x41]" "sd_inf_eff_map s2 = [1]" "sd_env s2 = 0" "skip_eff_map (sd_e s2 0) = None" "done_inf_map (sd_e s2 0) = None"
    using k by (simp_all add: s2_def s1_def one_letter_sel)
  have eq: "skip_deterministic_stage finding_host False False [0x41] 1 0 0 one_letter = quick_stage finding_host False False (sd_cksum finding_host s1) 1 0 0 s2"
    unfolding skip_deterministic_stage_def one_letter_sel k(1)
    by (simp add: blank_entry_def s1_def [symmetric] run inf s2_def Let_def del: One_nat_def)
  from one_letter_stage [OF s2] show ?thesis unfolding eq by simp
qed

theorem effector_map_sound_witness:
  "\<exists>s'. skip_deterministic_stage finding_host False False [0x41] 1 0 0 one_letter = Some (True, s') \<and>
     bitmap_read (the (skip_eff_map (sd_e s' 0))) 0 \<noteq> 0 \<and> finds_at finding_host [0x41] 0"
proof -
  obtain s' where s': "skip_deterministic_stage finding_host False False [0x41] 1 0 0 one_letter = Some (True, s')"
    "skip_eff_map (sd_e s' 0) = Some [1]" using one_letter_effective by blast
  from effector_map_sound [OF finding_host_draws one_letter_infers, of False "[0x41]" 0 s' 0] s'
  show ?thesis by (auto simp: one_letter_sel first_bit)
qed

end
