(* ===== verification/Colorize.thy ===== *)
theory Colorize
  imports Skipdet
begin

text \<open>
  Colorization (\<open>src/afl-fuzz-redqueen.c\<close>): the input is replaced by other bytes wherever that leaves the
  trace alone, so that the operands of comparisons can be traced back to the input. The linked list
  of ranges is a list, a pointer into it an index; the list of taints has the last taint first. The
  target, the random numbers and XXH3 come from the \<open>host\<close>; \<open>clock_us\<close> is the clock in microseconds.
\<close>

section \<open>Replacing bytes\<close>

text \<open>\<open>do { c = \<dots> } while (c == buf[i])\<close>; \<open>None\<close> when the loop does not end.\<close>

partial_function (option) differing :: "(u8 \<Rightarrow> 'e \<Rightarrow> u8 \<times> 'e) \<Rightarrow> u8 \<Rightarrow> 'e \<Rightarrow> (u8 \<times> 'e) option" where
  "differing gen b e = (let (c, e) = gen b e in if c = b then differing gen b e else Some (c, e))"

fun replace_all :: "(u8 \<Rightarrow> 'e \<Rightarrow> u8 \<times> 'e) \<Rightarrow> buf \<Rightarrow> 'e \<Rightarrow> (buf \<times> 'e) option" where
  "replace_all gen [] e = Some ([], e)"
| "replace_all gen (b # bs) e = (case differing gen b e of None \<Rightarrow> None
     | Some (c, e) \<Rightarrow> (case replace_all gen bs e of None \<Rightarrow> None | Some (cs, e) \<Rightarrow> Some (c # cs, e)))"

definition random_byte :: "'e host \<Rightarrow> u8 \<Rightarrow> 'e \<Rightarrow> u8 \<times> 'e" where
  "random_byte h b e = (let (v, e) = h_rand_below h 256 e in (of_nat v, e))"

definition random_replace :: "'e host \<Rightarrow> buf \<Rightarrow> 'e \<Rightarrow> (buf \<times> 'e) option" where
  "random_replace h = replace_all (random_byte h)"

definition span :: "'e host \<Rightarrow> nat \<Rightarrow> nat \<Rightarrow> 'e \<Rightarrow> u8 \<times> 'e" where
  "span h lo hi e = (let (v, e) = h_rand_below h (1 + hi - lo) e in (of_nat lo + of_nat v, e))"

definition type_byte :: "'e host \<Rightarrow> u8 \<Rightarrow> 'e \<Rightarrow> u8 \<times> 'e" where
  "type_byte h b e =
    (let n = unat b in
     if 65 \<le> n \<and> n \<le> 70 then span h 65 70 e
     else if 97 \<le> n \<and> n \<le> 102 then span h 97 102 e
     else if n = 48 then (49, e)
     else if n = 49 then (48, e)
     else if 50 \<le> n \<and> n \<le> 57 then span h 50 57 e
     else if 71 \<le> n \<and> n \<le> 90 then span h 71 90 e
     else if 103 \<le> n \<and> n \<le> 122 then span h 103 122 e
     else if 33 \<le> n \<and> n \<le> 42 then span h 33 42 e
     else if 44 \<le> n \<and> n \<le> 46 then span h 44 46 e
     else if 58 \<le> n \<and> n \<le> 64 then span h 58 64 e
     else if 91 \<le> n \<and> n \<le> 96 then span h 91 96 e
     else if 123 \<le> n \<and> n \<le> 126 then span h 123 126 e
     else if n = 43 then (47, e)
     else if n = 47 then (43, e)
     else if n = 32 then (9, e)
     else if n = 9 then (32, e)
     else if n = 13 then (10, e)
     else if n = 10 then (13, e)
     else if n = 0 then (1, e)
     else if n = 1 then (0, e)
     else if n = 255 then (0, e)
     else if n < 32 then (b XOR 0x1f, e)
     else (b XOR 0x7f, e))"

definition type_replace :: "'e host \<Rightarrow> buf \<Rightarrow> 'e \<Rightarrow> (buf \<times> 'e) option" where
  "type_replace h = replace_all (type_byte h)"

section \<open>Ranges\<close>

record range =
  rg_start :: nat
  rg_end :: nat
  rg_ok :: nat

definition rg_size :: "range \<Rightarrow> nat" where
  "rg_size r = 1 + rg_end r - rg_start r"

definition add_range :: "range list \<Rightarrow> nat \<Rightarrow> nat \<Rightarrow> range list" where
  "add_range ranges a b = \<lparr>rg_start = a, rg_end = b, rg_ok = 0\<rparr> # ranges"

text \<open>The last of the biggest ranges that are not decided.\<close>

fun biggest :: "range list \<Rightarrow> nat \<Rightarrow> nat \<Rightarrow> nat option \<Rightarrow> nat option" where
  "biggest [] i m best = best"
| "biggest (r # rs) i m best =
     (if rg_ok r = 0 \<and> rg_size r \<ge> m then biggest rs (i + 1) (rg_size r) (Some i) else biggest rs (i + 1) m best)"

definition pop_biggest_range :: "range list \<Rightarrow> nat option" where
  "pop_biggest_range ranges = biggest ranges 0 0 None"

definition copy_range :: "range \<Rightarrow> buf \<Rightarrow> buf \<Rightarrow> buf" where
  "copy_range r src dst = take (rg_start r) dst @ take (rg_size r) (drop (rg_start r) src) @ drop (rg_start r + rg_size r) dst"

text \<open>A rejected range is replaced by its halves. In \<open>rng->start - 1 + s / 2\<close> an unsigned wrap-around
  for \<open>start = 0\<close> is undone by the addition.\<close>

definition split_range :: "range list \<Rightarrow> nat \<Rightarrow> range list" where
  "split_range ranges i =
    (let r = ranges ! i; s = rg_size r; rest = take i ranges @ drop (i + 1) ranges
     in if s > 1 then add_range (add_range rest (rg_start r) (rg_start r + s div 2 - 1)) (rg_start r + s div 2) (rg_end r) else rest)"

section \<open>Coloring\<close>

record 'e cz =
  cz_buf :: buf
  cz_ranges :: "range list"
  cz_afl :: afl_state
  cz_env :: 'e
  cz_stage_cur :: nat

definition get_exec_checksum :: "'e host \<Rightarrow> 'e cz \<Rightarrow> bool \<times> u64 \<times> 'e cz" where
  "get_exec_checksum h s =
    (let (bail, a, e) = h_fuzz h (cz_buf s) (cz_afl s, cz_env s)
     in (bail, hash64 (h_xxh3 h) (take (map_size (fsrv a)) (trace a)) HASH_CONST, s\<lparr>cz_afl := a, cz_env := e\<rparr>))"

text \<open>One range is tried; the first result is whether to give up.\<close>

definition color_step ::
    "'e host \<Rightarrow> ('e \<Rightarrow> u64 \<times> 'e) \<Rightarrow> nat \<Rightarrow> buf \<Rightarrow> buf \<Rightarrow> u64 \<Rightarrow> nat \<Rightarrow> 'e cz \<Rightarrow> bool \<times> 'e cz" where
  "color_step h clock_us exec_us backup changed exec_cksum i s =
    (let r = cz_ranges s ! i; s = s\<lparr>cz_buf := copy_range r changed (cz_buf s)\<rparr>;
         (start, e) = clock_us (cz_env s);
         (bail, cksum, s) = get_exec_checksum h (s\<lparr>cz_env := e\<rparr>)
     in if bail then (True, s)
        else
          let (stop, e) = clock_us (cz_env s); s = s\<lparr>cz_env := e\<rparr>;
              s = (if cksum \<noteq> exec_cksum \<or> stop - start > 3 * of_nat exec_us \<and> \<not> fixed_seed (cz_afl s)
                   then s\<lparr>cz_buf := copy_range r backup (cz_buf s), cz_ranges := split_range (cz_ranges s) i\<rparr>
                   else s\<lparr>cz_ranges := (cz_ranges s)[i := r\<lparr>rg_ok := 1\<rparr>]\<rparr>)
          in (False, s\<lparr>cz_stage_cur := cz_stage_cur s + 1\<rparr>))"

partial_function (option) color_loop ::
    "'e host \<Rightarrow> ('e \<Rightarrow> u64 \<times> 'e) \<Rightarrow> nat \<Rightarrow> buf \<Rightarrow> buf \<Rightarrow> u64 \<Rightarrow> nat \<Rightarrow> 'e cz \<Rightarrow> (bool \<times> 'e cz) option" where
  "color_loop h clock_us exec_us backup changed exec_cksum stage_max s =
    (case pop_biggest_range (cz_ranges s) of
       None \<Rightarrow> Some (False, s)
     | Some i \<Rightarrow>
         if cz_stage_cur s < stage_max
         then (case color_step h clock_us exec_us backup changed exec_cksum i s of
             (bail, s) \<Rightarrow> if bail then Some (True, s) else color_loop h clock_us exec_us backup changed exec_cksum stage_max s)
         else Some (False, s))"

section \<open>Taints\<close>

text \<open>A walk over the list: the range that continues the last taint, or the first range not yet taken.\<close>

datatype taint_step = T_EXTEND nat | T_NEW nat | T_END

fun taint_walk :: "(nat \<times> nat) list \<Rightarrow> range list \<Rightarrow> nat \<Rightarrow> nat \<Rightarrow> taint_step \<Rightarrow> taint_step" where
  "taint_walk ts [] i pos best = best"
| "taint_walk ts (r # rs) i pos best =
     (if rg_ok r = 1 \<and> rg_start r < pos
      then if ts \<noteq> [] \<and> fst (hd ts) + snd (hd ts) = rg_start r then T_EXTEND i
           else taint_walk ts rs (i + 1) (rg_start r) (T_NEW i)
      else taint_walk ts rs (i + 1) pos best)"

definition take_range :: "range list \<Rightarrow> nat \<Rightarrow> range list" where
  "take_range rs i = rs[i := (rs ! i)\<lparr>rg_ok := 2\<rparr>]"

partial_function (option) collect_taints :: "range list \<Rightarrow> (nat \<times> nat) list \<Rightarrow> nat \<Rightarrow> ((nat \<times> nat) list \<times> nat) option" where
  "collect_taints rs ts positions =
    (case taint_walk ts rs 0 (2 ^ 32 - 1) T_END of
       T_EXTEND i \<Rightarrow> collect_taints (take_range rs i) ((fst (hd ts), snd (hd ts) + rg_size (rs ! i)) # tl ts) (positions + rg_size (rs ! i))
     | T_NEW i \<Rightarrow> collect_taints (take_range rs i) ((rg_start (rs ! i), rg_size (rs ! i)) # ts) (positions + rg_size (rs ! i))
     | T_END \<Rightarrow> Some (ts, positions))"

section \<open>The stage\<close>

definition CMPLOG_POSITIONS_MAX :: nat where "CMPLOG_POSITIONS_MAX = 12288"
definition CMPLOG_CORPUS_PERCENT :: nat where "CMPLOG_CORPUS_PERCENT = 5"

record 'e color_result =
  cr_taints :: "(nat \<times> nat) list"
  cr_buf :: buf
  cr_success :: nat
  cr_stage_cur :: nat
  cr_afl :: afl_state
  cr_env :: 'e

text \<open>\<open>Some None\<close>: the entry is to be abandoned. An empty list of taints is a null pointer.\<close>

definition colorization ::
    "'e host \<Rightarrow> ('e \<Rightarrow> u64 \<times> 'e) \<Rightarrow> bool \<Rightarrow> nat \<Rightarrow> nat \<Rightarrow> nat \<Rightarrow> buf \<Rightarrow> afl_state \<Rightarrow> 'e \<Rightarrow> 'e color_result option option" where
  "colorization h clock_us random_colorization cmplog_lvl colorize_success q buf a e =
    (let len = length buf;
         s = \<lparr>cz_buf = buf, cz_ranges = add_range [] 0 (len - 1), cz_afl = a, cz_env = e, cz_stage_cur = 0\<rparr>;
         (bail, exec_cksum, s) = get_exec_checksum h s
     in if bail then Some None
        else case (if random_colorization then random_replace h buf (cz_env s) else type_replace h buf (cz_env s)) of
            None \<Rightarrow> None
          | Some (changed, e) \<Rightarrow>
              (case color_loop h clock_us (q_exec_us (entry (cz_afl s) q)) buf changed exec_cksum (2 * len) (s\<lparr>cz_env := e\<rparr>) of
                 None \<Rightarrow> None
               | Some (bail, s) \<Rightarrow>
                   if bail then Some None
                   else case collect_taints (cz_ranges s) [] 0 of
                       None \<Rightarrow> None
                     | Some (ts, positions) \<Rightarrow>
                         let bad = colorize_success \<noteq> 0 \<and> cmplog_lvl < 3 \<and> positions > CMPLOG_POSITIONS_MAX \<and> len div positions = 1 \<and>
                               active_items (cz_afl s) div colorize_success > CMPLOG_CORPUS_PERCENT
                         in Some (Some \<lparr>cr_taints = (if bad then [] else ts), cr_buf = cz_buf s,
                              cr_success = (if ts \<noteq> [] \<and> \<not> bad then colorize_success + 1 else colorize_success),
                              cr_stage_cur = cz_stage_cur s, cr_afl = cz_afl s, cr_env = cz_env s\<rparr>)))"

section \<open>Replacing\<close>

text \<open>The random numbers end the loops that wait for another byte.\<close>

definition replaces :: "'e host \<Rightarrow> bool \<Rightarrow> bool" where
  "replaces h rc \<longleftrightarrow> (\<forall>b e. differing (if rc then random_byte h else type_byte h) b e \<noteq> None)"

lemma differing_differs: "differing gen b e = Some (c, e') \<Longrightarrow> c \<noteq> b"
proof (induction gen b e "(c, e')" arbitrary: c e' rule: differing.raw_induct [rotated, consumes 1, case_names step])
  case (step u gen b e)
  then show ?case by (auto split: prod.splits if_splits)
qed

lemma replace_all_ok:
  assumes "\<forall>b e. differing gen b e \<noteq> None"
  shows "\<exists>cs e'. replace_all gen bs e = Some (cs, e') \<and> length cs = length bs \<and> (\<forall>i < length bs. cs ! i \<noteq> bs ! i)"
proof (induction bs arbitrary: e)
  case (Cons b bs)
  obtain c e1 where c: "differing gen b e = Some (c, e1)" using assms by (metis not_None_eq prod.exhaust)
  obtain cs e2 where "replace_all gen bs e1 = Some (cs, e2)" "length cs = length bs" "\<forall>i < length bs. cs ! i \<noteq> bs ! i"
    using Cons.IH by blast
  then show ?case using c differing_differs [OF c] by (auto simp: nth_Cons split: nat.split)
qed simp

section \<open>Ranges cover each byte at most once\<close>

definition covers :: "range \<Rightarrow> nat \<Rightarrow> bool" where
  "covers r p \<longleftrightarrow> rg_start r \<le> p \<and> p \<le> rg_end r"

definition covering :: "nat \<Rightarrow> nat \<Rightarrow> range list \<Rightarrow> nat" where
  "covering k p rs = length (filter (\<lambda>r. rg_ok r = k \<and> covers r p) rs)"

definition within_len :: "nat \<Rightarrow> range list \<Rightarrow> bool" where
  "within_len n rs \<longleftrightarrow> (\<forall>r \<in> set rs. rg_start r \<le> rg_end r \<and> rg_end r < n)"

text \<open>What is still to decide: a range of \<open>s\<close> bytes takes at most \<open>2 * s - 1\<close> runs.\<close>

definition pending :: "range list \<Rightarrow> nat" where
  "pending rs = sum_list (map (\<lambda>r. if rg_ok r = 0 then 2 * rg_size r - 1 else 0) rs)"

lemma covering_simps [simp]:
  "covering k p [] = 0" "covering k p (r # rs) = (if rg_ok r = k \<and> covers r p then 1 else 0) + covering k p rs"
  "covering k p (rs @ rs') = covering k p rs + covering k p rs'"
  by (simp_all add: covering_def)

lemma pending_simps [simp]:
  "pending [] = 0" "pending (r # rs) = (if rg_ok r = 0 then 2 * rg_size r - 1 else 0) + pending rs"
  "pending (rs @ rs') = pending rs + pending rs'"
  by (simp_all add: pending_def)

lemma covers_ok [simp]: "covers (r\<lparr>rg_ok := k\<rparr>) p = covers r p"
  by (simp add: covers_def)

lemma biggest_in:
  "biggest rs i m best = Some j \<Longrightarrow> best = Some j \<or> i \<le> j \<and> j < i + length rs \<and> rg_ok (rs ! (j - i)) = 0"
proof (induction rs i m best rule: biggest.induct)
  case (2 r rs i m best)
  then show ?case by (auto split: if_splits simp: nth_Cons' Suc_diff_le)
qed simp

lemma pop_biggest_in: "pop_biggest_range rs = Some i \<Longrightarrow> i < length rs \<and> rg_ok (rs ! i) = 0"
  unfolding pop_biggest_range_def by (drule biggest_in) auto

lemma biggest_none: "biggest rs i m best = None \<Longrightarrow> best = None \<and> (\<forall>r \<in> set rs. rg_ok r = 0 \<longrightarrow> rg_size r < m)"
  by (induction rs i m best rule: biggest.induct) (auto split: if_splits)

lemma pop_biggest_none: "pop_biggest_range rs = None \<Longrightarrow> \<forall>r \<in> set rs. rg_ok r \<noteq> 0"
  unfolding pop_biggest_range_def by (drule biggest_none) auto

lemma covering_remove:
  "i < length rs \<Longrightarrow> covering k p rs = covering k p (take i rs @ drop (i + 1) rs) + (if rg_ok (rs ! i) = k \<and> covers (rs ! i) p then 1 else 0)"
  by (subst id_take_nth_drop [of i rs]) (auto simp: covering_def)

lemma pending_remove:
  "i < length rs \<Longrightarrow> pending rs = pending (take i rs @ drop (i + 1) rs) + (if rg_ok (rs ! i) = 0 then 2 * rg_size (rs ! i) - 1 else 0)"
  by (subst id_take_nth_drop [of i rs]) (auto simp: pending_def)

lemma covering_update:
  "i < length rs \<Longrightarrow> covering k p (rs[i := r]) = covering k p (take i rs @ drop (i + 1) rs) + (if rg_ok r = k \<and> covers r p then 1 else 0)"
  using covering_remove [of i "rs[i := r]" k p] by simp

lemma pending_update:
  "i < length rs \<Longrightarrow> pending (rs[i := r]) = pending (take i rs @ drop (i + 1) rs) + (if rg_ok r = 0 then 2 * rg_size r - 1 else 0)"
  using pending_remove [of i "rs[i := r]"] by simp

lemma within_update: "within_len n rs \<Longrightarrow> rg_start r \<le> rg_end r \<Longrightarrow> rg_end r < n \<Longrightarrow> within_len n (rs[i := r])"
  unfolding within_len_def using set_update_subset_insert by fastforce

lemma covering_pos: "0 < covering k p rs \<longleftrightarrow> (\<exists>r \<in> set rs. rg_ok r = k \<and> covers r p)"
  by (auto simp: covering_def filter_empty_conv)

text \<open>The halves of a range.\<close>

lemma halves:
  assumes "rg_start r \<le> rg_end r" and "1 < rg_size r"
  defines "a \<equiv> \<lparr>rg_start = rg_start r, rg_end = rg_start r + rg_size r div 2 - 1, rg_ok = 0\<rparr>"
    and "b \<equiv> \<lparr>rg_start = rg_start r + rg_size r div 2, rg_end = rg_end r, rg_ok = 0\<rparr>"
  shows "rg_start a \<le> rg_end a" "rg_end a < rg_start b" "rg_start b \<le> rg_end b" "rg_start b = rg_end a + 1"
    "covers r p \<longleftrightarrow> covers a p \<or> covers b p" "\<not> (covers a p \<and> covers b p)"
    "(2 * rg_size a - 1) + (2 * rg_size b - 1) < 2 * rg_size r - 1"
  using assms by (auto simp: rg_size_def covers_def)

section \<open>The loop over the ranges\<close>

definition stands_still :: "('e \<Rightarrow> u64 \<times> 'e) \<Rightarrow> bool" where
  "stands_still clock \<longleftrightarrow> (\<forall>e e'. fst (clock e) = fst (clock e'))"

text \<open>The new value of this byte alone changes the trace, in some mixture of old and new bytes.\<close>

definition refused :: "(buf \<Rightarrow> u64) \<Rightarrow> u64 \<Rightarrow> buf \<Rightarrow> buf \<Rightarrow> nat \<Rightarrow> bool" where
  "refused ck ex x y p \<longleftrightarrow> (\<exists>b. length b = length x \<and> (\<forall>i < length x. b ! i = x ! i \<or> b ! i = y ! i) \<and> ck (b[p := y ! p]) \<noteq> ex)"

definition mixed :: "buf \<Rightarrow> buf \<Rightarrow> range list \<Rightarrow> buf \<Rightarrow> bool" where
  "mixed x y rs b \<longleftrightarrow> length b = length x \<and> (\<forall>p < length x. b ! p = (if 0 < covering 1 p rs then y ! p else x ! p))"

definition ranges_ok :: "nat \<Rightarrow> range list \<Rightarrow> bool" where
  "ranges_ok n rs \<longleftrightarrow> within_len n rs \<and> (\<forall>p. covering 0 p rs + covering 1 p rs \<le> 1) \<and> (\<forall>r \<in> set rs. rg_ok r \<le> 1)"

definition cz_inv :: "'e host \<Rightarrow> ('e \<Rightarrow> u64 \<times> 'e) \<Rightarrow> (buf \<Rightarrow> u64) \<Rightarrow> buf \<Rightarrow> buf \<Rightarrow> u64 \<Rightarrow> 'e cz \<Rightarrow> bool" where
  "cz_inv h clock ck x y ex s \<longleftrightarrow> ranges_ok (length x) (cz_ranges s) \<and> mixed x y (cz_ranges s) (cz_buf s) \<and>
     pending (cz_ranges s) + cz_stage_cur s < 2 * length x \<and> (traces_by h ck \<longrightarrow> ck (cz_buf s) = ex) \<and>
     (traces_by h ck \<and> stands_still clock \<longrightarrow>
        (\<forall>p < length x. covering 0 p (cz_ranges s) + covering 1 p (cz_ranges s) = 0 \<longrightarrow> refused ck ex x y p))"

lemma nth_copy_range:
  assumes "rg_start r \<le> rg_end r" and "rg_end r < length dst" and "length src = length dst" and "p < length dst"
  shows "copy_range r src dst ! p = (if covers r p then src ! p else dst ! p)"
  using assms by (auto simp: copy_range_def covers_def rg_size_def nth_append min_def)

lemma length_copy_range [simp]:
  "rg_start r \<le> rg_end r \<Longrightarrow> rg_end r < length dst \<Longrightarrow> length src = length dst \<Longrightarrow> length (copy_range r src dst) = length dst"
  by (simp add: copy_range_def rg_size_def)

lemma split_facts:
  assumes "i < length rs" and "rg_ok (rs ! i) = 0" and "ranges_ok n rs"
  shows "ranges_ok n (split_range rs i)" "covering 1 p (split_range rs i) = covering 1 p rs" "pending (split_range rs i) < pending rs"
    "covering 0 p (split_range rs i) = covering 0 p rs - (if rg_size (rs ! i) = 1 \<and> covers (rs ! i) p then 1 else 0)"
proof -
  let ?r = "rs ! i" let ?rest = "take i rs @ drop (i + 1) rs"
  have w: "rg_start ?r \<le> rg_end ?r" "rg_end ?r < n" using assms by (auto simp: ranges_ok_def within_len_def)
  have one: "1 \<le> rg_size ?r" using w by (simp add: rg_size_def)
  have rest: "within_len n ?rest" "\<forall>r \<in> set ?rest. rg_ok r \<le> 1"
    using assms(3) by (auto simp: ranges_ok_def within_len_def dest: in_set_takeD in_set_dropD)
  note hv = halves [OF w(1)]
  have c: "covering k p (split_range rs i) = (if rg_size ?r = 1 \<and> k = 0 \<and> covers ?r p then covering k p rs - 1 else covering k p rs)" for k p
  proof -
    obtain l where l: "l = ?rest" by simp
    show ?thesis
      using covering_remove [OF assms(1), of k p] assms(2) hv(5,6) [of p] one
      unfolding split_range_def Let_def l [symmetric] by (cases "1 < rg_size ?r") (auto simp: add_range_def)
  qed
  show "covering 1 p (split_range rs i) = covering 1 p rs" using c by simp
  show "covering 0 p (split_range rs i) = covering 0 p rs - (if rg_size (rs ! i) = 1 \<and> covers (rs ! i) p then 1 else 0)" using c by simp
  have b: "rg_start ?r \<le> rg_start ?r + rg_size ?r div 2 - 1" "rg_start ?r + rg_size ?r div 2 \<le> rg_end ?r" if "1 < rg_size ?r"
    using hv(1,3) that by simp_all
  show "ranges_ok n (split_range rs i)"
    unfolding ranges_ok_def
  proof (intro conjI allI)
    show "covering 0 p (split_range rs i) + covering 1 p (split_range rs i) \<le> 1" for p
    proof -
      have "covering 0 p rs + covering 1 p rs \<le> 1" using assms(3) by (simp add: ranges_ok_def)
      then show ?thesis using c [of 0 p] c [of 1 p] by auto
    qed
    show "within_len n (split_range rs i)"
      using rest(1) b w by (auto simp: split_range_def Let_def add_range_def within_len_def)
    show "\<forall>r \<in> set (split_range rs i). rg_ok r \<le> 1"
      using rest(2) by (auto simp: split_range_def Let_def add_range_def)
  qed
  show "pending (split_range rs i) < pending rs"
  proof -
    obtain l where l: "l = ?rest" by simp
    have "pending rs = pending l + (2 * rg_size ?r - 1)" using pending_remove [OF assms(1)] assms(2) l by simp
    then show ?thesis
      using hv(7) one unfolding split_range_def Let_def l [symmetric] by (cases "1 < rg_size ?r") (simp_all add: add_range_def, linarith)
  qed
qed

lemma accept_facts:
  assumes "i < length rs" and "rg_ok (rs ! i) = 0" and "ranges_ok n rs"
  defines "rs' \<equiv> rs[i := (rs ! i)\<lparr>rg_ok := 1\<rparr>]"
  shows "ranges_ok n rs'" "covering 1 p rs' = covering 1 p rs + (if covers (rs ! i) p then 1 else 0)" "pending rs' < pending rs"
    "covering 0 p rs' + covering 1 p rs' = covering 0 p rs + covering 1 p rs"
proof -
  let ?r = "rs ! i"
  have w: "rg_start ?r \<le> rg_end ?r" "rg_end ?r < n" using assms(1,3) by (auto simp: ranges_ok_def within_len_def)
  have c1: "covering 1 p rs' = covering 1 p rs + (if covers ?r p then 1 else 0)" for p
    using covering_update [OF assms(1), of 1 p] covering_remove [OF assms(1), of 1 p] assms(2) by (simp add: rs'_def)
  have c0: "covering 0 p rs' + covering 1 p rs' = covering 0 p rs + covering 1 p rs" for p
    using c1 [of p] covering_update [OF assms(1), of 0 p] covering_remove [OF assms(1), of 0 p] assms(2) by (simp add: rs'_def)
  show "covering 1 p rs' = covering 1 p rs + (if covers (rs ! i) p then 1 else 0)" by (rule c1)
  show "covering 0 p rs' + covering 1 p rs' = covering 0 p rs + covering 1 p rs" by (rule c0)
  have "within_len n rs'" unfolding rs'_def using assms(3) w by (intro within_update) (auto simp: ranges_ok_def)
  moreover have "\<forall>r \<in> set rs'. rg_ok r \<le> 1"
    using assms(3) set_update_subset_insert [of rs i] unfolding rs'_def ranges_ok_def by fastforce
  ultimately show "ranges_ok n rs'" using assms(3) c0 by (simp add: ranges_ok_def)
  show "pending rs' < pending rs"
    using pending_update [OF assms(1)] pending_remove [OF assms(1)] assms(2) w by (simp add: rs'_def rg_size_def)
qed

lemma exec_checksum_sel:
  assumes "get_exec_checksum h s = (bail, cksum, s')"
  shows "cz_buf s' = cz_buf s" "cz_ranges s' = cz_ranges s" "cz_stage_cur s' = cz_stage_cur s" "traces_by h ck \<Longrightarrow> cksum = ck (cz_buf s)"
  using assms by (auto simp: get_exec_checksum_def traces_by_def Let_def split: prod.splits) metis

lemma color_step_ok:
  assumes inv: "cz_inv h clock ck x y ex s" and xy: "length y = length x" and i: "i < length (cz_ranges s)" "rg_ok (cz_ranges s ! i) = 0"
    and step: "color_step h clock us x y ex i s = (False, s')"
  shows "cz_inv h clock ck x y ex s' \<and> cz_stage_cur s' = cz_stage_cur s + 1"
proof -
  let ?rs = "cz_ranges s" let ?r = "?rs ! i" let ?b = "copy_range ?r y (cz_buf s)"
  have r: "ranges_ok (length x) ?rs" and m: "mixed x y ?rs (cz_buf s)" using inv by (auto simp: cz_inv_def)
  have w: "rg_start ?r \<le> rg_end ?r" "rg_end ?r < length x" using r i by (auto simp: ranges_ok_def within_len_def)
  have lb: "length (cz_buf s) = length x" using m by (simp add: mixed_def)
  have lone: "covering 1 p ?rs = 0" if "covers ?r p" for p
  proof -
    have "1 \<le> covering 0 p ?rs" using covering_remove [OF i(1), of 0 p] i(2) that by simp
    moreover have "covering 0 p ?rs + covering 1 p ?rs \<le> 1" using r by (simp add: ranges_ok_def)
    ultimately show ?thesis by linarith
  qed
  have nb: "?b ! p = (if covers ?r p then y ! p else cz_buf s ! p)" if "p < length x" for p
    using nth_copy_range [OF w(1), of "cz_buf s" y p] w lb xy that by simp
  have undo: "copy_range ?r x ?b = cz_buf s"
  proof (rule nth_equalityI)
    show "length (copy_range ?r x ?b) = length (cz_buf s)" using w lb xy by simp
    fix p assume "p < length (copy_range ?r x ?b)"
    then have p: "p < length x" using w lb xy by simp
    have 1: "copy_range ?r x ?b ! p = (if covers ?r p then x ! p else ?b ! p)"
      by (rule nth_copy_range) (use w lb xy p in simp_all)
    have "covers ?r p \<Longrightarrow> cz_buf s ! p = x ! p" using m p lone [of p] by (simp add: mixed_def)
    then show "copy_range ?r x ?b ! p = cz_buf s ! p" unfolding 1 nb [OF p] by simp
  qed
  obtain start e1 where t1: "clock (cz_env s) = (start, e1)" by fastforce
  obtain bail cksum s1 where ex: "get_exec_checksum h (s\<lparr>cz_buf := ?b, cz_env := e1\<rparr>) = (bail, cksum, s1)" by (metis prod_cases3)
  obtain stop e2 where t2: "clock (cz_env s1) = (stop, e2)" by fastforce
  note sel = exec_checksum_sel [OF ex, simplified]
  let ?slow = "stop - start > 3 * of_nat us \<and> \<not> fixed_seed (cz_afl s1)"
  define u where "u = (if cksum \<noteq> ex \<or> ?slow
      then s1\<lparr>cz_env := e2, cz_buf := copy_range ?r x ?b, cz_ranges := split_range ?rs i, cz_stage_cur := cz_stage_cur s + 1\<rparr>
      else s1\<lparr>cz_env := e2, cz_ranges := ?rs[i := ?r\<lparr>rg_ok := 1\<rparr>], cz_stage_cur := cz_stage_cur s + 1\<rparr>)"
  have "color_step h clock us x y ex i s = (if bail then (True, s1) else (False, u))"
    unfolding color_step_def Let_def u_def by (simp add: t1 ex t2 sel(1-3))
  then have "u = s'" unfolding step by (cases bail) simp_all
  note s' = u_def [unfolded this]
  show ?thesis
  proof (cases "cksum \<noteq> ex \<or> ?slow")
    case False
    note af = accept_facts [OF i r, unfolded One_nat_def]
    have "mixed x y (?rs[i := ?r\<lparr>rg_ok := 1\<rparr>]) ?b"
      unfolding mixed_def using m w lb xy nb by (auto simp: mixed_def af(2))
    then have n: "cz_ranges s' = ?rs[i := ?r\<lparr>rg_ok := 1\<rparr>]" "mixed x y (cz_ranges s') (cz_buf s')" "cz_buf s' = ?b" "cz_stage_cur s' = cz_stage_cur s + 1"
      using sel(1-3) unfolding s' if_not_P [OF False] by simp_all
    have ck: "traces_by h ck \<longrightarrow> ck (cz_buf s') = ex" using sel(4) False n(3) by simp
    have pd: "pending (cz_ranges s') + cz_stage_cur s' < 2 * length x" using inv af(3) n(1,4) by (simp add: cz_inv_def)
    have cv: "covering 0 p (cz_ranges s') + covering 1 p (cz_ranges s') = covering 0 p ?rs + covering 1 p ?rs" for p
      using accept_facts(4) [OF i r, of p] n(1) by simp
    show ?thesis using inv n(2,4) ck pd af(1) n(1) unfolding cz_inv_def cv by simp
  next
    case True
    note sf = split_facts [OF i r, unfolded One_nat_def]
    have rf: "refused ck ex x y p" if "traces_by h ck" "stands_still clock" "rg_size ?r = 1" "covers ?r p" for p
    proof -
      have "stop = start" using that(2) t1 t2 unfolding stands_still_def by (metis fst_conv)
      then have "cksum \<noteq> ex" using True by simp
      then have "ck ?b \<noteq> ex" using sel(4) [OF that(1)] by simp
      moreover have "?b = (cz_buf s)[p := y ! p]"
      proof (rule nth_equalityI)
        show "length ?b = length ((cz_buf s)[p := y ! p])" using w lb xy by simp
        fix k assume "k < length ?b"
        then have k: "k < length x" using w lb xy by simp
        have "covers ?r k \<longleftrightarrow> k = p" using that(3,4) w by (auto simp: covers_def rg_size_def)
        then show "?b ! k = (cz_buf s)[p := y ! p] ! k" using nb [OF k] k lb by auto
      qed
      ultimately show ?thesis using m unfolding refused_def mixed_def by (intro exI [of _ "cz_buf s"]) auto
    qed
    have n: "cz_ranges s' = split_range ?rs i" "cz_buf s' = cz_buf s" "cz_stage_cur s' = cz_stage_cur s + 1"
      using sel(1-3) undo unfolding s' if_P [OF True] by simp_all
    have mx: "mixed x y (cz_ranges s') (cz_buf s')" using m by (simp add: mixed_def sf(2) n)
    have pd: "pending (cz_ranges s') + cz_stage_cur s' < 2 * length x" using inv sf(3) n(1,3) by (simp add: cz_inv_def)
    have "refused ck ex x y p" if t: "traces_by h ck" "stands_still clock" and p: "p < length x" "covering 0 p (cz_ranges s') + covering 1 p (cz_ranges s') = 0" for p
    proof (cases "covering 0 p ?rs + covering 1 p ?rs = 0")
      case True
      then show ?thesis using inv t p(1) by (simp add: cz_inv_def)
    next
      case False
      then have "rg_size ?r = 1" "covers ?r p" using p(2) split_facts(2,4) [OF i r, of p] unfolding n(1) by (auto split: if_splits)
      then show ?thesis using rf [OF t] by blast
    qed
    then show ?thesis using inv mx pd n sf(1) unfolding cz_inv_def by simp
  qed
qed

lemma color_loop_ok:
  assumes "cz_inv h clock ck x y ex s" and "length y = length x"
  shows "\<exists>bail s'. color_loop h clock us x y ex (2 * length x) s = Some (bail, s') \<and>
    (\<not> bail \<longrightarrow> cz_inv h clock ck x y ex s' \<and> (\<forall>r \<in> set (cz_ranges s'). rg_ok r = 1))"
  using assms(1)
proof (induction "2 * length x - cz_stage_cur s" arbitrary: s rule: less_induct)
  case less
  show ?case
  proof (cases "pop_biggest_range (cz_ranges s)")
    case None
    then have "\<forall>r \<in> set (cz_ranges s). rg_ok r = 1"
      using pop_biggest_none [OF None] less.prems by (fastforce simp: cz_inv_def ranges_ok_def)
    then show ?thesis using None less.prems by (subst color_loop.simps) auto
  next
    case (Some i)
    note i = pop_biggest_in [OF Some]
    have lt: "cz_stage_cur s < 2 * length x" using less.prems by (simp add: cz_inv_def)
    obtain bail s1 where st: "color_step h clock us x y ex i s = (bail, s1)" by fastforce
    show ?thesis
    proof (cases bail)
      case True
      then show ?thesis using Some st lt by (subst color_loop.simps) auto
    next
      case False
      have ok: "cz_inv h clock ck x y ex s1" "cz_stage_cur s1 = cz_stage_cur s + 1"
        using color_step_ok [OF less.prems assms(2), of i us s1] i st False by simp_all
      have "2 * length x - cz_stage_cur s1 < 2 * length x - cz_stage_cur s" using ok(2) lt by simp
      from less.hyps [OF this ok(1)] show ?thesis using Some st lt False by (subst color_loop.simps) simp
    qed
  qed
qed

section \<open>Collecting the taints\<close>

definition tainted :: "(nat \<times> nat) list \<Rightarrow> nat \<Rightarrow> bool" where
  "tainted ts p \<longleftrightarrow> (\<exists>t \<in> set ts. fst t \<le> p \<and> p < fst t + snd t)"

text \<open>The last taint comes first, and between two taints there is a gap.\<close>

definition apart :: "(nat \<times> nat) list \<Rightarrow> bool" where
  "apart ts \<longleftrightarrow> sorted_wrt (\<lambda>t u. fst u + snd u < fst t) ts \<and> (\<forall>t \<in> set ts. 0 < snd t)"

definition continues :: "(nat \<times> nat) list \<Rightarrow> range \<Rightarrow> bool" where
  "continues ts r \<longleftrightarrow> ts \<noteq> [] \<and> fst (hd ts) + snd (hd ts) = rg_start r"

definition walk_ok :: "(nat \<times> nat) list \<Rightarrow> range list \<Rightarrow> nat \<Rightarrow> nat \<Rightarrow> taint_step \<Rightarrow> taint_step \<Rightarrow> bool" where
  "walk_ok ts rs i pos best st \<longleftrightarrow> (case st of
      T_EXTEND j \<Rightarrow> i \<le> j \<and> j < i + length rs \<and> rg_ok (rs ! (j - i)) = 1 \<and> continues ts (rs ! (j - i))
    | _ \<Rightarrow> (st = best \<and> (\<forall>r \<in> set rs. rg_ok r = 1 \<longrightarrow> pos \<le> rg_start r)) \<or>
        (\<exists>j. st = T_NEW j \<and> i \<le> j \<and> j < i + length rs \<and> rg_ok (rs ! (j - i)) = 1 \<and> \<not> continues ts (rs ! (j - i)) \<and>
           rg_start (rs ! (j - i)) < pos \<and> (\<forall>r \<in> set rs. rg_ok r = 1 \<longrightarrow> rg_start (rs ! (j - i)) \<le> rg_start r)))"

lemma taint_walk_ok: "\<forall>j. best \<noteq> T_EXTEND j \<Longrightarrow> walk_ok ts rs i pos best (taint_walk ts rs i pos best)"
proof (induction ts rs i pos best rule: taint_walk.induct)
  case (1 ts i pos best)
  then show ?case by (auto simp: walk_ok_def split: taint_step.split)
next
  case (2 ts r rs i pos best)
  have sh: "(r # rs) ! (j - i) = rs ! (j - Suc i)" if "Suc i \<le> j" for j using that by (simp add: nth_Cons' )
  consider (ext) "rg_ok r = 1" "rg_start r < pos" "continues ts r" | (new) "rg_ok r = 1" "rg_start r < pos" "\<not> continues ts r"
    | (skip) "\<not> (rg_ok r = 1 \<and> rg_start r < pos)" by blast
  then show ?case
  proof cases
    case ext
    then show ?thesis by (auto simp: walk_ok_def continues_def)
  next
    case new
    then have e: "taint_walk ts (r # rs) i pos best = taint_walk ts rs (i + 1) (rg_start r) (T_NEW i)" by (auto simp: continues_def)
    have "walk_ok ts rs (i + 1) (rg_start r) (T_NEW i) (taint_walk ts rs (i + 1) (rg_start r) (T_NEW i))"
      using 2(1) new by (auto simp: continues_def)
    then show ?thesis unfolding e using new by (fastforce simp: walk_ok_def sh split: taint_step.splits)
  next
    case skip
    then have e: "taint_walk ts (r # rs) i pos best = taint_walk ts rs (i + 1) pos best" by auto
    have "walk_ok ts rs (i + 1) pos best (taint_walk ts rs (i + 1) pos best)" using 2(2) 2(3) skip by auto
    then show ?thesis unfolding e using skip by (fastforce simp: walk_ok_def sh split: taint_step.splits)
  qed
qed

text \<open>\<open>rs\<close> has the ranges taken so far marked with 2.\<close>

definition tt_inv :: "nat \<Rightarrow> (nat \<Rightarrow> bool) \<Rightarrow> range list \<Rightarrow> (nat \<times> nat) list \<Rightarrow> nat \<Rightarrow> bool" where
  "tt_inv n S rs ts m \<longleftrightarrow> within_len n rs \<and> (\<forall>p. covering 1 p rs + covering 2 p rs = (if S p then 1 else 0)) \<and>
     (\<forall>p. tainted ts p \<longleftrightarrow> 0 < covering 2 p rs) \<and> apart ts \<and> m = sum_list (map snd ts) \<and>
     (ts \<noteq> [] \<longrightarrow> (\<forall>r \<in> set rs. rg_ok r = 1 \<longrightarrow> fst (hd ts) + snd (hd ts) \<le> rg_start r))"

definition open_ranges :: "range list \<Rightarrow> nat" where
  "open_ranges rs = length (filter (\<lambda>r. rg_ok r = 1) rs)"

lemma take_facts:
  assumes "i < length rs" and "rg_ok (rs ! i) = 1"
  shows "covering 1 p rs = covering 1 p (take_range rs i) + (if covers (rs ! i) p then 1 else 0)"
    "covering 2 p (take_range rs i) = covering 2 p rs + (if covers (rs ! i) p then 1 else 0)"
    "open_ranges (take_range rs i) < open_ranges rs" "r \<in> set (take_range rs i) \<Longrightarrow> rg_ok r = 1 \<Longrightarrow> r \<in> set rs"
    "within_len n rs \<Longrightarrow> within_len n (take_range rs i)"
proof -
  show "covering 1 p rs = covering 1 p (take_range rs i) + (if covers (rs ! i) p then 1 else 0)"
    using covering_update [OF assms(1), of 1 p] covering_remove [OF assms(1), of 1 p] assms(2) by (simp add: take_range_def)
  show "covering 2 p (take_range rs i) = covering 2 p rs + (if covers (rs ! i) p then 1 else 0)"
    using covering_update [OF assms(1), of 2 p] covering_remove [OF assms(1), of 2 p] assms(2) by (simp add: take_range_def)
  have "open_ranges rs = open_ranges (take i rs @ drop (i + 1) rs) + 1"
    by (subst id_take_nth_drop [OF assms(1)]) (simp add: open_ranges_def assms(2))
  moreover have "open_ranges (take_range rs i) = open_ranges (take i rs @ drop (i + 1) rs)"
    by (subst id_take_nth_drop [of i "take_range rs i"]) (use assms(1) in \<open>simp_all add: open_ranges_def take_range_def\<close>)
  ultimately show "open_ranges (take_range rs i) < open_ranges rs" by simp
  show "r \<in> set (take_range rs i) \<Longrightarrow> rg_ok r = 1 \<Longrightarrow> r \<in> set rs"
    using set_update_subset_insert [of rs i "(rs ! i)\<lparr>rg_ok := 2\<rparr>"] by (auto simp: take_range_def)
  show "within_len n rs \<Longrightarrow> within_len n (take_range rs i)"
    unfolding take_range_def using assms(1) by (intro within_update) (auto simp: within_len_def)
qed

lemma covers_size: "rg_start r \<le> rg_end r \<Longrightarrow> covers r p \<longleftrightarrow> rg_start r \<le> p \<and> p < rg_start r + rg_size r"
  by (auto simp: covers_def rg_size_def)

text \<open>No other range starts inside a range.\<close>

lemma after_range:
  assumes inv: "tt_inv n S rs ts m" and i: "i < length rs" "rg_ok (rs ! i) = 1"
    and low: "\<forall>r \<in> set rs. rg_ok r = 1 \<longrightarrow> rg_start (rs ! i) \<le> rg_start r"
    and r: "r \<in> set (take_range rs i)" "rg_ok r = 1"
  shows "rg_start (rs ! i) + rg_size (rs ! i) \<le> rg_start r"
proof (rule ccontr)
  assume "\<not> ?thesis"
  moreover have w: "rg_start (rs ! i) \<le> rg_end (rs ! i)" "rg_start r \<le> rg_end r"
    using inv i(1) take_facts(4) [OF i r] by (auto simp: tt_inv_def within_len_def)
  ultimately have c: "covers (rs ! i) (rg_start r)" "covers r (rg_start r)"
    using low take_facts(4) [OF i r] r(2) by (auto simp: covers_size [OF w(1)]) (auto simp: covers_def)
  have "0 < covering 1 (rg_start r) (take_range rs i)" unfolding covering_pos using r c(2) by blast
  then have "1 < covering 1 (rg_start r) rs" using take_facts(1) [OF i, of "rg_start r"] c(1) by simp
  moreover have "covering 1 (rg_start r) rs + covering 2 (rg_start r) rs \<le> 1" using inv by (simp add: tt_inv_def)
  ultimately show False by linarith
qed

lemma collect_taints_ok:
  assumes "tt_inv n S rs ts m" and "n < 2 ^ 32"
  shows "\<exists>ts'. collect_taints rs ts m = Some (ts', sum_list (map snd ts')) \<and> apart ts' \<and> (\<forall>p. tainted ts' p \<longleftrightarrow> S p)"
  using assms(1)
proof (induction "open_ranges rs" arbitrary: rs ts m rule: less_induct)
  case less
  note inv = less.prems
  let ?st = "taint_walk ts rs 0 (2 ^ 32 - 1) T_END"
  have wk: "walk_ok ts rs 0 (2 ^ 32 - 1) T_END ?st" by (rule taint_walk_ok) simp
  have cov: "covering 1 p rs + covering 2 p rs = (if S p then 1 else 0)" for p using inv by (simp add: tt_inv_def)
  have common: "tt_inv n S (take_range rs i) ts' m'"
    if i: "i < length rs" "rg_ok (rs ! i) = 1" and t: "\<forall>p. tainted ts' p \<longleftrightarrow> tainted ts p \<or> covers (rs ! i) p" "apart ts'" "m' = sum_list (map snd ts')"
      "\<forall>r \<in> set (take_range rs i). rg_ok r = 1 \<longrightarrow> fst (hd ts') + snd (hd ts') \<le> rg_start r" for i ts' m'
  proof -
    have "covering 1 p (take_range rs i) + covering 2 p (take_range rs i) = (if S p then 1 else 0)" for p
      using cov [of p] take_facts(1,2) [OF i, of p] by simp
    moreover have "tainted ts' p \<longleftrightarrow> 0 < covering 2 p (take_range rs i)" for p
      using t(1) inv take_facts(2) [OF i, of p] by (auto simp: tt_inv_def)
    ultimately show ?thesis using inv t take_facts(5) [OF i] by (simp add: tt_inv_def)
  qed
  show ?case
  proof (cases ?st)
    case T_END
    then have "\<forall>r \<in> set rs. rg_ok r = 1 \<longrightarrow> 2 ^ 32 - 1 \<le> rg_start r" using wk by (auto simp: walk_ok_def)
    moreover have "\<forall>r \<in> set rs. rg_start r < 2 ^ 32 - 1" using inv assms(2) by (auto simp: tt_inv_def within_len_def)
    ultimately have "covering 1 p rs = 0" for p
      using covering_pos [of 1 p rs] by (metis not_le gr0I)
    then have "tainted ts p \<longleftrightarrow> S p" for p using cov [of p] inv by (auto simp: tt_inv_def split: if_splits)
    then show ?thesis using T_END inv by (subst collect_taints.simps) (simp add: tt_inv_def)
  next
    case (T_EXTEND i)
    then have i: "i < length rs" "rg_ok (rs ! i) = 1" and c: "continues ts (rs ! i)" using wk by (auto simp: walk_ok_def)
    obtain t u where ts: "ts = t # u" using c by (cases ts) (auto simp: continues_def)
    have st: "rg_start (rs ! i) = fst t + snd t" using c ts by (simp add: continues_def)
    have w: "rg_start (rs ! i) \<le> rg_end (rs ! i)" using inv i(1) by (auto simp: tt_inv_def within_len_def)
    have low: "\<forall>r \<in> set rs. rg_ok r = 1 \<longrightarrow> rg_start (rs ! i) \<le> rg_start r" using inv ts st by (simp add: tt_inv_def)
    let ?ts = "(fst t, snd t + rg_size (rs ! i)) # u"
    have "tt_inv n S (take_range rs i) ?ts (m + rg_size (rs ! i))"
    proof (rule common [OF i])
      show "\<forall>p. tainted ?ts p \<longleftrightarrow> tainted ts p \<or> covers (rs ! i) p" by (auto simp: tainted_def ts covers_size [OF w] st)
      show "apart ?ts" using inv by (auto simp: tt_inv_def apart_def ts)
      show "m + rg_size (rs ! i) = sum_list (map snd ?ts)" using inv by (simp add: tt_inv_def ts)
      show "\<forall>r \<in> set (take_range rs i). rg_ok r = 1 \<longrightarrow> fst (hd ?ts) + snd (hd ?ts) \<le> rg_start r"
        using after_range [OF inv i low] st by (simp add: add.assoc)
    qed
    from less.hyps [OF take_facts(3) [OF i] this] show ?thesis using T_EXTEND ts by (subst collect_taints.simps) simp
  next
    case (T_NEW i)
    then have i: "i < length rs" "rg_ok (rs ! i) = 1" and c: "\<not> continues ts (rs ! i)"
      and low: "\<forall>r \<in> set rs. rg_ok r = 1 \<longrightarrow> rg_start (rs ! i) \<le> rg_start r" using wk by (auto simp: walk_ok_def)
    have w: "rg_start (rs ! i) \<le> rg_end (rs ! i)" using inv i(1) by (auto simp: tt_inv_def within_len_def)
    have gap: "fst (hd ts) + snd (hd ts) < rg_start (rs ! i)" if "ts \<noteq> []"
      using inv i that c by (force simp: tt_inv_def continues_def)
    let ?ts = "(rg_start (rs ! i), rg_size (rs ! i)) # ts"
    have "tt_inv n S (take_range rs i) ?ts (m + rg_size (rs ! i))"
    proof (rule common [OF i])
      show "\<forall>p. tainted ?ts p \<longleftrightarrow> tainted ts p \<or> covers (rs ! i) p" by (auto simp: tainted_def covers_size [OF w])
      show "apart ?ts"
      proof -
        have "fst u + snd u < rg_start (rs ! i)" if "u \<in> set ts" for u
        proof (cases ts)
          case (Cons t v)
          then have "u = t \<or> fst u + snd u < fst t" using that inv by (auto simp: tt_inv_def apart_def)
          then show ?thesis using gap Cons by auto
        qed (use that in simp)
        then show ?thesis using inv w by (auto simp: tt_inv_def apart_def rg_size_def)
      qed
      show "m + rg_size (rs ! i) = sum_list (map snd ?ts)" using inv by (simp add: tt_inv_def)
      show "\<forall>r \<in> set (take_range rs i). rg_ok r = 1 \<longrightarrow> fst (hd ?ts) + snd (hd ?ts) \<le> rg_start r"
        using after_range [OF inv i low] by simp
    qed
    from less.hyps [OF take_facts(3) [OF i] this] show ?thesis using T_NEW by (subst collect_taints.simps) simp
  qed
qed

text \<open>The coloring starts with the whole input as one range; at its end every range was accepted.\<close>

lemma color_start:
  assumes ec: "get_exec_checksum h \<lparr>cz_buf = buf, cz_ranges = add_range [] 0 (length buf - 1), cz_afl = a, cz_env = e, cz_stage_cur = 0\<rparr> = (bail, ex, s)"
    and n: "0 < length buf" and o: "length other = length buf" "\<forall>p < length buf. other ! p \<noteq> buf ! p"
  shows "cz_inv h clock ck buf other ex (s\<lparr>cz_env := e2\<rparr>)"
proof -
  note sel = exec_checksum_sel [OF ec, simplified]
  have c0: "covering k p (add_range [] 0 (length buf - 1)) = (if k = 0 \<and> p < length buf then 1 else 0)" for k p
    using n by (simp add: add_range_def covers_def) (use n in linarith)
  have "pending (add_range [] 0 (length buf - 1)) = 2 * length buf - 1" using n by (simp add: add_range_def rg_size_def)
  moreover have "within_len (length buf) (add_range [] 0 (length buf - 1))" "\<forall>r \<in> set (add_range [] 0 (length buf - 1)). rg_ok r \<le> 1"
    using n by (simp_all add: add_range_def within_len_def)
  moreover obtain R where R: "R = add_range [] 0 (length buf - 1)" by simp
  ultimately have "ranges_ok (length buf) R" "mixed buf other R buf" "pending R + 0 < 2 * length buf" "\<forall>p < length buf. covering 0 p R + covering 1 p R \<noteq> 0"
    using c0 n unfolding R [symmetric] by (simp_all add: ranges_ok_def mixed_def)
  then show ?thesis
    using sel(1,3) sel(4) [of ck] sel(2) [folded R [unfolded One_nat_def]] unfolding cz_inv_def by auto
qed

lemma color_end:
  assumes i: "cz_inv h clock ck buf other ex s" and one: "\<forall>r \<in> set (cz_ranges s). rg_ok r = 1"
    and o: "\<forall>p < length buf. other ! p \<noteq> buf ! p" and n: "length buf < 2 ^ 32"
  shows "\<exists>ts. collect_taints (cz_ranges s) [] 0 = Some (ts, sum_list (map snd ts)) \<and> apart ts \<and>
    (\<forall>p. tainted ts p \<longleftrightarrow> p < length buf \<and> cz_buf s ! p \<noteq> buf ! p) \<and> length (cz_buf s) = length buf \<and>
    (\<forall>p < length buf. cz_buf s ! p = buf ! p \<longrightarrow> covering 0 p (cz_ranges s) + covering 1 p (cz_ranges s) = 0)"
proof -
  have z: "covering k p (cz_ranges s) = 0" if "k \<noteq> 1" for k p using one that covering_pos [of k p "cz_ranges s"] by fastforce
  define S where "S = (\<lambda>p. 0 < covering 1 p (cz_ranges s))"
  have le: "covering 1 p (cz_ranges s) \<le> 1" for p using i unfolding cz_inv_def ranges_ok_def by (metis add_leD2)
  have wl: "within_len (length buf) (cz_ranges s)" using i by (simp add: cz_inv_def ranges_ok_def)
  have "tt_inv (length buf) S (cz_ranges s) [] 0"
    unfolding tt_inv_def S_def
  proof (intro conjI allI)
    show "covering 1 p (cz_ranges s) + covering 2 p (cz_ranges s) = (if 0 < covering 1 p (cz_ranges s) then 1 else 0)" for p
      using z [of 2 p] le [of p] by (cases "covering 1 p (cz_ranges s)") auto
    show "tainted [] p \<longleftrightarrow> 0 < covering 2 p (cz_ranges s)" for p using z [of 2 p] by (simp add: tainted_def)
  qed (use wl in \<open>simp_all add: apart_def\<close>)
  from collect_taints_ok [OF this n] obtain ts where
    t: "collect_taints (cz_ranges s) [] 0 = Some (ts, sum_list (map snd ts))" "apart ts" "\<forall>p. tainted ts p \<longleftrightarrow> S p" by blast
  have m: "length (cz_buf s) = length buf" "\<forall>p < length buf. cz_buf s ! p = (if S p then other ! p else buf ! p)"
    using i by (simp_all add: cz_inv_def mixed_def S_def)
  have "p < length buf" if "S p" for p
    using that wl unfolding S_def covering_pos by (auto simp: within_len_def covers_def)
  then have d: "S p \<longleftrightarrow> p < length buf \<and> cz_buf s ! p \<noteq> buf ! p" for p using m(2) o by (cases "S p") auto
  have "covering 0 p (cz_ranges s) + covering 1 p (cz_ranges s) = 0" if "p < length buf" "cz_buf s ! p = buf ! p" for p
    using d [of p] z [of 0 p] that by (simp add: S_def)
  then show ?thesis using t m(1) d by blast
qed

lemma colorization_ok:
  assumes rp: "replaces h random" and n: "0 < length buf" "length buf < 2 ^ 32"
  shows "\<exists>y. colorization h clock random lvl succ q buf a e = Some y \<and> (case y of None \<Rightarrow> True | Some r \<Rightarrow>
      length (cr_buf r) = length buf \<and> cr_stage_cur r < 2 * length buf \<and> apart (cr_taints r) \<and>
      (cr_taints r \<noteq> [] \<longrightarrow> (\<forall>p. tainted (cr_taints r) p \<longleftrightarrow> p < length buf \<and> cr_buf r ! p \<noteq> buf ! p)) \<and>
      (traces_by h ck \<longrightarrow> ck (cr_buf r) = ck buf \<and> (stands_still clock \<longrightarrow>
         (\<exists>other. (\<forall>p < length buf. other ! p \<noteq> buf ! p) \<and>
            (\<forall>p < length buf. cr_buf r ! p = buf ! p \<longrightarrow> refused ck (ck buf) buf other p)))))"
proof -
  let ?s = "\<lparr>cz_buf = buf, cz_ranges = add_range [] 0 (length buf - 1), cz_afl = a, cz_env = e, cz_stage_cur = 0\<rparr>"
  obtain bail ex s1 where ec: "get_exec_checksum h ?s = (bail, ex, s1)" by (metis prod_cases3)
  note sel = exec_checksum_sel [OF ec, simplified]
  obtain other e2 where rr: "(if random then random_replace h buf (cz_env s1) else type_replace h buf (cz_env s1)) = Some (other, e2)"
    and o: "length other = length buf" "\<forall>p < length buf. other ! p \<noteq> buf ! p"
    using replace_all_ok [of "if random then random_byte h else type_byte h" buf "cz_env s1"] rp
    by (cases random) (auto simp: replaces_def random_replace_def type_replace_def)
  note inv = color_start [OF ec n(1) o, of clock ck e2]
  from color_loop_ok [OF inv o(1), of "q_exec_us (entry (cz_afl s1) q)"] obtain bail2 s2 where
    l: "color_loop h clock (q_exec_us (entry (cz_afl s1) q)) buf other ex (2 * length buf) (s1\<lparr>cz_env := e2\<rparr>) = Some (bail2, s2)"
    "\<not> bail2 \<longrightarrow> cz_inv h clock ck buf other ex s2 \<and> (\<forall>r \<in> set (cz_ranges s2). rg_ok r = 1)" by blast
  show ?thesis
  proof (cases "bail \<or> bail2")
    case True
    then show ?thesis using ec rr l(1) by (cases bail) (simp_all add: colorization_def Let_def)
  next
    case False
    then have i2: "cz_inv h clock ck buf other ex s2" and one: "\<forall>r \<in> set (cz_ranges s2). rg_ok r = 1" using l(2) by auto
    obtain ts where t: "collect_taints (cz_ranges s2) [] 0 = Some (ts, sum_list (map snd ts))" "apart ts"
      and d: "\<forall>p. tainted ts p \<longleftrightarrow> p < length buf \<and> cz_buf s2 ! p \<noteq> buf ! p" and m: "length (cz_buf s2) = length buf"
      and u: "\<forall>p < length buf. cz_buf s2 ! p = buf ! p \<longrightarrow> covering 0 p (cz_ranges s2) + covering 1 p (cz_ranges s2) = 0"
      using color_end [OF i2 one o(2) n(2)] by blast
    have f: "traces_by h ck \<longrightarrow> ck (cz_buf s2) = ck buf \<and> (stands_still clock \<longrightarrow>
         (\<forall>p < length buf. cz_buf s2 ! p = buf ! p \<longrightarrow> refused ck (ck buf) buf other p))"
    proof (intro impI conjI allI)
      assume tr: "traces_by h ck"
      have ex: "ex = ck buf" using sel(4) [OF tr] by simp
      show "ck (cz_buf s2) = ck buf" using i2 tr ex by (simp add: cz_inv_def)
      fix p assume "stands_still clock" "p < length buf" "cz_buf s2 ! p = buf ! p"
      moreover from this have "covering 0 p (cz_ranges s2) + covering 1 p (cz_ranges s2) = 0" using u by blast
      ultimately show "refused ck (ck buf) buf other p" using i2 tr by (simp add: cz_inv_def ex)
    qed
    have g: "cz_stage_cur s2 < 2 * length buf" using i2 by (simp add: cz_inv_def)
    define bad where "bad \<longleftrightarrow> succ \<noteq> 0 \<and> lvl < 3 \<and> sum_list (map snd ts) > CMPLOG_POSITIONS_MAX \<and> length buf div sum_list (map snd ts) = 1 \<and>
                               active_items (cz_afl s2) div succ > CMPLOG_CORPUS_PERCENT"
    let ?r = "\<lparr>cr_taints = (if bad then [] else ts), cr_buf = cz_buf s2, cr_success = (if ts \<noteq> [] \<and> \<not> bad then succ + 1 else succ),
        cr_stage_cur = cz_stage_cur s2, cr_afl = cz_afl s2, cr_env = cz_env s2\<rparr>"
    have "colorization h clock random lvl succ q buf a e = Some (Some ?r)"
      unfolding colorization_def Let_def ec prod.case rr option.case l(1) bad_def using False t(1) by simp
    moreover have "apart (cr_taints ?r)" using t(2) by (simp add: apart_def)
    moreover have "cr_taints ?r \<noteq> [] \<longrightarrow> (\<forall>p. tainted (cr_taints ?r) p \<longleftrightarrow> p < length buf \<and> cr_buf ?r ! p \<noteq> buf ! p)"
      using d by simp
    moreover have "traces_by h ck \<longrightarrow> ck (cr_buf ?r) = ck buf \<and> (stands_still clock \<longrightarrow>
         (\<exists>other. (\<forall>p < length buf. other ! p \<noteq> buf ! p) \<and> (\<forall>p < length buf. cr_buf ?r ! p = buf ! p \<longrightarrow> refused ck (ck buf) buf other p)))"
      using f o(2) by auto
    ultimately show ?thesis using m g by (intro exI [of _ "Some ?r"]) simp
  qed
qed

text \<open>C13. Colorization returns when the random numbers do, after fewer runs than twice the length of the input.
  The taints are apart, and a byte is tainted exactly when it was replaced. For a target whose trace depends on the input
  only, the colored input has the trace of the original one; and, when no run is slow, a byte that kept
  its value was refused: replacing it alone changed the trace, in some mixture of old and new bytes.\<close>

theorem colorization_correct:
  assumes rp: "replaces h random" and n: "0 < length buf" "length buf < 2 ^ 32"
  shows "\<exists>y. colorization h clock random lvl succ q buf a e = Some y \<and> (case y of None \<Rightarrow> True | Some r \<Rightarrow>
      length (cr_buf r) = length buf \<and> cr_stage_cur r < 2 * length buf \<and> apart (cr_taints r) \<and>
      (cr_taints r \<noteq> [] \<longrightarrow> (\<forall>p. tainted (cr_taints r) p \<longleftrightarrow> p < length buf \<and> cr_buf r ! p \<noteq> buf ! p)) \<and>
      (traces_by h ck \<longrightarrow> ck (cr_buf r) = ck buf \<and> (stands_still clock \<longrightarrow>
         (\<exists>other. (\<forall>p < length buf. other ! p \<noteq> buf ! p) \<and>
            (\<forall>p < length buf. cr_buf r ! p = buf ! p \<longrightarrow> refused ck (ck buf) buf other p)))))"
  by (rule colorization_ok [OF assms])

lemma finding_host_replaces: "replaces finding_host True"
proof -
  have m: "of_nat (e mod 256) = (of_nat e :: u8)" for e
    by (simp add: word_of_nat_eq_iff take_bit_eq_mod)
  have g: "random_byte finding_host b e = (of_nat e, e + 1)" for b e by (simp add: random_byte_def finding_host_def m)
  have "differing (random_byte finding_host) b e \<noteq> None" for b e
    by (subst differing.simps, subst differing.simps) (simp add: g)
  then show ?thesis by (simp add: replaces_def)
qed

theorem colorization_correct_witness:
  "\<exists>y. colorization finding_host (\<lambda>e. (0, e)) True 2 0 0 [0x41, 0x42] (sd_afl one_letter) 0 = Some y \<and>
     (case y of None \<Rightarrow> True | Some r \<Rightarrow> length (cr_buf r) = 2 \<and> cr_stage_cur r < 4 \<and> apart (cr_taints r))"
proof -
  let ?c = "colorization finding_host (\<lambda>e. (0, e)) True 2 0 0 [0x41, 0x42] (sd_afl one_letter) 0"
  have "\<exists>y. ?c = Some y \<and> (case y of None \<Rightarrow> True | Some r \<Rightarrow> length (cr_buf r) = 2 \<and> cr_stage_cur r < 2 * 2 \<and> apart (cr_taints r) \<and> G r)"
    if "\<exists>y. ?c = Some y \<and> (case y of None \<Rightarrow> True | Some r \<Rightarrow> length (cr_buf r) = length [0x41 :: u8, 0x42] \<and>
        cr_stage_cur r < 2 * length [0x41 :: u8, 0x42] \<and> apart (cr_taints r) \<and> G r)" for G
    using that by (simp only: list.size One_nat_def add_0 add_Suc numeral_2_eq_2)
  from this [OF colorization_correct [OF finding_host_replaces, of "[0x41, 0x42]" "\<lambda>e. (0, e)" 2 0 0 "sd_afl one_letter" 0 "\<lambda>_. 0"]]
  obtain y where "?c = Some y" "case y of None \<Rightarrow> True | Some r \<Rightarrow> length (cr_buf r) = 2 \<and> cr_stage_cur r < 4 \<and> apart (cr_taints r)"
    by (force split: option.splits)
  then show ?thesis by blast
qed

end
