(* ===== verification/Spec2Isabelle.thy ===== *)
theory Spec2Isabelle
  imports Alias Sha1 Havocstage Mutate Cache Hashmap Run Skipdet Colorize
begin

text \<open>
  A verification library for the core of AFL++ (\<open>src/AFLplusplus-dev\<close>).

  \<^bold>\<open>The program.\<close> AFL++ is a coverage guided fuzzer. \<open>afl-fuzz\<close> runs a target on mutated inputs; the
  target counts the edges it takes in a shared byte map. The fuzzer classifies these counts, compares
  them with the maps of what it has seen (\<open>afl-fuzz-bitmap.c\<close>), keeps inputs that show something new in
  a queue (\<open>afl-fuzz-queue.c\<close>), selects from the queue a small favored set that covers everything
  seen, scores and weighs the entries to choose the next one, and mutates it (\<open>afl-fuzz-one.c\<close>): first
  by deterministic stages, which also collect dictionary tokens (\<open>afl-fuzz-extras.c\<close>), then at random
  (\<open>afl-performance.c\<close> has the generator). The record \<open>afl_state_t\<close> is threaded through all functions.

  \<^bold>\<open>Theories.\<close>
  \<^item> \<open>Prelude\<close>: words of the machine widths, little-endian byte views, bounded loops, the error type
    \<open>fatal + 'a\<close> with \<open>bind_err\<close> and \<open>for_each\<close>.
  \<^item> \<open>State\<close>: the records for \<open>afl_state_t\<close>, \<open>afl_forkserver_t\<close>, \<open>struct queue_entry\<close> and
    \<open>struct extra_data\<close> (\<open>include/afl-fuzz.h\<close>, \<open>include/forkserver.h\<close>), \<open>afl_state_init\<close>, and
    \<open>campaign_start\<close>, what \<open>main\<close> makes of that state before the first run. A pointer to a queue entry is
    its index in \<open>queue_buf\<close>.
  \<^item> \<open>Rng\<close>: \<open>rand_next\<close>, \<open>rand_below\<close>, \<open>rand_set_seed\<close>, \<open>next_pow2\<close>, bit sets (\<open>afl-performance.c\<close>,
    \<open>afl-fuzz.h\<close>).
  \<^item> \<open>Sha1\<close>: the streaming SHA-1 and HMAC of \<open>afl-performance.c\<close> against FIPS 180-2 and RFC 2104,
    which are stated independently of the code's helpers (\<open>word_rotl\<close>, numbers instead of bytes).
  \<^item> \<open>Coverage\<close>: \<open>classify_counts\<close>, \<open>simplify_trace\<close>, \<open>has_new_bits\<close>,
    \<open>has_new_bits_unclassified\<close>, the counters and \<open>minimize_bits\<close> (\<open>afl-fuzz-bitmap.c\<close>,
    \<open>include/coverage-64.h\<close>).
  \<^item> \<open>Queue\<close>: \<open>add_to_queue\<close>, \<open>update_bitmap_score\<close>, \<open>update_bitmap_rescore\<close>, \<open>cull_queue\<close>, the marks.
  \<^item> \<open>Text\<close>: \<open>check_if_text\<close>.
  \<^item> \<open>Doubles\<close>, \<open>Score\<close>: \<open>calculate_score\<close>; a double is a real number with a rounding function.
  \<^item> \<open>Alias\<close>: \<open>create_alias_table\<close>, \<open>select_next_queue_entry\<close>.
  \<^item> \<open>Mutpred\<close>: the filters \<open>could_be_bitflip\<close>, \<open>could_be_arith\<close>, \<open>could_be_interest\<close> and
    \<open>locate_diffs\<close> (\<open>afl-fuzz-one.c\<close>).
  \<^item> \<open>Extras\<close>: the dictionaries (\<open>afl-fuzz-extras.c\<close>).
  \<^item> \<open>Detstage\<close>: the deterministic part of \<open>fuzz_one_original\<close>.
  \<^item> \<open>Randmonad\<close>: computations that draw random numbers and may stop; \<open>random_source\<close> is the interface
    between the generator and the mutations.
  \<^item> \<open>Havoc\<close>: the random mutations of \<open>fuzz_one_original\<close> and the tables of \<open>include/afl-mutations.h\<close>.
  \<^item> \<open>Havocstage\<close>: the havoc stage and the splicing rounds.
  \<^item> \<open>Mutate\<close>: \<open>afl_mutate\<close> of \<open>include/afl-mutations.h\<close>.
  \<^item> \<open>Cache\<close>: the cache of test cases in memory (\<open>queue_testcase_get\<close> and its updates, \<open>afl-fuzz-queue.c\<close>).
  \<^item> \<open>Run\<close>: runs of the target (\<open>afl-forkserver.c\<close>), \<open>common_fuzz_stuff\<close>, \<open>calibrate_case\<close> and
    \<open>trim_case\<close> (\<open>afl-fuzz-run.c\<close>). The target is a record of functions on an environment.
  \<^item> \<open>Hashmap\<close>: the table of operands of \<open>src/hashmap.c\<close>.
  \<^item> \<open>Skipdet\<close>: the effector map (\<open>afl-fuzz-skipdet.c\<close>), which says where the deterministic stages work.
  \<^item> \<open>Colorize\<close>: colorization, the first part of the input-to-state stage (\<open>afl-fuzz-redqueen.c\<close>).

  \<^bold>\<open>What the lemmas show.\<close> Coverage: word-wise routines equal their byte-wise meaning, the novelty
  contract (a locale, interpreted on \<open>has_new_bits\<close>), bounds on the number of finds. Queue: the invariant
  tying slots, reference counts and compacted traces; \<open>cull_queue\<close> is the greedy cover. Score: absence
  of undefined behaviour and bounds. Alias: the table reproduces the weights. Filters: characterised by
  what they accept. Dictionaries: parse/print round trip, sortedness and absence of duplicates.
  Deterministic stages: every stage gives the buffer back on every path, and which inputs it submits.
  Havoc: no mutation leaves its buffers, the growth of an input is bounded, the stage ends although new
  finds extend it; \<open>afl_mutate\<close> has no undefined behaviour, the havoc switch has two instances of it.
  Cache: what \<open>queue_testcase_get\<close> returns is the file of the entry, for any choice of evictions; a trim
  makes the recorded size wrong. Run: trimming returns and keeps a subsequence with the same
  checksum; how often calibration runs the target, and what it marks as variable. Hashmap: the chains refine
  a multiset of keys, the answers those of a set of masked keys. Skipdet: the inference returns, restores its
  buffer, and is right about what it selects and skips. Colorize: the taints are the replaced bytes, the
  trace is kept. SHA-1 and HMAC: equal to their standards.

  \<^bold>\<open>Loops and bounds.\<close> Loops over arrays are structural or have a measure; the loops whose end
  depends on their input are partial functions: \<open>rand_below\<close>, \<open>could_be_bitflip\<close> and \<open>havoc_loop\<close> are
  proved to return; a redraw or retry that does not end is the outcome \<open>No_return\<close>. Sizes are those of \<open>config.h\<close>. Divisions by
  zero, conversions out of range and accesses out of bounds are error values; counters the code keeps in
  32 bits are words or are reduced modulo \<open>2 ^ 32\<close>.

  \<^bold>\<open>Parameters.\<close> XXH3, \<open>qsort\<close> (its contract: a sorted permutation), \<open>log\<close>, \<open>log2\<close>, \<open>log10\<close>, the
  rounding of doubles in the scores, the clock, the file system, the runs of the target.

  \<^bold>\<open>Not modelled.\<close> MOpt mode. The solving of logged comparisons that follows colorization
  (\<open>cmp_fuzz\<close>, \<open>rtn_fuzz\<close>, \<open>input_to_state_stage\<close>). System-level code (fork server, shared memory,
  command line, status screen, custom mutators, instrumentation passes, emulator modes) and vendored
  code are left out: they consist of system calls or foreign interfaces with little state of their own.
\<close>

end
